(* ===== verification/Vortex_Prelude.thy ===== *)
theory Vortex_Prelude
  imports Main "HOL-Library.Word"
begin

text \<open>
  The shared base of the development: names for the C++ integer types, the named
  collections of rewrite rules the component proofs use, lemmas on masks and on
  circular index arithmetic, and the window of a circular array that the log queue
  and the stash buffer both use as their abstraction function.
\<close>

unbundle bit_operations_syntax

type_synonym u8 = "8 word"
type_synonym u16 = "16 word"
type_synonym u32 = "32 word"
type_synonym u64 = "64 word"
type_synonym size_t = "64 word"
type_synonym bytes = "8 word list"

named_theorems vx_simps \<open>unfolding rules of the model's small operations\<close>
named_theorems vx_frame \<open>fields an operation leaves unchanged\<close>
named_theorems vx_inv \<open>invariants and the operations that keep them\<close>

text \<open>
  The outcome of an operation that may fail to return a value: \<open>Spins\<close> is a busy wait
  whose exit condition no other step of the same thread can establish, \<open>Undef\<close> is
  behaviour the C++ standard leaves undefined (an index out of range, an inverted
  iterator range), \<open>Terminates\<close> is \<open>std::terminate\<close>, as after an exception that leaves
  a \<open>noexcept\<close> function.
\<close>

datatype 'a outcome = Done 'a | Spins | Undef | Terminates

definition bind_out :: "'a outcome \<Rightarrow> ('a \<Rightarrow> 'b outcome) \<Rightarrow> 'b outcome" where
  "bind_out m f =
     (case m of Done x \<Rightarrow> f x | Spins \<Rightarrow> Spins | Undef \<Rightarrow> Undef | Terminates \<Rightarrow> Terminates)"

lemma bind_out_simps [simp]:
  "bind_out (Done x) f = f x"
  "bind_out Spins f = Spins"
  "bind_out Undef f = Undef"
  "bind_out Terminates f = Terminates"
  by (simp_all add: bind_out_def)

lemma bind_out_Done_iff:
  "bind_out m f = Done y \<longleftrightarrow> (\<exists>x. m = Done x \<and> f x = Done y)"
  by (cases m) auto

lemma bind_out_assoc: "bind_out (bind_out m f) g = bind_out m (\<lambda>x. bind_out (f x) g)"
  by (cases m) auto

section \<open>Masks\<close>

text \<open>The code reduces every index with \<open>AND (capacity - 1)\<close>; for a power of two that is
  the remainder.\<close>

lemma unat_lt2p: "unat (x :: 'a::len word) < 2 ^ LENGTH('a)"
  by (rule unsigned_less)

lemma unat_word_of_nat_small:
  "n < 2 ^ LENGTH('a) \<Longrightarrow> unat (word_of_nat n :: 'a::len word) = n"
  by (simp only: unat_of_nat mod_less)

lemma unat_ucast_trunc: "unat (x :: size_t) < 2 ^ 32 \<Longrightarrow> unat (ucast x :: u32) = unat x"
  by (simp add: unsigned_ucast_eq take_bit_nat_eq_self)

lemma unat_ucast_u32: "unat (ucast (u :: u32) :: u64) = unat u"
proof -
  have "unat u < 2 ^ 64" using unat_lt2p [of u] by simp
  then show ?thesis by (simp add: unsigned_ucast_eq take_bit_nat_eq_self)
qed

lemma unat_exp_word: "n < LENGTH('a) \<Longrightarrow> unat (2 ^ n :: 'a::len word) = 2 ^ n"
  by (metis of_nat_numeral of_nat_power unat_of_nat mod_less one_less_numeral_iff
      power_strict_increasing semiring_norm(76))

lemma unat_mask_and:
  assumes "n < LENGTH('a)"
  shows "unat ((x :: 'a::len word) AND (2 ^ n - 1)) = unat x mod 2 ^ n"
proof -
  have "unat (x AND (2 ^ n - 1)) = unat (take_bit n x)"
    by (simp only: take_bit_eq_mask mask_eq_exp_minus_1)
  also have "\<dots> = take_bit n (unat x)"
    by (rule unsigned_take_bit_eq)
  finally show ?thesis
    by (simp only: take_bit_eq_mod)
qed

lemma unat_exp_minus_one:
  assumes "n < LENGTH('a)"
  shows "unat ((2 ^ n - 1) :: 'a::len word) = 2 ^ n - 1"
proof -
  have "(2 ^ n :: 'a word) \<noteq> 0"
    using assms by (metis unat_0 unat_exp_word power_not_zero zero_neq_numeral)
  then show ?thesis
    using assms by (simp add: unat_minus_one unat_exp_word)
qed

lemma unat_add_small:
  "unat x + unat y < 2 ^ LENGTH('a) \<Longrightarrow> unat (x + y :: 'a::len word) = unat x + unat y"
  by (simp add: unat_add_lem [symmetric])

lemma mod_exp_add_mod:
  assumes "n \<le> m"
  shows "((a + b) mod 2 ^ m) mod 2 ^ n = (a + b) mod (2 ^ n :: nat)"
  using assms by (simp add: mod_mod_cancel le_imp_power_dvd)

text \<open>The three circular computations of the ring code, read as natural numbers.\<close>

lemma unat_succ_mask:
  assumes "n < LENGTH('a)" and "unat (x :: 'a::len word) < 2 ^ n"
  shows "unat ((x + 1) AND (2 ^ n - 1)) = Suc (unat x) mod 2 ^ n"
proof -
  have "unat (x + 1) mod 2 ^ n = (unat x + unat (1 :: 'a word)) mod 2 ^ LENGTH('a) mod 2 ^ n"
    by (simp add: unat_word_ariths)
  also have "\<dots> = (unat x + unat (1 :: 'a word)) mod 2 ^ n"
    using assms(1) by (intro mod_exp_add_mod) simp
  finally show ?thesis
    using assms(1) by (simp add: unat_mask_and)
qed

lemma unat_diff_mask:
  assumes "n < LENGTH('a)" and "unat (x :: 'a::len word) < 2 ^ n" and "unat y < 2 ^ n"
  shows "unat ((x - y) AND (2 ^ n - 1)) = (unat x + 2 ^ n - unat y) mod 2 ^ n"
proof (cases "unat y \<le> unat x")
  case True
  then have "unat (x - y) = unat x - unat y"
    by (simp add: unat_sub_if')
  moreover have "(unat x + 2 ^ n - unat y) mod 2 ^ n = (unat x - unat y) mod 2 ^ n"
    using True by (metis Nat.add_diff_assoc2 mod_add_self2)
  ultimately show ?thesis
    using assms(1) by (simp add: unat_mask_and)
next
  case False
  obtain k where k: "(2::nat) ^ LENGTH('a) = 2 ^ n * k" and "0 < k"
    using assms(1) by (metis le_imp_power_dvd dvdE less_imp_le_nat mult_0_right
        power_not_zero zero_neq_numeral not_gr_zero)
  then obtain k' where k': "k = Suc k'"
    by (cases k) auto
  have "unat (x - y) = unat x + 2 ^ LENGTH('a) - unat y"
    using False by (simp add: unat_sub_if')
  also have "\<dots> = (unat x + 2 ^ n - unat y) + 2 ^ n * k'"
    using assms(3) by (simp add: k k')
  finally show ?thesis
    using assms(1) by (simp add: unat_mask_and)
qed

section \<open>Circular arrays\<close>

text \<open>
  \<open>ring_list arr t h\<close> is the content of a circular array between index \<open>t\<close> (the oldest
  element) and index \<open>h\<close> (the next free slot): the abstraction function of the log queue.
\<close>

definition ring_count :: "nat \<Rightarrow> nat \<Rightarrow> nat \<Rightarrow> nat" where
  "ring_count N t h = (h + N - t) mod N"

definition ring_list :: "'a list \<Rightarrow> nat \<Rightarrow> nat \<Rightarrow> 'a list" where
  "ring_list arr t h =
     map (\<lambda>i. arr ! ((t + i) mod length arr)) [0..<ring_count (length arr) t h]"

lemma length_ring_list [simp]: "length (ring_list arr t h) = ring_count (length arr) t h"
  by (simp add: ring_list_def)

lemma ring_count_cases:
  assumes "t < N" and "h < N"
  shows "ring_count N t h = (if t \<le> h then h - t else h + N - t)"
proof (cases "t \<le> h")
  case True
  then have "(h + N - t) mod N = (h - t) mod N"
    by (metis Nat.add_diff_assoc2 mod_add_self2)
  with assms True show ?thesis by (simp add: ring_count_def)
next
  case False
  with assms show ?thesis by (simp add: ring_count_def)
qed

lemma ring_count_less: "0 < N \<Longrightarrow> ring_count N t h < N"
  by (simp add: ring_count_def)

lemma ring_count_same [simp]: "t < N \<Longrightarrow> ring_count N t t = 0"
  by (simp add: ring_count_def)

lemma ring_count_zero_iff: "t < N \<Longrightarrow> h < N \<Longrightarrow> ring_count N t h = 0 \<longleftrightarrow> t = h"
  by (auto simp: ring_count_cases split: if_splits)

lemma Suc_mod_cases: "h < N \<Longrightarrow> Suc h mod N = (if Suc h = N then 0 else Suc h)"
  by (simp add: mod_Suc)

lemma ring_count_push:
  assumes "t < N" and "h < N" and "Suc h mod N \<noteq> t"
  shows "ring_count N t (Suc h mod N) = Suc (ring_count N t h)"
  using assms by (auto simp: ring_count_cases Suc_mod_cases split: if_splits)

lemma ring_count_pop:
  assumes "t < N" and "h < N" and "t \<noteq> h"
  shows "ring_count N t h = Suc (ring_count N (Suc t mod N) h)"
  using assms by (auto simp: ring_count_cases Suc_mod_cases split: if_splits)

lemma ring_index_neq_head:
  assumes "t < N" and "h < N" and "i < ring_count N t h"
  shows "(t + i) mod N \<noteq> h"
proof (cases "t + i < N")
  case True
  with assms show ?thesis by (auto simp: ring_count_cases split: if_splits)
next
  case False
  have "i < N" using assms ring_count_less [of N t h] by simp
  with False assms(1) have "(t + i) mod N = t + i - N"
    by (simp add: mod_if)
  with False assms show ?thesis by (auto simp: ring_count_cases split: if_splits)
qed

lemma ring_list_empty_iff:
  "t < length arr \<Longrightarrow> h < length arr \<Longrightarrow> ring_list arr t h = [] \<longleftrightarrow> t = h"
  using ring_count_zero_iff [of t "length arr" h] by (simp add: ring_list_def)

lemma ring_list_same [simp]: "t < length arr \<Longrightarrow> ring_list arr t t = []"
  by (simp add: ring_list_def)

text \<open>Writing the free slot at the head leaves the content alone.\<close>

lemma ring_list_update_head:
  assumes "t < length arr" and "h < length arr"
  shows "ring_list (arr[h := x]) t h = ring_list arr t h"
proof -
  have "arr[h := x] ! ((t + i) mod length arr) = arr ! ((t + i) mod length arr)"
    if "i < ring_count (length arr) t h" for i
    using ring_index_neq_head [OF assms that] by (metis nth_list_update_neq)
  then show ?thesis by (simp add: ring_list_def)
qed

lemma ring_index_last:
  assumes "t < N" and "h < N"
  shows "(t + ring_count N t h) mod N = h"
  using assms by (auto simp: ring_count_cases mod_if)

text \<open>Publishing the next head appends the element just written.\<close>

lemma ring_list_push:
  assumes "t < length arr" and "h < length arr" and "Suc h mod length arr \<noteq> t"
  shows "ring_list (arr[h := x]) t (Suc h mod length arr) = ring_list arr t h @ [x]"
proof -
  let ?N = "length arr"
  have "ring_list (arr[h := x]) t (Suc h mod ?N) =
      map (\<lambda>i. arr[h := x] ! ((t + i) mod ?N)) [0..<Suc (ring_count ?N t h)]"
    using ring_count_push [OF assms] by (simp add: ring_list_def)
  also have "\<dots> = map (\<lambda>i. arr[h := x] ! ((t + i) mod ?N)) [0..<ring_count ?N t h] @ [x]"
    using assms by (simp add: ring_index_last)
  also have "map (\<lambda>i. arr[h := x] ! ((t + i) mod ?N)) [0..<ring_count ?N t h] = ring_list arr t h"
    using ring_list_update_head [OF assms(1,2), of x] by (simp add: ring_list_def)
  finally show ?thesis .
qed

text \<open>Advancing the tail removes the first element.\<close>

lemma ring_list_pop:
  assumes "t < length arr" and "h < length arr" and "t \<noteq> h"
  shows "ring_list arr t h = arr ! t # ring_list arr (Suc t mod length arr) h"
proof -
  let ?N = "length arr"
  have shift: "(Suc t mod ?N + i) mod ?N = (t + Suc i) mod ?N" for i
    by (simp add: mod_simps)
  have "ring_list arr t h =
      map (\<lambda>i. arr ! ((t + i) mod ?N)) [0..<Suc (ring_count ?N (Suc t mod ?N) h)]"
    using ring_count_pop [OF assms] by (simp add: ring_list_def)
  also have "\<dots> = arr ! t #
      map (\<lambda>i. arr ! ((t + Suc i) mod ?N)) [0..<ring_count ?N (Suc t mod ?N) h]"
    using assms(1) by (subst map_upt_Suc) simp
  finally show ?thesis
    by (simp add: ring_list_def shift)
qed

text \<open>
  Publishing a head that meets the tail makes the array look empty, whatever it held.
\<close>

lemma ring_list_overrun:
  "t < length arr \<Longrightarrow> Suc h mod length arr = t \<Longrightarrow>
   ring_list (arr[h := x]) t (Suc h mod length arr) = []"
  by simp

end
