(* ===== verification/Cpp_Text.thy ===== *)
theory Cpp_Text
  imports Cpp_Std
begin

text \<open>
  Text scanning as the engine does it: \<open>std::from_chars\<close> on unsigned integers, decimal
  output, \<open>std::memchr\<close>, and the AVX2 search for delimiters (\<open>_mm256_cmpeq_epi8\<close>,
  \<open>_mm256_movemask_epi8\<close>, \<open>_tzcnt_u32\<close>, \<open>__popcnt\<close>) with the bit trick
  \<open>m & (m - 1)\<close> that removes the lowest set bit.
\<close>

section \<open>Decimal numbers\<close>

definition is_digit :: "u8 \<Rightarrow> bool" where
  "is_digit c \<longleftrightarrow> 48 \<le> c \<and> c \<le> 57"

definition digit_val :: "u8 \<Rightarrow> nat" where
  "digit_val c = unat c - 48"

fun dec_acc :: "nat \<Rightarrow> bytes \<Rightarrow> nat" where
  "dec_acc a [] = a"
| "dec_acc a (c # cs) = dec_acc (10 * a + digit_val c) cs"

datatype errc = Errc_ok | Invalid_argument | Result_out_of_range

text \<open>
  \<open>from_chars w bs\<close> reads the longest run of digits: it returns how many bytes it
  consumed, the value (0, the callers' initial value, when there is none), and the error code.
\<close>

definition from_chars :: "nat \<Rightarrow> bytes \<Rightarrow> nat \<times> nat \<times> errc" where
  "from_chars w bs =
     (let ds = takeWhile is_digit bs; v = dec_acc 0 ds in
      if ds = [] then (0, 0, Invalid_argument)
      else if 2 ^ w \<le> v then (length ds, 0, Result_out_of_range)
      else (length ds, v, Errc_ok))"

fun dec_digits :: "nat \<Rightarrow> bytes" where
  "dec_digits n =
     (if n < 10 then [word_of_nat (48 + n)]
      else dec_digits (n div 10) @ [word_of_nat (48 + n mod 10)])"

declare dec_digits.simps [simp del]

lemma is_digit_iff: "is_digit c \<longleftrightarrow> 48 \<le> unat c \<and> unat c \<le> 57"
  by (simp add: is_digit_def word_le_nat_alt)

lemma unat_digit: "d < 10 \<Longrightarrow> unat (word_of_nat (48 + d) :: u8) = 48 + d"
  by (rule unat_word_of_nat_small) simp

lemma is_digit_digit: "d < 10 \<Longrightarrow> is_digit (word_of_nat (48 + d))"
  by (simp only: is_digit_iff unat_digit) simp

lemma digit_val_digit: "d < 10 \<Longrightarrow> digit_val (word_of_nat (48 + d)) = d"
  by (simp only: digit_val_def unat_digit diff_add_inverse)

lemma dec_acc_append: "dec_acc a (xs @ ys) = dec_acc (dec_acc a xs) ys"
  by (induction xs arbitrary: a) auto

lemma dec_digits_nonempty [simp]: "dec_digits n \<noteq> []"
  by (subst dec_digits.simps) simp

lemma dec_digits_digit: "c \<in> set (dec_digits n) \<Longrightarrow> is_digit c"
proof (induction n rule: dec_digits.induct)
  case (1 n)
  show ?case
  proof (cases "n < 10")
    case True
    with "1.prems" show ?thesis
      by (subst (asm) dec_digits.simps) (auto simp: is_digit_digit simp del: of_nat_add)
  next
    case False
    with "1.prems" have "c \<in> set (dec_digits (n div 10)) \<or> c = word_of_nat (48 + n mod 10)"
      by (subst (asm) dec_digits.simps) (auto simp del: of_nat_add)
    with "1.IH" [OF False] show ?thesis
      by (auto simp: is_digit_digit simp del: of_nat_add)
  qed
qed

lemma dec_acc_dec_digits: "dec_acc 0 (dec_digits n) = n"
proof (induction n rule: dec_digits.induct)
  case (1 n)
  show ?case
  proof (cases "n < 10")
    case True
    then show ?thesis
      by (subst dec_digits.simps) (simp add: digit_val_digit del: of_nat_add)
  next
    case False
    with "1.IH" show ?thesis
      by (subst dec_digits.simps) (simp add: dec_acc_append digit_val_digit del: of_nat_add)
  qed
qed

lemma dec_digits_inject: "dec_digits m = dec_digits n \<longleftrightarrow> m = n"
  by (metis dec_acc_dec_digits)

lemma takeWhile_digits:
  "\<forall>c \<in> set ds. is_digit c \<Longrightarrow> r = [] \<or> \<not> is_digit (hd r) \<Longrightarrow>
   takeWhile is_digit (ds @ r) = ds"
  by (induction ds) (cases r, auto)

lemma from_chars_digits:
  assumes "n < 2 ^ w" and "r = [] \<or> \<not> is_digit (hd r)"
  shows "from_chars w (dec_digits n @ r) = (length (dec_digits n), n, Errc_ok)"
proof -
  have "takeWhile is_digit (dec_digits n @ r) = dec_digits n"
    using assms(2) by (intro takeWhile_digits) (auto intro: dec_digits_digit)
  then show ?thesis
    using assms(1) by (simp add: from_chars_def dec_acc_dec_digits)
qed

lemma from_chars_okD:
  assumes "from_chars w bs = (k, v, Errc_ok)"
  shows "takeWhile is_digit bs = take k bs" and "k \<noteq> 0" and "k \<le> length bs"
    and "v = dec_acc 0 (take k bs)" and "v < 2 ^ w"
    and "drop k bs = [] \<or> \<not> is_digit (hd (drop k bs))"
proof -
  let ?ds = "takeWhile is_digit bs"
  have k: "k = length ?ds" and ne: "?ds \<noteq> []" and v: "v = dec_acc 0 ?ds" and "v < 2 ^ w"
    using assms by (auto simp: from_chars_def Let_def split: if_splits)
  have tk: "take k bs = ?ds"
    by (simp add: k takeWhile_eq_take [symmetric])
  from tk show "?ds = take k bs" by simp
  show "k \<noteq> 0" using k ne by simp
  show "k \<le> length bs" by (simp add: k length_takeWhile_le)
  show "v = dec_acc 0 (take k bs)" by (simp add: v tk)
  show "v < 2 ^ w" by fact
  have "drop k bs = dropWhile is_digit bs"
    by (simp add: k dropWhile_eq_drop)
  then show "drop k bs = [] \<or> \<not> is_digit (hd (drop k bs))"
    using hd_dropWhile [of is_digit bs] by auto
qed

lemma from_chars_consumed_le:
  "from_chars w bs = (k, v, e) \<Longrightarrow> k \<le> length bs"
  by (auto simp: from_chars_def Let_def length_takeWhile_le split: if_splits)

section \<open>Searching\<close>

definition memchr :: "u8 \<Rightarrow> bytes \<Rightarrow> nat option" where
  "memchr c bs =
     (if c \<in> set bs then Some (length (takeWhile (\<lambda>b. b \<noteq> c) bs)) else None)"

lemma memchr_None_iff: "memchr c bs = None \<longleftrightarrow> c \<notin> set bs"
  by (simp add: memchr_def)

lemma takeWhile_neq_split:
  "c \<in> set bs \<Longrightarrow> bs = takeWhile (\<lambda>b. b \<noteq> c) bs @ c # tl (dropWhile (\<lambda>b. b \<noteq> c) bs)"
  by (induction bs) auto

lemma memchr_SomeD:
  assumes "memchr c bs = Some k"
  shows "k < length bs" and "bs ! k = c" and "c \<notin> set (take k bs)"
proof -
  let ?t = "takeWhile (\<lambda>b. b \<noteq> c) bs"
  have k: "k = length ?t" and split: "bs = ?t @ c # tl (dropWhile (\<lambda>b. b \<noteq> c) bs)"
    using assms takeWhile_neq_split [of c bs] by (auto simp: memchr_def split: if_splits)
  show "k < length bs" by (subst split) (simp add: k)
  show "bs ! k = c" by (subst split) (simp add: k)
  have "take k bs = ?t" by (subst split) (simp add: k)
  then show "c \<notin> set (take k bs)" by (auto dest: set_takeWhileD)
qed

lemma memchr_append:
  "memchr c xs = Some k \<Longrightarrow> memchr c (xs @ ys) = Some k"
  by (auto simp: memchr_def split: if_splits)

lemma memchr_first: "c \<notin> set xs \<Longrightarrow> memchr c (xs @ c # ys) = Some (length xs)"
  by (simp add: memchr_def takeWhile_append2) (induction xs, auto)

section \<open>Delimiter masks\<close>

text \<open>
  \<open>movemask_eq c bs\<close> is \<open>_mm256_movemask_epi8 (_mm256_cmpeq_epi8 v (_mm256_set1_epi8 c))\<close>
  for the vector \<open>v\<close> loaded from the first 32 bytes of \<open>bs\<close>: bit \<open>i\<close> is set where byte
  \<open>i\<close> is \<open>c\<close>.
\<close>

definition movemask_eq :: "u8 \<Rightarrow> bytes \<Rightarrow> u32" where
  "movemask_eq c bs = horner_sum of_bool 2 (map (\<lambda>b. b = c) (take 32 bs))"

definition set_bits_of :: "u32 \<Rightarrow> nat list" where
  "set_bits_of m = filter (bit m) [0..<32]"

definition popcnt32 :: "u32 \<Rightarrow> nat" where
  "popcnt32 m = length (set_bits_of m)"

definition tzcnt32 :: "u32 \<Rightarrow> nat" where
  "tzcnt32 m = (case set_bits_of m of [] \<Rightarrow> 32 | i # _ \<Rightarrow> i)"

lemma bit_movemask_eq:
  "bit (movemask_eq c bs) i \<longleftrightarrow> i < 32 \<and> i < length bs \<and> bs ! i = c"
  by (auto simp: movemask_eq_def bit_horner_sum_bit_word_iff)

lemma set_bits_of_movemask:
  "set_bits_of (movemask_eq c bs) = filter (\<lambda>i. i < length bs \<and> bs ! i = c) [0..<32]"
  unfolding set_bits_of_def by (rule filter_cong) (auto simp: bit_movemask_eq)

text \<open>Subtracting one flips the lowest set bit and sets everything below it.\<close>

lemma bit_minus_one:
  fixes m :: u32
  assumes "bit m p" and "\<And>i. i < p \<Longrightarrow> \<not> bit m i"
  shows "bit (m - 1) i \<longleftrightarrow> i < 32 \<and> (if i < p then True else if i = p then False else bit m i)"
proof -
  have p: "p < 32" using bit_imp_le_length [OF assms(1)] by simp
  let ?r = "m AND NOT (mask (Suc p))"
  have bit_exp: "bit (2 ^ p :: u32) i \<longleftrightarrow> i = p" for i
    using p by (auto simp: bit_exp_iff)
  have bit_mask: "bit (mask p :: u32) i \<longleftrightarrow> i < p" for i
    using p by (auto simp: bit_mask_iff)
  have bit_r: "bit ?r i \<longleftrightarrow> bit m i \<and> p < i" for i
    by (auto simp: bit_simps dest: bit_imp_le_length)
  have "m = ?r OR 2 ^ p"
  proof (rule bit_eqI)
    fix i
    show "bit m i \<longleftrightarrow> bit (?r OR 2 ^ p) i"
      using assms by (cases "i < p"; cases "i = p") (auto simp: bit_or_iff bit_r bit_exp)
  qed
  also have "?r OR 2 ^ p = ?r + 2 ^ p"
    by (rule disjunctive_add [symmetric]) (auto simp: bit_r bit_exp)
  finally have "m - 1 = ?r + mask p"
    by (simp add: mask_eq_exp_minus_1)
  also have "\<dots> = ?r OR mask p"
    by (rule disjunctive_add) (auto simp: bit_r bit_mask)
  finally show ?thesis
    using p by (auto simp: bit_or_iff bit_r bit_mask dest: bit_imp_le_length)
qed

lemma set_bits_of_lowest:
  assumes "set_bits_of m = p # ps"
  shows "bit m p" and "\<And>i. i < p \<Longrightarrow> \<not> bit m i"
proof -
  have f: "filter (bit m) [0..<32] = p # ps"
    using assms by (simp add: set_bits_of_def)
  then have "p \<in> set (filter (bit m) [0..<32])" by simp
  then show "bit m p" by simp
  fix i assume "i < p"
  show "\<not> bit m i"
  proof
    assume "bit m i"
    then have "i \<in> set (p # ps)"
      unfolding f [symmetric] using bit_imp_le_length [of m i] by simp
    moreover have "sorted (p # ps)"
      unfolding f [symmetric] by (intro sorted_wrt_filter) simp
    ultimately show False using \<open>i < p\<close> by auto
  qed
qed

lemma clear_lowest_bit:
  assumes "set_bits_of m = p # ps"
  shows "set_bits_of (m AND (m - 1)) = ps"
proof -
  note low = set_bits_of_lowest [OF assms]
  have b: "bit (m AND (m - 1)) i \<longleftrightarrow> bit m i \<and> i \<noteq> p" for i
    using bit_minus_one [OF low] low(2) bit_imp_le_length [of m i]
    by (auto simp: bit_and_iff)
  have "distinct (p # ps)"
    unfolding assms [symmetric] set_bits_of_def by simp
  then have "filter (\<lambda>i. i \<noteq> p) (p # ps) = ps"
    by (auto intro: filter_True)
  moreover have "set_bits_of (m AND (m - 1)) = filter (\<lambda>i. i \<noteq> p) (set_bits_of m)"
    unfolding set_bits_of_def filter_filter by (rule filter_cong) (auto simp: b)
  ultimately show ?thesis by (simp add: assms)
qed

text \<open>
  The second application of the trick in the code subtracts 2 from the original mask. On a
  mask whose bit 0 is clear that removes nothing more: the \<open>p3\<close> of the SIMD parser is its
  \<open>p2\<close>.
\<close>

lemma and_minus_two:
  fixes m :: u32
  assumes "\<not> bit m 0"
  shows "(m AND (m - 1)) AND (m - 2) = m AND (m - 1)"
proof -
  have "even m" using assms by (simp add: bit_0)
  then have "even (m - 2)" by simp
  then have "m - 2 + 1 = m - 2 OR 1"
    by (intro disjunctive_add) (metis bit_0 bit_1_iff)
  then have "m - 1 = m - 2 OR 1" by simp
  moreover have "m AND 1 = 0"
  proof (intro bit_eqI)
    fix n
    show "bit (m AND 1) n = bit (0 :: u32) n"
      using assms by (cases n) (auto simp: bit_and_iff bit_1_iff simp del: and_one_eq)
  qed
  ultimately have eq: "m AND (m - 1) = m AND (m - 2)"
    by (simp add: bit.conj_disj_distrib)
  show ?thesis
    unfolding eq by (simp only: and.assoc and.idem)
qed

end
