(* ===== verification/Log_Types.thy ===== *)
theory Log_Types
  imports Cpp_Text
begin

text \<open>
  The data the engine passes around: the log levels, the overflow profiles and the queue
  entry of \<open>Core/include/LogQueue.h\<close>, the configuration of \<open>VortexEngine/MainConfig.h\<close>,
  and the two packed structures of \<open>shared/shared_memory_protocol.h\<close> with their byte
  layout, which external readers of the shared memory rely on.
\<close>

section \<open>Levels and profiles\<close>

datatype LogLevel = Debug | Info | Warning | Error | Critical

text \<open>\<open>static_cast\<close> to and from the underlying \<open>uint8_t\<close>.\<close>

fun level_value :: "LogLevel \<Rightarrow> nat" where
  "level_value Debug = 0"
| "level_value Info = 1"
| "level_value Warning = 2"
| "level_value Error = 3"
| "level_value Critical = 4"

definition level_of :: "nat \<Rightarrow> LogLevel option" where
  "level_of n =
     (if n = 0 then Some Debug else if n = 1 then Some Info else if n = 2 then Some Warning
      else if n = 3 then Some Error else if n = 4 then Some Critical else None)"

lemma level_of_value [simp]: "level_of (level_value l) = Some l"
  by (cases l) (simp_all add: level_of_def)

lemma level_value_of: "level_of n = Some l \<longleftrightarrow> level_value l = n"
  by (cases l) (auto simp: level_of_def)

lemma level_value_le [simp]: "level_value l \<le> 4"
  by (cases l) simp_all

lemma level_of_Some_iff: "(\<exists>l. level_of n = Some l) \<longleftrightarrow> n \<le> 4"
  by (auto simp: level_of_def)

text \<open>Severity order: the order of the underlying values.\<close>

instantiation LogLevel :: linorder
begin

definition less_eq_LogLevel :: "LogLevel \<Rightarrow> LogLevel \<Rightarrow> bool" where
  "less_eq_LogLevel a b \<longleftrightarrow> level_value a \<le> level_value b"

definition less_LogLevel :: "LogLevel \<Rightarrow> LogLevel \<Rightarrow> bool" where
  "less_LogLevel a b \<longleftrightarrow> level_value a < level_value b"

instance
proof
  fix x y z :: LogLevel
  show "(x < y) = (x \<le> y \<and> \<not> y \<le> x)"
    by (auto simp: less_LogLevel_def less_eq_LogLevel_def)
  show "x \<le> x" by (simp add: less_eq_LogLevel_def)
  show "x \<le> z" if "x \<le> y" "y \<le> z"
    using that by (simp add: less_eq_LogLevel_def)
  show "x = y" if "x \<le> y" "y \<le> x"
    using that by (cases x; cases y) (simp_all add: less_eq_LogLevel_def)
  show "x \<le> y \<or> y \<le> x" by (auto simp: less_eq_LogLevel_def)
qed

end

lemma Critical_greatest: "l \<le> Critical"
  by (cases l) (simp_all add: less_eq_LogLevel_def)

datatype OverflowProfile = Block | DropAll | DropNonCritical | PassCriticalDropElse

fun profile_value :: "OverflowProfile \<Rightarrow> nat" where
  "profile_value Block = 0"
| "profile_value DropAll = 1"
| "profile_value DropNonCritical = 2"
| "profile_value PassCriticalDropElse = 3"

definition profile_of :: "int \<Rightarrow> OverflowProfile" where
  "profile_of p =
     (if p = 0 then Block else if p = 1 then DropAll else if p = 2 then DropNonCritical
      else PassCriticalDropElse)"

lemma profile_of_value [simp]: "profile_of (int (profile_value p)) = p"
  by (cases p) (simp_all add: profile_of_def)

section \<open>Queue entries and configuration\<close>

record LogEntry =
  timestamp :: u64
  log_id :: u32
  message_lenght :: u32
  message_offset :: u32
  relative_offset :: u64
  level :: LogLevel

record MainConfig =
  usable_ram :: size_t
  log_size :: size_t
  profile :: OverflowProfile
  thread_num :: size_t
  cfg_max_slabs :: size_t
  slabs_size :: size_t

text \<open>The default member initialisers; \<open>slabs_size\<close> takes the value of \<open>log_size\<close>.\<close>

definition default_config :: MainConfig where
  "default_config =
     \<lparr>usable_ram = 16, log_size = 1, profile = DropAll, thread_num = 1,
      cfg_max_slabs = 10, slabs_size = 1\<rparr>"

section \<open>Packed layout\<close>

text \<open>
  \<open>layout 0 fields\<close> places fields of given size and alignment one after the other and
  returns their offsets and the first free byte. Under \<open>#pragma pack(push, 1)\<close> a field's
  own alignment counts as 1; an \<open>alignas(64)\<close> on a field is kept.
\<close>

definition align_up :: "nat \<Rightarrow> nat \<Rightarrow> nat" where
  "align_up n a = (n + (a - 1)) div a * a"

fun layout :: "nat \<Rightarrow> (nat \<times> nat) list \<Rightarrow> nat list \<times> nat" where
  "layout at [] = ([], at)"
| "layout at ((sz, al) # fs) =
     (let o1 = align_up at al; (os, e) = layout (o1 + sz) fs in (o1 # os, e))"

definition sizeof_struct :: "(nat \<times> nat) list \<Rightarrow> nat" where
  "sizeof_struct fs = align_up (snd (layout 0 fs)) (fold (\<lambda>(_, al) m. max al m) fs 1)"

definition LogEntry_fields :: "(nat \<times> nat) list" where
  "LogEntry_fields = [(8, 1), (4, 1), (4, 1), (4, 1), (8, 1), (1, 1)]"

definition SharedLogEntryHeader_fields :: "(nat \<times> nat) list" where
  "SharedLogEntryHeader_fields = [(8, 1), (4, 1), (4, 1), (4, 1), (8, 1), (1, 1)]"

definition SharedMemoryControl_fields :: "(nat \<times> nat) list" where
  "SharedMemoryControl_fields =
     [(4, 1), (4, 1), (4, 1), (4, 1), (8, 64), (8, 64), (28, 1)]"

definition sizeof_LogEntry :: nat where
  "sizeof_LogEntry = sizeof_struct LogEntry_fields"

text \<open>\<open>LogEntry::GetMemory\<close>\<close>

definition GetMemory :: "LogEntry \<Rightarrow> size_t" where
  "GetMemory e = word_of_nat sizeof_LogEntry"

definition sizeof_SharedLogEntryHeader :: nat where
  "sizeof_SharedLogEntryHeader = sizeof_struct SharedLogEntryHeader_fields"

definition sizeof_SharedMemoryControl :: nat where
  "sizeof_SharedMemoryControl = sizeof_struct SharedMemoryControl_fields"

lemma sizeof_LogEntry [simp]: "sizeof_LogEntry = 29"
  by (simp add: sizeof_LogEntry_def sizeof_struct_def align_up_def LogEntry_fields_def)

lemma sizeof_SharedLogEntryHeader [simp]: "sizeof_SharedLogEntryHeader = 29"
  by (simp add: sizeof_SharedLogEntryHeader_def sizeof_struct_def align_up_def SharedLogEntryHeader_fields_def)

lemma sizeof_SharedMemoryControl [simp]: "sizeof_SharedMemoryControl = 192"
  by (simp add: sizeof_SharedMemoryControl_def sizeof_struct_def align_up_def SharedMemoryControl_fields_def)

section \<open>The shared memory structures\<close>

record SharedLogEntryHeader =
  h_timestamp :: u64
  h_log_id :: u32
  h_message_len :: u32
  h_message_offset :: u32
  h_relative_offset :: u64
  h_level :: u8

record SharedMemoryControl =
  magic_number :: u32
  ctl_slab_size :: u32
  ctl_max_slabs :: u32
  header_size :: u32
  write_offset :: u64
  read_offset :: u64

text \<open>The bytes a header occupies: its fields in declaration order, little-endian.\<close>

definition header_bytes :: "SharedLogEntryHeader \<Rightarrow> bytes" where
  "header_bytes h =
     le_bytes 8 (unat (h_timestamp h)) @ le_bytes 4 (unat (h_log_id h)) @
     le_bytes 4 (unat (h_message_len h)) @ le_bytes 4 (unat (h_message_offset h)) @
     le_bytes 8 (unat (h_relative_offset h)) @ le_bytes 1 (unat (h_level h))"

text \<open>
  What a reader that maps the channel gets back from those bytes, by the offsets of the
  layout.
\<close>

definition field_at :: "bytes \<Rightarrow> nat \<Rightarrow> nat \<Rightarrow> nat" where
  "field_at bs off n = le_value (take n (drop off bs))"

definition read_header_bytes :: "bytes \<Rightarrow> SharedLogEntryHeader" where
  "read_header_bytes bs =
     (case fst (layout 0 SharedLogEntryHeader_fields) of
        [o1, o2, o3, o4, o5, o6] \<Rightarrow>
          \<lparr>h_timestamp = word_of_nat (field_at bs o1 8), h_log_id = word_of_nat (field_at bs o2 4),
           h_message_len = word_of_nat (field_at bs o3 4),
           h_message_offset = word_of_nat (field_at bs o4 4),
           h_relative_offset = word_of_nat (field_at bs o5 8),
           h_level = word_of_nat (field_at bs o6 1)\<rparr>)"

lemma header_layout: "layout 0 SharedLogEntryHeader_fields = ([0, 8, 12, 16, 20, 28], 29)"
  by (simp add: SharedLogEntryHeader_fields_def align_up_def)

lemma length_header_bytes [simp]: "length (header_bytes h) = 29"
  by (simp add: header_bytes_def)

lemma read_header_bytes_header_bytes: "read_header_bytes (header_bytes h @ rest) = h"
proof -
  have v: "le_value (le_bytes 8 (unat (x :: u64))) = unat x"
    "le_value (le_bytes 4 (unat (y :: u32))) = unat y"
    "le_value (le_bytes (Suc 0) (unat (z :: u8))) = unat z" for x y z
    using unat_lt2p [of x] unat_lt2p [of y] unat_lt2p [of z]
    by (simp_all add: le_value_le_bytes)
  show ?thesis
    by (simp add: read_header_bytes_def header_layout field_at_def header_bytes_def v)
qed

end
