(* ===== verification/Telemetry_Model.thy ===== *)
theory Telemetry_Model
  imports Log_Types
begin

text \<open>
  \<open>engine/Telemetry\<close> and \<open>engine/Network/time\<close>: the pushed and eliminated counters, the
  velocity report, and the cached clock the timestamp check reads.
\<close>

section \<open>The telemetry counters\<close>

record Telemetry =
  pushed_logs :: u64
  eliminated_logs :: u64
  last_pushed :: u64
  last_popped :: u64

definition Telemetry_init :: Telemetry where
  "Telemetry_init =
     \<lparr>pushed_logs = 0, eliminated_logs = 0, last_pushed = 0, last_popped = 0\<rparr>"

definition RegisterPushed :: "Telemetry \<Rightarrow> Telemetry" where
  "RegisterPushed t = t\<lparr>pushed_logs := pushed_logs t + 1\<rparr>"

definition RegisterEliminated :: "Telemetry \<Rightarrow> Telemetry" where
  "RegisterEliminated t = t\<lparr>eliminated_logs := eliminated_logs t + 1\<rparr>"

text \<open>
  What the telemetry thread prints: the two totals, and the two deltas whose halves are the
  per-second velocities (the thread sleeps two seconds between reports).
\<close>

datatype report = Totals u64 u64 | Velocity u64 u64

definition GetVelocity :: "u64 \<Rightarrow> u64 \<Rightarrow> Telemetry \<Rightarrow> report \<times> Telemetry" where
  "GetVelocity pushed popped t =
     (let delta_push = pushed - last_pushed t; delta_popped = popped - last_popped t
      in (Velocity delta_push delta_popped, t\<lparr>last_pushed := pushed, last_popped := popped\<rparr>))"

definition update_telemetry :: "Telemetry \<Rightarrow> report list \<times> Telemetry" where
  "update_telemetry t =
     (let pushed = pushed_logs t; eliminated = eliminated_logs t;
          (v, t') = GetVelocity pushed eliminated t
      in ([Totals pushed eliminated, v], t'))"

lemma Register_frame [simp, vx_frame]:
  "eliminated_logs (RegisterPushed t) = eliminated_logs t"
  "pushed_logs (RegisterPushed t) = pushed_logs t + 1"
  "last_pushed (RegisterPushed t) = last_pushed t"
  "last_popped (RegisterPushed t) = last_popped t"
  "pushed_logs (RegisterEliminated t) = pushed_logs t"
  "eliminated_logs (RegisterEliminated t) = eliminated_logs t + 1"
  "last_pushed (RegisterEliminated t) = last_pushed t"
  "last_popped (RegisterEliminated t) = last_popped t"
  by (simp_all add: RegisterPushed_def RegisterEliminated_def)

text \<open>
  A run of the counters: registrations by the queues, interleaved with reports by the
  telemetry thread.
\<close>

datatype tel_op = Op_push | Op_pop | Op_report

fun tel_step :: "tel_op \<Rightarrow> Telemetry \<Rightarrow> report list \<times> Telemetry" where
  "tel_step Op_push t = ([], RegisterPushed t)"
| "tel_step Op_pop t = ([], RegisterEliminated t)"
| "tel_step Op_report t = update_telemetry t"

fun tel_run :: "tel_op list \<Rightarrow> Telemetry \<Rightarrow> report list \<times> Telemetry" where
  "tel_run [] t = ([], t)"
| "tel_run (x # xs) t =
     (let (r, t1) = tel_step x t; (rs, t2) = tel_run xs t1 in (r @ rs, t2))"

fun push_delta :: "report \<Rightarrow> u64" where
  "push_delta (Totals a b) = 0"
| "push_delta (Velocity a b) = a"

fun pop_delta :: "report \<Rightarrow> u64" where
  "pop_delta (Totals a b) = 0"
| "pop_delta (Velocity a b) = b"

lemma update_telemetry_simps [vx_simps]:
  "update_telemetry t =
     ([Totals (pushed_logs t) (eliminated_logs t),
       Velocity (pushed_logs t - last_pushed t) (eliminated_logs t - last_popped t)],
      t\<lparr>last_pushed := pushed_logs t, last_popped := eliminated_logs t\<rparr>)"
  by (simp add: update_telemetry_def GetVelocity_def Let_def)

lemma tel_run_deltas:
  "tel_run xs t = (rs, t') \<Longrightarrow>
     sum_list (map push_delta rs) = last_pushed t' - last_pushed t \<and>
     sum_list (map pop_delta rs) = last_popped t' - last_popped t"
proof (induction xs arbitrary: t rs)
  case Nil
  then show ?case by simp
next
  case (Cons x xs)
  obtain r1 t1 where s: "tel_step x t = (r1, t1)" by fastforce
  obtain rs2 where r: "tel_run xs t1 = (rs2, t')" and rs: "rs = r1 @ rs2"
    using Cons.prems by (auto simp: s split: prod.splits)
  have "sum_list (map push_delta r1) = last_pushed t1 - last_pushed t \<and>
        sum_list (map pop_delta r1) = last_popped t1 - last_popped t"
    using s by (cases x) (auto simp: vx_simps)
  with Cons.IH [OF r] show ?case by (simp add: rs)
qed

lemma tel_run_counts:
  "tel_run xs t = (rs, t') \<Longrightarrow>
     pushed_logs t' = pushed_logs t + word_of_nat (count_list xs Op_push) \<and>
     eliminated_logs t' = eliminated_logs t + word_of_nat (count_list xs Op_pop)"
proof (induction xs arbitrary: t rs)
  case Nil
  then show ?case by simp
next
  case (Cons x xs)
  obtain r1 t1 where s: "tel_step x t = (r1, t1)" by fastforce
  obtain rs2 where r: "tel_run xs t1 = (rs2, t')"
    using Cons.prems by (auto simp: s split: prod.splits)
  from Cons.IH [OF r] s show ?case by (cases x) (auto simp: vx_simps)
qed

section \<open>The cached clock\<close>

text \<open>
  \<open>Time::unix_time\<close> is one atomic word. \<open>update_time\<close> stores the system clock's seconds,
  a signed count (\<open>int\<close>) converted to \<open>uint64_t\<close>.
\<close>

record Time =
  unix_time :: u64

definition Time_init :: Time where
  "Time_init = \<lparr>unix_time = 0\<rparr>"

definition update_time :: "int \<Rightarrow> Time \<Rightarrow> Time" where
  "update_time seconds t = t\<lparr>unix_time := word_of_int seconds\<rparr>"

definition GetTime :: "Time \<Rightarrow> u64" where
  "GetTime t = unix_time t"

lemma GetTime_update_time:
  "0 \<le> s \<Longrightarrow> s < 2 ^ 64 \<Longrightarrow> unat (GetTime (update_time s t)) = nat s"
  by (simp add: GetTime_def update_time_def unat_eq_nat_uint uint_word_of_int)

end
