(* ===== verification/Slab_Pool.thy ===== *)
theory Slab_Pool
  imports Log_Types
begin

text \<open>
  \<open>Network::SlabPool\<close> (\<open>engine/Network/include/LogServer.h\<close>): the shared memory channel
  divided into slabs, and the cursor that hands out the place of the next message. The
  mapped region is modelled as its control block and its data bytes; a pointer into the
  data region is its offset. The two Windows calls are parameters: the handle that
  \<open>CreateFileMappingW\<close> returns and the address \<open>MapViewOfFile\<close> returns (0 on failure),
  and every call the code makes is recorded.
\<close>

section \<open>State\<close>

record SharedMemory =
  control :: SharedMemoryControl
  cells :: "nat \<Rightarrow> u8"

datatype wincall =
    CreateFileMappingW u32 u32 string
  | MapViewOfFile u64 size_t
  | UnmapViewOfFile
  | CloseHandle u64

record SlabPool =
  write_index :: size_t
  current_offset :: size_t
  slab_size :: size_t
  max_slabs :: size_t
  hMapFile :: u64
  shared_memory_base_ptr :: "SharedMemory option"

definition INVALID_HANDLE_VALUE :: u64 where
  "INVALID_HANDLE_VALUE = - 1"

definition SlabPool_ctor :: "size_t \<Rightarrow> size_t \<Rightarrow> SlabPool" where
  "SlabPool_ctor max0 size0 =
     \<lparr>write_index = 0, current_offset = 0, slab_size = size0 * 1024 * 1024, max_slabs = max0,
      hMapFile = 0, shared_memory_base_ptr = None\<rparr>"

text \<open>The move constructor: the new pool, and the one moved from.\<close>

definition SlabPool_move :: "SlabPool \<Rightarrow> SlabPool \<times> SlabPool" where
  "SlabPool_move other = (other, other\<lparr>hMapFile := 0, shared_memory_base_ptr := None\<rparr>)"

definition SlabPool_dtor :: "SlabPool \<Rightarrow> wincall list \<times> SlabPool" where
  "SlabPool_dtor p =
     (let (c1, p1) =
            (if shared_memory_base_ptr p \<noteq> None
             then ([UnmapViewOfFile], p\<lparr>shared_memory_base_ptr := None\<rparr>) else ([], p));
          (c2, p2) =
            (if hMapFile p1 \<noteq> 0 then ([CloseHandle (hMapFile p1)], p1\<lparr>hMapFile := 0\<rparr>)
             else ([], p1))
      in (c1 @ c2, p2))"

section \<open>The cursor\<close>

text \<open>
  \<open>get_next_slab\<close> takes the message's size. The result is \<open>None\<close> for \<open>nullptr\<close>, else
  the offset in the data region and the truncated offset stored through \<open>out_offset\<close>.
\<close>

definition get_next_slab :: "size_t \<Rightarrow> SlabPool \<Rightarrow> (size_t \<times> u32) option \<times> SlabPool" where
  "get_next_slab msize p =
     (let total_needed = word_of_nat sizeof_SharedLogEntryHeader + msize in
      if slab_size p < total_needed then (None, p)
      else
        let p1 = (if slab_size p < current_offset p + total_needed
                  then p\<lparr>write_index := (write_index p + 1) AND (max_slabs p - 1),
                         current_offset := 0\<rparr>
                  else p);
            relative_bytes = write_index p1 * slab_size p1 + current_offset p1
        in (Some (relative_bytes, ucast relative_bytes),
            p1\<lparr>current_offset := current_offset p1 + total_needed\<rparr>))"

section \<open>Initialisation\<close>

definition channel_name :: "u32 \<Rightarrow> string" where
  "channel_name channel_id =
     ''Local'' @ [CHR 0x5C] @ ''Vortex_Channel_'' @
     map (\<lambda>b. char_of (unat b)) (dec_digits (unat channel_id))"

text \<open>The size of the mapping, as the code computes it (it wraps at 64 bits).\<close>

definition total_bytes_of :: "SlabPool \<Rightarrow> size_t" where
  "total_bytes_of p = word_of_nat sizeof_SharedMemoryControl + slab_size p * max_slabs p"

text \<open>
  \<open>mem0\<close> is the mapped memory as the system hands it out (its control block and data),
  \<open>mapped\<close> whether \<open>MapViewOfFile\<close> succeeds.
\<close>

definition InitializeSharedMemory ::
  "u64 \<Rightarrow> bool \<Rightarrow> SharedMemory \<Rightarrow> u32 \<Rightarrow> SlabPool \<Rightarrow> bool \<times> wincall list \<times> SlabPool" where
  "InitializeSharedMemory handle mapped mem0 channel_id p =
     (let total_bytes = total_bytes_of p;
          high_size = ucast (drop_bit 32 total_bytes);
          low_size = ucast (total_bytes AND 0xFFFFFFFF);
          create = CreateFileMappingW high_size low_size (channel_name channel_id);
          p1 = p\<lparr>hMapFile := handle\<rparr>
      in if handle = 0 \<or> handle = INVALID_HANDLE_VALUE then (False, [create], p1)
      else if \<not> mapped
        then (False, [create, MapViewOfFile handle total_bytes, CloseHandle handle],
              p1\<lparr>shared_memory_base_ptr := None, hMapFile := 0\<rparr>)
      else
        (True, [create, MapViewOfFile handle total_bytes],
         p1\<lparr>shared_memory_base_ptr := Some (mem0\<lparr>control :=
              (control mem0)\<lparr>magic_number := 0x564F5254,
                 ctl_slab_size := ucast (slab_size p), ctl_max_slabs := ucast (max_slabs p),
                 header_size := word_of_nat sizeof_SharedMemoryControl,
                 write_offset := 0, read_offset := 0\<rparr>\<rparr>)\<rparr>))"

section \<open>Writing an entry\<close>

text \<open>Bytes at an offset of the data region.\<close>

definition store_bytes :: "nat \<Rightarrow> bytes \<Rightarrow> (nat \<Rightarrow> u8) \<Rightarrow> (nat \<Rightarrow> u8)" where
  "store_bytes a bs m = (\<lambda>i. if a \<le> i \<and> i < a + length bs then bs ! (i - a) else m i)"

definition load_bytes :: "nat \<Rightarrow> nat \<Rightarrow> (nat \<Rightarrow> u8) \<Rightarrow> bytes" where
  "load_bytes a n m = map m [a..<a + n]"

lemma length_load_bytes [simp]: "length (load_bytes a n m) = n"
  by (simp add: load_bytes_def)

lemma load_store_same: "load_bytes a (length bs) (store_bytes a bs m) = bs"
  by (rule nth_equalityI) (simp_all add: load_bytes_def store_bytes_def)

lemma load_store_disjoint:
  "a + n \<le> b \<or> b + length bs \<le> a \<Longrightarrow> load_bytes a n (store_bytes b bs m) = load_bytes a n m"
  by (rule nth_equalityI) (auto simp: load_bytes_def store_bytes_def)

lemma load_bytes_split: "load_bytes a (j + k) m = load_bytes a j m @ load_bytes (a + j) k m"
proof -
  have "[a..<a + (j + k)] = [a..<a + j] @ [a + j..<a + j + k]"
    by (metis add.assoc le_add1 upt_add_eq_append)
  then show ?thesis by (simp add: load_bytes_def)
qed

text \<open>
  The header and the message are written behind the returned pointer. A write through a
  null base, or past the mapped data region, is undefined.
\<close>

definition write_entry ::
  "size_t \<Rightarrow> SharedLogEntryHeader \<Rightarrow> bytes \<Rightarrow> SlabPool \<Rightarrow> SlabPool outcome" where
  "write_entry destination h msg p =
     (case shared_memory_base_ptr p of None \<Rightarrow> Undef
      | Some mem \<Rightarrow>
          if unat (total_bytes_of p)
               < sizeof_SharedMemoryControl + unat destination
                 + sizeof_SharedLogEntryHeader + length msg then Undef
          else Done (p\<lparr>shared_memory_base_ptr := Some (mem\<lparr>cells :=
                 store_bytes (unat destination + sizeof_SharedLogEntryHeader) msg
                   (store_bytes (unat destination) (header_bytes h) (cells mem))\<rparr>)\<rparr>))"

section \<open>The pool's invariant\<close>

text \<open>
  At least one slab, the cursor inside the channel, and a channel size that does not wrap.
\<close>

definition channel_size :: "SlabPool \<Rightarrow> nat" where
  "channel_size p = unat (slab_size p) * unat (max_slabs p)"

definition slab_wf :: "SlabPool \<Rightarrow> bool" where
  "slab_wf p \<longleftrightarrow>
     write_index p < max_slabs p \<and> current_offset p \<le> slab_size p \<and>
     unat (slab_size p) < 2 ^ 63 \<and>
     sizeof_SharedMemoryControl + channel_size p < 2 ^ 64"

lemma and_pred_less: "(m :: size_t) \<noteq> 0 \<Longrightarrow> x AND (m - 1) < m"
proof -
  assume "m \<noteq> 0"
  have "x AND (m - 1) \<le> m - 1" by (rule word_and_le1)
  also have "m - 1 < m" using \<open>m \<noteq> 0\<close> by (metis measure_unat word_less_nat_alt)
  finally show ?thesis .
qed

lemma slab_wf_ctor:
  assumes "m \<noteq> 0" and "unat (sz * 1024 * 1024) < 2 ^ 63"
    and "192 + unat (sz * 1024 * 1024) * unat m < 2 ^ 64"
  shows "slab_wf (SlabPool_ctor m sz)"
  using assms by (simp add: slab_wf_def SlabPool_ctor_def channel_size_def word_gt_0)

text \<open>The position of a block, as numbers: slab number times slab size plus offset.\<close>

lemma position_bound:
  assumes "w < M" and "o1 + n \<le> S"
  shows "w * S + o1 + n \<le> S * (M :: nat)"
proof -
  have "w * S + o1 + n \<le> w * S + S" using assms(2) by simp
  also have "\<dots> = S * Suc w" by simp
  also have "\<dots> \<le> S * M" using assms(1) by (intro mult_le_mono2) simp
  finally show ?thesis .
qed

lemma unat_position:
  assumes "unat w < unat M" and "unat o1 \<le> unat S" and "unat S * unat M < 2 ^ 64"
  shows "unat (w * S + o1 :: size_t) = unat w * unat S + unat o1"
proof -
  have le: "unat w * unat S + unat o1 \<le> unat S * unat M"
    using position_bound [of "unat w" "unat M" "unat o1" 0 "unat S"] assms by simp
  then have "unat (w * S) = unat w * unat S"
    using assms(3) by (simp add: unat_word_ariths)
  with le assms(3) show ?thesis
    by (simp add: unat_word_ariths)
qed

text \<open>
  \<open>block_need n\<close> is the room a message of \<open>n\<close> bytes takes; \<open>next_place\<close> is the cursor
  after the slab switch \<open>get_next_slab\<close> makes when the room left is too small.
\<close>

definition block_need :: "nat \<Rightarrow> nat" where
  "block_need n = sizeof_SharedLogEntryHeader + n"

definition switches :: "nat \<Rightarrow> SlabPool \<Rightarrow> bool" where
  "switches n p \<longleftrightarrow> unat (slab_size p) < unat (current_offset p) + block_need n"

definition next_slab :: "nat \<Rightarrow> SlabPool \<Rightarrow> size_t" where
  "next_slab n p =
     (if switches n p then (write_index p + 1) AND (max_slabs p - 1) else write_index p)"

definition next_offset :: "nat \<Rightarrow> SlabPool \<Rightarrow> size_t" where
  "next_offset n p = (if switches n p then 0 else current_offset p)"

lemma get_next_slab_frame:
  assumes "get_next_slab n p = (r, p')"
  shows "slab_size p' = slab_size p" and "max_slabs p' = max_slabs p"
    and "hMapFile p' = hMapFile p"
    and "shared_memory_base_ptr p' = shared_memory_base_ptr p"
  using assms by (auto simp: get_next_slab_def Let_def split: if_splits)

lemma next_slab_less: "slab_wf p \<Longrightarrow> next_slab n p < max_slabs p"
proof -
  assume "slab_wf p"
  then have "write_index p < max_slabs p" by (simp add: slab_wf_def)
  moreover from this have "max_slabs p \<noteq> 0" by auto
  ultimately show ?thesis by (simp add: next_slab_def and_pred_less)
qed

lemma next_offset_fits:
  "block_need n \<le> unat (slab_size p) \<Longrightarrow>
   unat (next_offset n p) + block_need n \<le> unat (slab_size p)"
  by (simp add: next_offset_def switches_def)

text \<open>The whole operation on a message that fits a slab.\<close>

lemma get_next_slab_fits:
  assumes wf: "slab_wf p" and fits: "block_need n \<le> unat (slab_size p)"
    and n: "msize = word_of_nat n"
  defines "pos \<equiv> next_slab n p * slab_size p + next_offset n p"
  shows "get_next_slab msize p =
     (Some (pos, ucast pos),
      p\<lparr>write_index := next_slab n p,
        current_offset := next_offset n p + word_of_nat (block_need n)\<rparr>)"
proof -
  have S: "unat (slab_size p) < 2 ^ 64" using unat_lt2p [of "slab_size p"] by simp
  have need: "29 + msize = word_of_nat (block_need n)"
    by (simp add: n block_need_def)
  have un: "unat (word_of_nat (block_need n) :: size_t) = block_need n"
    using fits S by (intro unat_word_of_nat_small) simp
  have c1: "\<not> slab_size p < word_of_nat (block_need n)"
    using fits un by (simp add: word_less_nat_alt)
  have S2: "unat (slab_size p) < 2 ^ 63" and o1: "unat (current_offset p) \<le> unat (slab_size p)"
    using wf by (simp_all add: slab_wf_def word_le_nat_alt)
  have "unat (current_offset p + word_of_nat (block_need n)) =
      unat (current_offset p) + block_need n"
    using S2 o1 fits un by (subst unat_add_small) simp_all
  then have c2: "slab_size p < current_offset p + word_of_nat (block_need n) \<longleftrightarrow> switches n p"
    by (simp add: word_less_nat_alt switches_def)
  show ?thesis
    by (simp add: get_next_slab_def need c1 c2 Let_def pos_def next_slab_def next_offset_def)
qed

lemma get_next_slab_too_big:
  assumes "unat (slab_size p) < block_need n" and "block_need n < 2 ^ 64"
  shows "get_next_slab (word_of_nat n) p = (None, p)"
proof -
  have "29 + word_of_nat n = (word_of_nat (block_need n) :: size_t)"
    by (simp add: block_need_def)
  moreover have "unat (word_of_nat (block_need n) :: size_t) = block_need n"
    using assms(2) by (intro unat_word_of_nat_small) simp
  ultimately show ?thesis
    using assms(1) by (simp add: get_next_slab_def Let_def word_less_nat_alt)
qed

lemma get_next_slab_wf:
  assumes wf: "slab_wf p" and fits: "block_need n \<le> unat (slab_size p)"
    and get: "get_next_slab (word_of_nat n) p = (r, p')"
  shows "slab_wf p'"
proof -
  have S: "unat (slab_size p) < 2 ^ 63" using wf by (simp add: slab_wf_def)
  have f: "unat (next_offset n p) + block_need n \<le> unat (slab_size p)"
    by (rule next_offset_fits) fact
  have "unat (word_of_nat (block_need n) :: size_t) = block_need n"
    using fits S by (intro unat_word_of_nat_small) simp
  then have "unat (next_offset n p + word_of_nat (block_need n)) =
      unat (next_offset n p) + block_need n"
    using f S by (subst unat_add_small) simp_all
  with f have "next_offset n p + word_of_nat (block_need n) \<le> slab_size p"
    by (simp add: word_le_nat_alt)
  moreover have "p' = p\<lparr>write_index := next_slab n p,
      current_offset := next_offset n p + word_of_nat (block_need n)\<rparr>"
    using get_next_slab_fits [OF wf fits refl] get by simp
  ultimately show ?thesis
    using wf next_slab_less [OF wf, of n] by (simp add: slab_wf_def channel_size_def)
qed

lemma get_next_slab_position:
  assumes wf: "slab_wf p" and fits: "block_need n \<le> unat (slab_size p)"
    and get: "get_next_slab (word_of_nat n) p = (Some (pos, out), p')"
  shows "unat pos = unat (next_slab n p) * unat (slab_size p) + unat (next_offset n p)"
    and "unat pos + block_need n \<le> channel_size p" and "out = ucast pos"
proof -
  have pos: "pos = next_slab n p * slab_size p + next_offset n p" and "out = ucast pos"
    using get_next_slab_fits [OF wf fits refl] get by simp_all
  then show "out = ucast pos" by simp
  have w: "unat (next_slab n p) < unat (max_slabs p)"
    using next_slab_less [OF wf] by (simp add: word_less_nat_alt)
  have f: "unat (next_offset n p) + block_need n \<le> unat (slab_size p)"
    by (rule next_offset_fits) fact
  have C: "unat (slab_size p) * unat (max_slabs p) < 2 ^ 64"
    using wf by (simp add: slab_wf_def channel_size_def)
  show p1: "unat pos = unat (next_slab n p) * unat (slab_size p) + unat (next_offset n p)"
    unfolding pos using w f C by (intro unat_position) simp_all
  show "unat pos + block_need n \<le> channel_size p"
    using position_bound [OF w f] by (simp add: p1 channel_size_def)
qed

text \<open>An allocated block can be written: the base is mapped and the block lies inside.\<close>

lemma unat_total_bytes: "slab_wf p \<Longrightarrow> unat (total_bytes_of p) = 192 + channel_size p"
proof -
  assume "slab_wf p"
  then have C: "192 + unat (slab_size p) * unat (max_slabs p) < 2 ^ 64"
    by (simp add: slab_wf_def channel_size_def)
  then have m: "unat (slab_size p * max_slabs p) = unat (slab_size p) * unat (max_slabs p)"
    by (simp add: unat_word_ariths)
  have "unat (192 + slab_size p * max_slabs p) = unat (192 :: size_t) + unat (slab_size p * max_slabs p)"
    using C m by (intro unat_add_small) simp
  then show ?thesis by (simp add: total_bytes_of_def channel_size_def m)
qed

lemma write_entry_ok:
  assumes "slab_wf p" and "shared_memory_base_ptr p = Some mem"
    and "unat pos + block_need (length msg) \<le> channel_size p"
  shows "write_entry pos h msg p = Done (p\<lparr>shared_memory_base_ptr := Some (mem\<lparr>cells :=
     store_bytes (unat pos + 29) msg (store_bytes (unat pos) (header_bytes h) (cells mem))\<rparr>)\<rparr>)"
  using assms by (simp add: write_entry_def unat_total_bytes block_need_def)

text \<open>
  Reading the block back gives the header and the message, and blocks elsewhere keep their
  content.
\<close>

definition read_entry :: "nat \<Rightarrow> (nat \<Rightarrow> u8) \<Rightarrow> SharedLogEntryHeader \<times> bytes" where
  "read_entry pos m =
     (let h = read_header_bytes (load_bytes pos sizeof_SharedLogEntryHeader m)
      in (h, load_bytes (pos + sizeof_SharedLogEntryHeader) (unat (h_message_len h)) m))"

lemma read_entry_written:
  assumes "unat (h_message_len h) = length msg"
  shows "read_entry pos (store_bytes (pos + 29) msg (store_bytes pos (header_bytes h) m)) = (h, msg)"
proof -
  have "load_bytes pos 29 (store_bytes (pos + 29) msg (store_bytes pos (header_bytes h) m)) =
      load_bytes pos (length (header_bytes h)) (store_bytes pos (header_bytes h) m)"
    by (simp add: load_store_disjoint)
  then have "load_bytes pos 29 (store_bytes (pos + 29) msg (store_bytes pos (header_bytes h) m)) =
      header_bytes h"
    by (simp only: load_store_same)
  then show ?thesis
    using read_header_bytes_header_bytes [of h "[]"] load_store_same [of "pos + 29" msg]
    by (simp add: read_entry_def Let_def assms)
qed

end
