(* ===== verification/Log_Queue.thy ===== *)
theory Log_Queue
  imports Telemetry_Model Slab_Pool
begin

text \<open>
  \<open>Core::LogQueue\<close> (\<open>engine/Core\<close>): the single-producer single-consumer ring between a
  network worker and a consumer thread. This theory models each operation as one step and
  proves it against a bounded list; \<open>Log_Queue_Conc\<close> splits the operations into the
  atomic accesses the two threads interleave.
\<close>

section \<open>State and construction\<close>

text \<open>\<open>head_waiter\<close> is part of the atomic \<open>head\<close>: a thread is blocked in \<open>head.wait\<close>.\<close>

record LogQueue =
  log_array :: "LogEntry list option"
  tail :: size_t
  is_running :: bool
  MaxCapacity :: size_t
  HighWatermark :: size_t
  LowWatermark :: size_t
  CapacityMask :: size_t
  high_watermark_tripped :: bool
  overflow :: OverflowProfile
  head :: size_t
  head_waiter :: bool
  slab_pool :: SlabPool

definition GetMaxRamUsage :: "size_t \<Rightarrow> LogQueue \<Rightarrow> LogQueue" where
  "GetMaxRamUsage usable q = q\<lparr>MaxCapacity := usable * 1024 * 1024\<rparr>"

text \<open>\<open>std::make_unique<LogEntry[]>\<close> value-initialises the entries.\<close>

definition zero_entry :: LogEntry where
  "zero_entry = \<lparr>timestamp = 0, log_id = 0, message_lenght = 0, message_offset = 0,
     relative_offset = 0, level = Debug\<rparr>"

text \<open>
  The constructor. \<open>uninit\<close> is the indeterminate value of the members an early return
  leaves unset; \<open>handle\<close>, \<open>mapped\<close> and \<open>mem0\<close> are the answers of the system calls of
  \<open>InitializeSharedMemory\<close>.
\<close>

definition LogQueue_ctor ::
  "size_t \<Rightarrow> u64 \<Rightarrow> bool \<Rightarrow> SharedMemory \<Rightarrow> MainConfig \<Rightarrow> u32 \<Rightarrow> wincall list \<times> LogQueue" where
  "LogQueue_ctor uninit handle mapped mem0 mainconfig index =
     (let pool = SlabPool_ctor (cfg_max_slabs mainconfig) (slabs_size mainconfig);
          (ok, calls, pool1) = InitializeSharedMemory handle mapped mem0 index pool;
          q0 = \<lparr>log_array = None, tail = 0, is_running = True, MaxCapacity = uninit,
                HighWatermark = 0, LowWatermark = 0, CapacityMask = uninit,
                high_watermark_tripped = False, overflow = profile mainconfig, head = 0,
                head_waiter = False, slab_pool = pool1\<rparr>
      in if \<not> ok then (calls, q0)
      else
        let q1 = GetMaxRamUsage (usable_ram mainconfig) q0;
            raw_slots = MaxCapacity q1 div word_of_nat sizeof_LogEntry
        in if raw_slots < 2 then (calls, q1)
        else
          let optimized_capacity = bit_ceil raw_slots
          in (calls,
              q1\<lparr>CapacityMask := optimized_capacity - 1,
                 log_array := Some (replicate (unat optimized_capacity) zero_entry),
                 HighWatermark := (optimized_capacity * 8) div 10,
                 LowWatermark := (optimized_capacity * 2) div 10\<rparr>))"

section \<open>Operations\<close>

definition set_finished :: "LogQueue \<Rightarrow> LogQueue" where
  "set_finished q = q\<lparr>is_running := False\<rparr>"

text \<open>\<open>head.notify_one\<close>: the blocked thread goes on, if there is one.\<close>

definition notify_head :: "LogQueue \<Rightarrow> LogQueue" where
  "notify_head q = q\<lparr>head_waiter := False\<rparr>"

definition func_is_running :: "LogQueue \<Rightarrow> bool" where
  "func_is_running q = is_running q"

text \<open>
  The second half of \<open>push\<close>, from the second \<open>is_running\<close> test on: store the entry at the
  old head, publish the new head, notify who waits for it, count, and trip the high watermark.
\<close>

definition push_store :: "LogEntry \<Rightarrow> LogQueue \<Rightarrow> Telemetry \<Rightarrow> (LogQueue \<times> Telemetry) outcome" where
  "push_store log_line q t =
     (case log_array q of None \<Rightarrow> Undef
      | Some arr \<Rightarrow>
        if \<not> is_running q then Done (q, t)
        else
          let current_head = head q;
              next_head = (current_head + 1) AND CapacityMask q
          in if length arr \<le> unat current_head then Undef
          else
            let q1 = notify_head (q\<lparr>log_array := Some (arr[unat current_head := log_line]), head := next_head\<rparr>);
                t1 = RegisterPushed t;
                occupied_slots = (next_head - tail q1) AND CapacityMask q1
            in Done (if HighWatermark q1 \<le> occupied_slots
                     then q1\<lparr>high_watermark_tripped := True\<rparr> else q1, t1))"

text \<open>
  \<open>push\<close>. The busy wait \<open>while (current_head == tail)\<close> exits at once unless the head it
  read equals the tail.
\<close>

definition push :: "LogEntry \<Rightarrow> LogQueue \<Rightarrow> Telemetry \<Rightarrow> (LogQueue \<times> Telemetry) outcome" where
  "push log_line q t =
     (if log_array q = None then Done (q, t)
      else if \<not> is_running q then Done (q, t)
      else
        let current_head = head q;
            next_head = (current_head + 1) AND CapacityMask q
        in if next_head = tail q then
             (case overflow q of
                Block \<Rightarrow> if current_head = tail q then Spins else push_store log_line q t
              | DropAll \<Rightarrow> Done (q, t)
              | DropNonCritical \<Rightarrow>
                  if level log_line \<noteq> Critical then Done (q, t)
                  else if current_head = tail q then Spins else push_store log_line q t
              | PassCriticalDropElse \<Rightarrow>
                  if level log_line \<noteq> Critical then Done (q, t) else push_store log_line q t)
           else push_store log_line q t)"

definition pop :: "LogQueue \<Rightarrow> Telemetry \<Rightarrow> (LogEntry option \<times> LogQueue \<times> Telemetry) outcome" where
  "pop q t =
     (if \<not> is_running q then Done (None, q, t)
      else
        let current_tail = tail q
        in if current_tail = head q then Done (None, q, t)
        else
          case log_array q of None \<Rightarrow> Undef
          | Some arr \<Rightarrow>
            if length arr \<le> unat current_tail then Undef
            else
              let q1 = q\<lparr>tail := (current_tail + 1) AND CapacityMask q\<rparr>;
                  t1 = RegisterEliminated t;
                  total_slots = CapacityMask q1 + 1;
                  occupied_slots = (head q1 - current_tail) AND CapacityMask q1;
                  freed_slots = total_slots - occupied_slots
              in Done (Some (arr ! unat current_tail),
                       if freed_slots \<le> LowWatermark q1
                       then q1\<lparr>high_watermark_tripped := False\<rparr> else q1, t1))"

section \<open>The invariant and the abstraction\<close>

text \<open>
  A queue either has no array and has never moved, or its array's length is a power of
  two, at least two, the mask is one less, and both indices lie inside.
\<close>

definition ring_ok :: "nat \<Rightarrow> LogEntry list \<Rightarrow> LogQueue \<Rightarrow> bool" where
  "ring_ok n arr q \<longleftrightarrow>
     1 \<le> n \<and> n < 64 \<and> length arr = 2 ^ n \<and> CapacityMask q = 2 ^ n - 1 \<and>
     unat (head q) < 2 ^ n \<and> unat (tail q) < 2 ^ n"

definition queue_wf :: "LogQueue \<Rightarrow> bool" where
  "queue_wf q \<longleftrightarrow>
     (case log_array q of None \<Rightarrow> head q = tail q | Some arr \<Rightarrow> \<exists>n. ring_ok n arr q)"

definition entries :: "LogQueue \<Rightarrow> LogEntry list" where
  "entries q =
     (case log_array q of None \<Rightarrow> []
      | Some arr \<Rightarrow> ring_list arr (unat (tail q)) (unat (head q)))"

text \<open>One slot always stays free, so the ring holds one entry less than its length.\<close>

definition capacity :: "LogQueue \<Rightarrow> nat" where
  "capacity q = (case log_array q of None \<Rightarrow> 0 | Some arr \<Rightarrow> length arr - 1)"

lemma waiter_frame [simp]:
  "queue_wf (q\<lparr>head_waiter := b\<rparr>) = queue_wf q" "entries (q\<lparr>head_waiter := b\<rparr>) = entries q"
  "capacity (q\<lparr>head_waiter := b\<rparr>) = capacity q"
  by (simp_all add: queue_wf_def ring_ok_def entries_def capacity_def split: option.split)

lemma notify_head_simps [simp]:
  "log_array (notify_head q) = log_array q" "head (notify_head q) = head q" "tail (notify_head q) = tail q"
  "is_running (notify_head q) = is_running q" "overflow (notify_head q) = overflow q"
  "slab_pool (notify_head q) = slab_pool q" "CapacityMask (notify_head q) = CapacityMask q"
  "LowWatermark (notify_head q) = LowWatermark q" "HighWatermark (notify_head q) = HighWatermark q"
  "high_watermark_tripped (notify_head q) = high_watermark_tripped q" "\<not> head_waiter (notify_head q)"
  "queue_wf (notify_head q) = queue_wf q" "entries (notify_head q) = entries q"
  "capacity (notify_head q) = capacity q"
  by (simp_all add: notify_head_def)

lemma queue_wfE:
  assumes "queue_wf q" and "log_array q \<noteq> None"
  obtains arr n where "log_array q = Some arr" and "ring_ok n arr q"
  using assms by (auto simp: queue_wf_def)

lemma next_head_nat:
  assumes "ring_ok n arr q"
  shows "unat ((head q + 1) AND CapacityMask q) = Suc (unat (head q)) mod length arr"
  using assms unat_succ_mask [of n "head q"] by (simp add: ring_ok_def)

lemma next_tail_nat:
  assumes "ring_ok n arr q"
  shows "unat ((tail q + 1) AND CapacityMask q) = Suc (unat (tail q)) mod length arr"
  using assms unat_succ_mask [of n "tail q"] by (simp add: ring_ok_def)

text \<open>The difference of the indices, as \<open>push\<close> and \<open>pop\<close> compute it, is the number of entries.\<close>

lemma occupied_slots:
  assumes ok: "ring_ok n arr q" and a: "log_array q = Some arr"
  shows "unat ((head q - tail q) AND CapacityMask q) = length (entries q)"
  using unat_diff_mask [of n "head q" "tail q"] ok by (simp add: ring_ok_def entries_def a ring_count_def)

lemma ring_full_iff:
  assumes ok: "ring_ok n arr q" and a: "log_array q = Some arr"
  shows "(head q + 1) AND CapacityMask q = tail q \<longleftrightarrow> length (entries q) = capacity q"
proof -
  let ?h = "unat (head q)" and ?t = "unat (tail q)"
  have b: "?h < length arr" "?t < length arr" and "2 \<le> length arr"
    using ok power_increasing [of 1 n "2 :: nat"] by (auto simp: ring_ok_def)
  have "(head q + 1) AND CapacityMask q = tail q \<longleftrightarrow> Suc ?h mod length arr = ?t"
    by (metis next_head_nat [OF ok] word_unat_eq_iff)
  also have "\<dots> \<longleftrightarrow> ring_count (length arr) ?t ?h = length arr - 1"
    using b \<open>2 \<le> length arr\<close> by (auto simp: ring_count_cases Suc_mod_cases)
  finally show ?thesis by (simp add: entries_def capacity_def a)
qed

lemma head_neq_tail_when_full:
  assumes ok: "ring_ok n arr q" and full: "(head q + 1) AND CapacityMask q = tail q"
  shows "head q \<noteq> tail q"
proof
  assume eq: "head q = tail q"
  have "2 \<le> length arr" "unat (head q) < length arr"
    using ok power_increasing [of 1 n "2 :: nat"] by (auto simp: ring_ok_def)
  moreover have "Suc (unat (head q)) mod length arr = unat (head q)"
    using next_head_nat [OF ok] full eq by simp
  ultimately show False by (auto simp: Suc_mod_cases split: if_splits)
qed

text \<open>\<open>push_store\<close> keeps the shape; the content is the old one with the entry appended, or
  nothing when the new head meets the tail.\<close>

lemma push_store_ring:
  assumes ok: "ring_ok n arr q" and a: "log_array q = Some arr" and run: "is_running q"
    and st: "push_store e q t = Done (q', t')"
  shows "ring_ok n (arr[unat (head q) := e]) q'"
    and "log_array q' = Some (arr[unat (head q) := e])"
    and "tail q' = tail q" and "head q' = (head q + 1) AND CapacityMask q"
    and "t' = RegisterPushed t"
    and "is_running q' = is_running q" and "overflow q' = overflow q"
    and "slab_pool q' = slab_pool q" and "CapacityMask q' = CapacityMask q"
    and "LowWatermark q' = LowWatermark q" and "HighWatermark q' = HighWatermark q" and "\<not> head_waiter q'"
proof -
  have n: "0 < length arr" and h: "unat (head q) < length arr"
    using ok by (simp_all add: ring_ok_def)
  have "Suc (unat (head q)) mod length arr < length arr" using n by simp
  then have nh: "unat ((head q + 1) AND CapacityMask q) < 2 ^ n"
    using next_head_nat [OF ok] ok by (simp add: ring_ok_def)
  note d = st [unfolded push_store_def, simplified a run, simplified, unfolded Let_def]
  show "ring_ok n (arr[unat (head q) := e]) q'"
    and "log_array q' = Some (arr[unat (head q) := e])"
    and "tail q' = tail q" and "head q' = (head q + 1) AND CapacityMask q"
    and "t' = RegisterPushed t"
    and "is_running q' = is_running q" and "overflow q' = overflow q"
    and "slab_pool q' = slab_pool q" and "CapacityMask q' = CapacityMask q"
    and "LowWatermark q' = LowWatermark q" and "HighWatermark q' = HighWatermark q" and "\<not> head_waiter q'"
    using d ok nh h by (auto simp: ring_ok_def run split: if_splits)
qed

lemma push_store_Done:
  assumes "ring_ok n arr q" and "log_array q = Some arr"
  shows "\<exists>q' t'. push_store e q t = Done (q', t')"
  using assms by (auto simp: push_store_def ring_ok_def Let_def)

lemma entries_push_store:
  assumes ok: "ring_ok n arr q" and a: "log_array q = Some arr" and run: "is_running q"
    and st: "push_store e q t = Done (q', t')"
  shows "entries q' =
     (if (head q + 1) AND CapacityMask q = tail q then [] else entries q @ [e])"
proof -
  note ps = push_store_ring [OF assms]
  let ?h = "unat (head q)" and ?t = "unat (tail q)"
  have b: "?h < length arr" "?t < length arr" using ok by (simp_all add: ring_ok_def)
  have h': "unat (head q') = Suc ?h mod length arr"
    by (simp add: ps(4) next_head_nat [OF ok])
  have e': "entries q' = ring_list (arr[?h := e]) ?t (Suc ?h mod length arr)"
    by (simp add: entries_def ps(2,3) h')
  have full: "(head q + 1) AND CapacityMask q = tail q \<longleftrightarrow> Suc ?h mod length arr = ?t"
    by (metis next_head_nat [OF ok] word_unat_eq_iff)
  have e0: "entries q = ring_list arr ?t ?h" by (simp add: entries_def a)
  show ?thesis
    unfolding e' full e0
    using b ring_list_push [of ?t arr ?h e] ring_list_overrun [of ?t arr ?h e] by simp
qed

lemma push_store_watermark:
  assumes ok: "ring_ok n arr q" and a: "log_array q = Some arr" and run: "is_running q"
    and st: "push_store e q t = Done (q', t')"
  shows "high_watermark_tripped q' \<longleftrightarrow> high_watermark_tripped q \<or> unat (HighWatermark q) \<le> length (entries q')"
proof -
  note ps = push_store_ring [OF assms]
  have "high_watermark_tripped q' \<longleftrightarrow>
      high_watermark_tripped q \<or> HighWatermark q \<le> (head q' - tail q') AND CapacityMask q'"
    using st ps(3,4,9) by (auto simp: push_store_def a run Let_def split: if_splits)
  then show ?thesis using occupied_slots [OF ps(1,2)] by (simp add: word_le_nat_alt)
qed

text \<open>Whether a push on a full ring goes through.\<close>

fun passes_when_full :: "OverflowProfile \<Rightarrow> LogLevel \<Rightarrow> bool" where
  "passes_when_full Block l \<longleftrightarrow> True"
| "passes_when_full DropAll l \<longleftrightarrow> False"
| "passes_when_full DropNonCritical l \<longleftrightarrow> l = Critical"
| "passes_when_full PassCriticalDropElse l \<longleftrightarrow> l = Critical"

definition full :: "LogQueue \<Rightarrow> bool" where
  "full q \<longleftrightarrow> length (entries q) = capacity q"

lemma push_stopped: "\<not> is_running q \<Longrightarrow> push e q t = Done (q, t)"
  by (simp add: push_def)

lemma push_no_array: "log_array q = None \<Longrightarrow> push e q t = Done (q, t)"
  by (simp add: push_def)

lemma push_cases:
  assumes wf: "queue_wf q" and a: "log_array q \<noteq> None" and run: "is_running q"
  shows "push e q t =
     (if full q \<and> \<not> passes_when_full (overflow q) (level e) then Done (q, t)
      else push_store e q t)"
proof -
  obtain arr n where arr: "log_array q = Some arr" and ok: "ring_ok n arr q"
    using queue_wfE [OF wf a] .
  show ?thesis
    using ring_full_iff [OF ok arr] head_neq_tail_when_full [OF ok]
    by (cases "overflow q") (auto simp: push_def arr run full_def Let_def)
qed

text \<open>\<open>push\<close> always returns, and keeps the invariant.\<close>

lemma push_returns:
  assumes "queue_wf q"
  shows "\<exists>q' t'. push e q t = Done (q', t') \<and> queue_wf q'"
proof (cases "log_array q = None \<or> \<not> is_running q")
  case True
  with assms show ?thesis by (auto simp: push_stopped push_no_array)
next
  case False
  then have a: "log_array q \<noteq> None" and run: "is_running q" by simp_all
  obtain arr n where arr: "log_array q = Some arr" and ok: "ring_ok n arr q"
    using queue_wfE [OF assms a] .
  obtain q' t' where st: "push_store e q t = Done (q', t')"
    using push_store_Done [OF ok arr] by blast
  have "queue_wf q'"
    using push_store_ring(1,2) [OF ok arr run st] by (auto simp: queue_wf_def)
  with assms st show ?thesis by (auto simp: push_cases [OF assms a run])
qed

lemma push_frame:
  assumes wf: "queue_wf q" and p: "push e q t = Done (q', t')"
  shows "tail q' = tail q" and "is_running q' = is_running q" and "overflow q' = overflow q"
    and "slab_pool q' = slab_pool q" and "capacity q' = capacity q"
    and "log_array q' = None \<longleftrightarrow> log_array q = None"
proof -
  have "tail q' = tail q \<and> is_running q' = is_running q \<and> overflow q' = overflow q \<and>
    slab_pool q' = slab_pool q \<and> capacity q' = capacity q \<and>
    (log_array q' = None \<longleftrightarrow> log_array q = None)"
  proof (cases "log_array q = None \<or> \<not> is_running q")
    case True
    with p show ?thesis by (auto simp: push_stopped push_no_array)
  next
    case False
    then have a: "log_array q \<noteq> None" and run: "is_running q" by simp_all
    obtain arr n where arr: "log_array q = Some arr" and ok: "ring_ok n arr q"
      using queue_wfE [OF wf a] .
    show ?thesis
    proof (cases "full q \<and> \<not> passes_when_full (overflow q) (level e)")
      case True
      with p show ?thesis by (simp add: push_cases [OF wf a run])
    next
      case False
      with p have st: "push_store e q t = Done (q', t')"
        unfolding push_cases [OF wf a run] by simp
      from push_store_ring [OF ok arr run st] show ?thesis
        by (simp add: capacity_def arr)
    qed
  qed
  then show "tail q' = tail q" and "is_running q' = is_running q" and "overflow q' = overflow q"
    and "slab_pool q' = slab_pool q" and "capacity q' = capacity q"
    and "log_array q' = None \<longleftrightarrow> log_array q = None" by simp_all
qed

text \<open>Who waits for the head still waits only when nothing was pushed.\<close>

lemma push_waiter: "push e q t = Done (q', t') \<Longrightarrow> head_waiter q' \<Longrightarrow> q' = q"
  by (auto simp: push_def push_store_def Let_def split: option.splits if_splits OverflowProfile.splits)

lemma entries_push:
  assumes wf: "queue_wf q" and a: "log_array q \<noteq> None" and run: "is_running q"
    and p: "push e q t = Done (q', t')"
  shows "entries q' =
     (if \<not> full q then entries q @ [e]
      else if passes_when_full (overflow q) (level e) then [] else entries q)"
    and "t' = (if full q \<and> \<not> passes_when_full (overflow q) (level e) then t else RegisterPushed t)"
proof -
  obtain arr n where arr: "log_array q = Some arr" and ok: "ring_ok n arr q"
    using queue_wfE [OF wf a] .
  have "entries q' =
     (if \<not> full q then entries q @ [e]
      else if passes_when_full (overflow q) (level e) then [] else entries q) \<and>
    t' = (if full q \<and> \<not> passes_when_full (overflow q) (level e) then t else RegisterPushed t)"
  proof (cases "full q \<and> \<not> passes_when_full (overflow q) (level e)")
    case True
    with p show ?thesis by (simp add: push_cases [OF wf a run])
  next
    case False
    with p have st: "push_store e q t = Done (q', t')"
      unfolding push_cases [OF wf a run] by simp
    show ?thesis
      using entries_push_store [OF ok arr run st] push_store_ring(5) [OF ok arr run st]
        ring_full_iff [OF ok arr] False
      by (auto simp: full_def)
  qed
  then show "entries q' =
     (if \<not> full q then entries q @ [e]
      else if passes_when_full (overflow q) (level e) then [] else entries q)"
    and "t' = (if full q \<and> \<not> passes_when_full (overflow q) (level e) then t else RegisterPushed t)"
    by simp_all
qed

section \<open>Popping\<close>

lemma pop_stopped: "\<not> is_running q \<Longrightarrow> pop q t = Done (None, q, t)"
  by (simp add: pop_def)

lemma pop_empty_queue: "head q = tail q \<Longrightarrow> pop q t = Done (None, q, t)"
  by (simp add: pop_def)

lemma entries_empty_iff:
  assumes "queue_wf q"
  shows "entries q = [] \<longleftrightarrow> head q = tail q"
proof (cases "log_array q")
  case None
  with assms show ?thesis by (simp add: queue_wf_def entries_def)
next
  case (Some arr)
  with assms obtain n where "ring_ok n arr q" by (auto simp: queue_wf_def)
  then have "entries q = [] \<longleftrightarrow> unat (tail q) = unat (head q)"
    by (simp add: entries_def Some ring_ok_def ring_list_empty_iff)
  then show ?thesis by (metis word_unat_eq_iff)
qed

lemma pop_spec:
  assumes wf: "queue_wf q" and run: "is_running q" and ne: "entries q \<noteq> []"
  obtains q' where "pop q t = Done (Some (hd (entries q)), q', RegisterEliminated t)"
    and "entries q' = tl (entries q)" and "queue_wf q'"
    and "head q' = head q" and "is_running q'" and "overflow q' = overflow q"
    and "slab_pool q' = slab_pool q" and "capacity q' = capacity q"
    and "log_array q' = log_array q"
    and "high_watermark_tripped q' \<longleftrightarrow> high_watermark_tripped q \<and>
           unat (LowWatermark q) < capacity q + 1 - length (entries q)"
proof -
  have ht: "head q \<noteq> tail q" using ne entries_empty_iff [OF wf] by simp
  obtain arr where a: "log_array q = Some arr"
    using ne by (auto simp: entries_def split: option.splits)
  obtain n where ok: "ring_ok n arr q" using wf a by (auto simp: queue_wf_def)
  let ?h = "unat (head q)" and ?t = "unat (tail q)"
  have n: "1 \<le> n" "n < 64" and len: "length arr = 2 ^ n" and m: "CapacityMask q = 2 ^ n - 1"
    and b: "?h < length arr" "?t < length arr"
    using ok by (simp_all add: ring_ok_def)
  have neq: "?t \<noteq> ?h" using ht by (metis word_unat_eq_iff)
  define freed where "freed = CapacityMask q + 1 - ((head q - tail q) AND CapacityMask q)"
  define q' where "q' = (let q1 = q\<lparr>tail := (tail q + 1) AND CapacityMask q\<rparr> in
     if freed \<le> LowWatermark q then q1\<lparr>high_watermark_tripped := False\<rparr> else q1)"
  have pop: "pop q t = Done (Some (arr ! ?t), q', RegisterEliminated t)"
    using b ht by (simp add: pop_def run a Let_def q'_def freed_def)
  have el: "entries q = arr ! ?t # ring_list arr (Suc ?t mod length arr) ?h"
    unfolding entries_def using a ring_list_pop [OF b(2,1) neq] by simp
  have f': "log_array q' = Some arr" "head q' = head q" "is_running q' = is_running q"
    "overflow q' = overflow q" "slab_pool q' = slab_pool q" "CapacityMask q' = CapacityMask q"
    "tail q' = (tail q + 1) AND CapacityMask q"
    by (simp_all add: q'_def Let_def a)
  have t': "unat (tail q') = Suc ?t mod length arr"
    by (simp add: f' next_tail_nat [OF ok])
  have "0 < length arr" using b(1) by linarith
  then have "Suc ?t mod length arr < length arr" by (rule mod_less_divisor)
  then have ok': "ring_ok n arr q'"
    using ok t' by (simp add: ring_ok_def f')
  have ents': "entries q' = ring_list arr (Suc ?t mod length arr) ?h"
    using f' t' by (simp add: entries_def)
  have "unat ((head q - tail q) AND CapacityMask q) = length (entries q)" by (rule occupied_slots [OF ok a])
  moreover have "length (entries q) < 2 ^ n"
    using b ring_count_less [of "length arr" ?t ?h] len by (simp add: entries_def a)
  moreover have "unat (CapacityMask q + 1) = 2 ^ n"
    using n by (simp add: m unat_exp_word)
  ultimately have "unat freed = capacity q + 1 - length (entries q)"
    using len n by (simp add: freed_def unat_sub_if' capacity_def a)
  then have "high_watermark_tripped q' \<longleftrightarrow> high_watermark_tripped q \<and>
      unat (LowWatermark q) < capacity q + 1 - length (entries q)"
    by (auto simp: q'_def Let_def word_le_nat_alt)
  then show ?thesis
    using that [of q'] pop el ents' f' ok' run a
    by (auto simp: queue_wf_def capacity_def)
qed

lemma pop_returns:
  assumes "queue_wf q"
  shows "\<exists>r q' t'. pop q t = Done (r, q', t') \<and> queue_wf q'"
proof (cases "is_running q \<and> entries q \<noteq> []")
  case True
  then show ?thesis using pop_spec [OF assms, of t] by metis
next
  case False
  with assms show ?thesis
    by (metis entries_empty_iff pop_stopped pop_empty_queue)
qed

end
