(* ===== verification/Queue_Interface.thy ===== *)
theory Queue_Interface
  imports Vortex_Prelude
begin

text \<open>
  The contract between a queue and the two threads that use it, as locales: a bounded FIFO
  that drops what does not fit, and one whose operations are also counted. The facts about
  runs of operations are proved here once; \<open>Log_Queue_Spec\<close> interprets both locales on the
  model of \<open>LogQueue\<close>.
\<close>

datatype 'a qop = Enq 'a | Deq

fun run_queue ::
  "('a \<Rightarrow> 'q \<Rightarrow> 'q) \<Rightarrow> ('q \<Rightarrow> 'a option \<times> 'q) \<Rightarrow> 'a qop list \<Rightarrow> 'q \<Rightarrow> 'a option list \<times> 'q" where
  "run_queue enq deq [] q = ([], q)"
| "run_queue enq deq (Enq x # ops) q = run_queue enq deq ops (enq x q)"
| "run_queue enq deq (Deq # ops) q =
     (let (r, q1) = deq q; (rs, q2) = run_queue enq deq ops q1 in (r # rs, q2))"

text \<open>The same run on a list of at most \<open>c\<close> elements: the outputs, what was accepted, and
  what is left.\<close>

fun run_bounded :: "nat \<Rightarrow> 'a qop list \<Rightarrow> 'a list \<Rightarrow> 'a option list \<times> 'a list \<times> 'a list" where
  "run_bounded c [] xs = ([], [], xs)"
| "run_bounded c (Enq x # ops) xs =
     (if length xs < c
      then let (rs, acc, ys) = run_bounded c ops (xs @ [x]) in (rs, x # acc, ys)
      else run_bounded c ops xs)"
| "run_bounded c (Deq # ops) xs =
     (case xs of [] \<Rightarrow> let (rs, acc, ys) = run_bounded c ops [] in (None # rs, acc, ys)
      | x # xs' \<Rightarrow> let (rs, acc, ys) = run_bounded c ops xs' in (Some x # rs, acc, ys))"

definition delivered :: "'a option list \<Rightarrow> 'a list" where
  "delivered rs = List.map_filter id rs"

lemma delivered_simps [simp]:
  "delivered [] = []" "delivered (None # rs) = delivered rs"
  "delivered (Some x # rs) = x # delivered rs"
  by (simp_all add: delivered_def List.map_filter_def)

text \<open>Nothing is lost, duplicated or reordered among the accepted elements.\<close>

lemma run_bounded_conserves:
  "run_bounded c ops xs = (rs, acc, ys) \<Longrightarrow> xs @ acc = delivered rs @ ys"
proof (induction c ops xs arbitrary: rs acc ys rule: run_bounded.induct)
  case (1 c xs)
  then show ?case by simp
next
  case (2 c x ops xs)
  show ?case
  proof (cases "length xs < c")
    case True
    with 2 show ?thesis by (auto split: prod.splits)
  next
    case False
    with 2 show ?thesis by simp
  qed
next
  case (3 c ops xs)
  then show ?case by (cases xs) (auto split: prod.splits)
qed

lemma run_bounded_le:
  "run_bounded c ops xs = (rs, acc, ys) \<Longrightarrow> length xs \<le> c \<Longrightarrow> length ys \<le> c"
proof (induction c ops xs arbitrary: rs acc ys rule: run_bounded.induct)
  case (1 c xs)
  then show ?case by simp
next
  case (2 c x ops xs)
  then show ?case by (auto split: prod.splits if_splits)
next
  case (3 c ops xs)
  then show ?case by (cases xs) (auto split: prod.splits)
qed

locale bounded_fifo =
  fixes enq :: "'a \<Rightarrow> 'q \<Rightarrow> 'q"
    and deq :: "'q \<Rightarrow> 'a option \<times> 'q"
    and items :: "'q \<Rightarrow> 'a list"
    and inv :: "'q \<Rightarrow> bool"
    and cap :: "'q \<Rightarrow> nat"
  assumes inv_enq: "inv q \<Longrightarrow> inv (enq x q) \<and> cap (enq x q) = cap q"
    and inv_deq: "inv q \<Longrightarrow> inv (snd (deq q)) \<and> cap (snd (deq q)) = cap q"
    and items_enq: "inv q \<Longrightarrow>
      items (enq x q) = (if length (items q) < cap q then items q @ [x] else items q)"
    and deq_nil: "inv q \<Longrightarrow> items q = [] \<Longrightarrow> fst (deq q) = None \<and> items (snd (deq q)) = []"
    and deq_cons: "inv q \<Longrightarrow> items q = x # xs \<Longrightarrow>
      fst (deq q) = Some x \<and> items (snd (deq q)) = xs"
begin

text \<open>Every run of the queue is the run of the bounded list.\<close>

lemma run_refines:
  "inv q \<Longrightarrow> run_queue enq deq ops q = (rs, q') \<Longrightarrow>
   \<exists>acc. run_bounded (cap q) ops (items q) = (rs, acc, items q') \<and> inv q' \<and> cap q' = cap q"
proof (induction ops arbitrary: q rs)
  case Nil
  then show ?case by simp
next
  case (Cons op ops)
  show ?case
  proof (cases op)
    case (Enq x)
    note e = inv_enq [OF Cons.prems(1), of x]
    have "run_queue enq deq ops (enq x q) = (rs, q')" using Cons.prems(2) Enq by simp
    with Cons.IH e obtain acc where
      "run_bounded (cap q) ops (items (enq x q)) = (rs, acc, items q')" "inv q'" "cap q' = cap q"
      by metis
    then show ?thesis
      using items_enq [OF Cons.prems(1), of x] Enq by (cases "length (items q) < cap q") auto
  next
    case Deq
    note d = inv_deq [OF Cons.prems(1)]
    obtain rs1 where r: "run_queue enq deq ops (snd (deq q)) = (rs1, q')" and rs: "rs = fst (deq q) # rs1"
      using Cons.prems(2) Deq by (auto split: prod.splits)
    obtain acc where
      "run_bounded (cap q) ops (items (snd (deq q))) = (rs1, acc, items q')" "inv q'" "cap q' = cap q"
      using Cons.IH [OF _ r] d by metis
    then show ?thesis
      using deq_nil [OF Cons.prems(1)] deq_cons [OF Cons.prems(1)] rs Deq
      by (cases "items q") auto
  qed
qed

lemma run_conserves:
  assumes "inv q" and "run_queue enq deq ops q = (rs, q')"
  obtains acc where "items q @ acc = delivered rs @ items q'"
    and "run_bounded (cap q) ops (items q) = (rs, acc, items q')"
  using run_refines [OF assms] run_bounded_conserves by blast

end

text \<open>A bounded FIFO whose accepted and delivered elements are counted.\<close>

locale counted_fifo = bounded_fifo enq deq items inv cap
  for enq :: "'a \<Rightarrow> 'q \<Rightarrow> 'q" and deq :: "'q \<Rightarrow> 'a option \<times> 'q"
    and items :: "'q \<Rightarrow> 'a list" and inv :: "'q \<Rightarrow> bool" and cap :: "'q \<Rightarrow> nat" +
  fixes ins :: "'q \<Rightarrow> 'w::len word"
    and outs :: "'q \<Rightarrow> 'w::len word"
  assumes ins_enq: "inv q \<Longrightarrow>
      ins (enq x q) = (if length (items q) < cap q then ins q + 1 else ins q)"
    and outs_enq: "inv q \<Longrightarrow> outs (enq x q) = outs q"
    and ins_deq: "inv q \<Longrightarrow> ins (snd (deq q)) = ins q"
    and outs_deq: "inv q \<Longrightarrow>
      outs (snd (deq q)) = (if items q = [] then outs q else outs q + 1)"
begin

definition balanced :: "'q \<Rightarrow> bool" where
  "balanced q \<longleftrightarrow> ins q - outs q = word_of_nat (length (items q))"

lemma balanced_enq: "inv q \<Longrightarrow> balanced q \<Longrightarrow> balanced (enq x q)"
  by (simp add: balanced_def items_enq ins_enq outs_enq algebra_simps)

lemma balanced_deq:
  assumes "inv q" and "balanced q"
  shows "balanced (snd (deq q))"
proof (cases "items q")
  case Nil
  with assms deq_nil [OF assms(1)] show ?thesis
    by (simp add: balanced_def ins_deq outs_deq)
next
  case (Cons x xs)
  with assms deq_cons [OF assms(1) Cons] show ?thesis
    by (simp add: balanced_def ins_deq outs_deq) (simp add: algebra_simps)
qed

lemma balanced_run:
  "inv q \<Longrightarrow> balanced q \<Longrightarrow> run_queue enq deq ops q = (rs, q') \<Longrightarrow> balanced q'"
proof (induction ops arbitrary: q rs)
  case Nil
  then show ?case by simp
next
  case (Cons op ops)
  show ?case
  proof (cases op)
    case (Enq x)
    then show ?thesis
      using Cons.IH [of "enq x q" rs] Cons.prems inv_enq balanced_enq by simp
  next
    case Deq
    then obtain rs1 where "run_queue enq deq ops (snd (deq q)) = (rs1, q')"
      using Cons.prems(3) by (auto split: prod.splits)
    then show ?thesis
      using Cons.IH [of "snd (deq q)" rs1] Cons.prems inv_deq balanced_deq by simp
  qed
qed

end

end
