(* ===== verification/Log_Queue_Spec.thy ===== *)
theory Log_Queue_Spec
  imports Log_Queue Queue_Interface
begin

text \<open>
  The log queue against its contract: with the \<open>DropAll\<close> profile it is the bounded, counted
  FIFO of \<open>Queue_Interface\<close>; the constructor establishes the invariant and its array has
  the size the configuration leads to.
\<close>

section \<open>The queue as a bounded FIFO\<close>

definition enq_queue :: "LogEntry \<Rightarrow> LogQueue \<times> Telemetry \<Rightarrow> LogQueue \<times> Telemetry" where
  "enq_queue e = (\<lambda>(q, t). case push e q t of Done r \<Rightarrow> r | _ \<Rightarrow> (q, t))"

definition deq_queue :: "LogQueue \<times> Telemetry \<Rightarrow> LogEntry option \<times> (LogQueue \<times> Telemetry)" where
  "deq_queue = (\<lambda>(q, t). case pop q t of Done r \<Rightarrow> r | _ \<Rightarrow> (None, q, t))"

definition fifo_ok :: "LogQueue \<times> Telemetry \<Rightarrow> bool" where
  "fifo_ok = (\<lambda>(q, t). queue_wf q \<and> is_running q \<and> log_array q \<noteq> None \<and> overflow q = DropAll)"

lemma entries_le_capacity: "queue_wf q \<Longrightarrow> length (entries q) \<le> capacity q"
proof (cases "log_array q")
  case None
  then show ?thesis by (simp add: entries_def)
next
  case (Some arr)
  assume "queue_wf q"
  then obtain n where "ring_ok n arr q" using Some by (auto simp: queue_wf_def)
  then have "0 < length arr" by (simp add: ring_ok_def)
  from ring_count_less [OF this, of "unat (tail q)" "unat (head q)"] show ?thesis
    by (simp add: entries_def capacity_def Some)
qed

lemma enq_queue_spec:
  assumes "fifo_ok (q, t)"
  obtains q' where "enq_queue e (q, t) =
       (q', if length (entries q) < capacity q then RegisterPushed t else t)"
    and "entries q' = (if length (entries q) < capacity q then entries q @ [e] else entries q)"
    and "fifo_ok (q', t)" and "capacity q' = capacity q"
proof -
  have wf: "queue_wf q" and a: "log_array q \<noteq> None" and run: "is_running q"
    and d: "overflow q = DropAll"
    using assms by (simp_all add: fifo_ok_def)
  obtain q' t' where p: "push e q t = Done (q', t')" and wf': "queue_wf q'"
    using push_returns [OF wf] by blast
  note fr = push_frame [OF wf p] and en = entries_push [OF wf a run p]
  have "full q \<longleftrightarrow> \<not> length (entries q) < capacity q"
    using entries_le_capacity [OF wf] by (simp add: full_def)
  then show ?thesis
    using that [of q'] fr en wf' a run d p by (simp add: fifo_ok_def enq_queue_def)
qed

lemma deq_queue_nil:
  "fifo_ok (q, t) \<Longrightarrow> entries q = [] \<Longrightarrow> deq_queue (q, t) = (None, q, t)"
  by (simp add: deq_queue_def fifo_ok_def entries_empty_iff pop_empty_queue)

lemma deq_queue_cons:
  assumes "fifo_ok (q, t)" and "entries q = x # xs"
  obtains q' where "deq_queue (q, t) = (Some x, q', RegisterEliminated t)"
    and "entries q' = xs" and "fifo_ok (q', t)" and "capacity q' = capacity q"
proof -
  have wf: "queue_wf q" and a: "log_array q \<noteq> None" and run: "is_running q"
    and d: "overflow q = DropAll" and ne: "entries q \<noteq> []"
    using assms by (simp_all add: fifo_ok_def)
  obtain q' where "pop q t = Done (Some (hd (entries q)), q', RegisterEliminated t)"
    "entries q' = tl (entries q)" "queue_wf q'" "is_running q'" "overflow q' = overflow q"
    "capacity q' = capacity q" "log_array q' = log_array q"
    using pop_spec [OF wf run ne, of t] by metis
  then show ?thesis
    using that [of q'] assms(2) a d by (simp add: deq_queue_def fifo_ok_def)
qed

lemma fifo_ok_telemetry: "fifo_ok (q, t) \<longleftrightarrow> fifo_ok (q, t')"
  by (simp add: fifo_ok_def)

lemma enq_queue_props:
  assumes "fifo_ok (q, t)" and "enq_queue e (q, t) = (q', t')"
  shows "entries q' = (if length (entries q) < capacity q then entries q @ [e] else entries q)"
    and "fifo_ok (q', t')" and "capacity q' = capacity q"
    and "pushed_logs t' = (if length (entries q) < capacity q then pushed_logs t + 1 else pushed_logs t)"
    and "eliminated_logs t' = eliminated_logs t"
proof -
  obtain p where "enq_queue e (q, t) =
      (p, if length (entries q) < capacity q then RegisterPushed t else t)"
    and p: "entries p = (if length (entries q) < capacity q then entries q @ [e] else entries q)"
      "fifo_ok (p, t)" "capacity p = capacity q"
    using enq_queue_spec [OF assms(1), of e] .
  with assms(2) have "q' = p" and t': "t' = (if length (entries q) < capacity q then RegisterPushed t else t)"
    by simp_all
  with p show "entries q' = (if length (entries q) < capacity q then entries q @ [e] else entries q)"
    and "capacity q' = capacity q"
    by simp_all
  show "fifo_ok (q', t')"
    using p(2) fifo_ok_telemetry \<open>q' = p\<close> by blast
  show "pushed_logs t' = (if length (entries q) < capacity q then pushed_logs t + 1 else pushed_logs t)"
    and "eliminated_logs t' = eliminated_logs t"
    by (simp_all add: t')
qed

lemma deq_queue_props:
  assumes "fifo_ok (q, t)" and "deq_queue (q, t) = (r, q', t')"
  shows "r = (case entries q of [] \<Rightarrow> None | x # xs \<Rightarrow> Some x)" and "entries q' = tl (entries q)"
    and "fifo_ok (q', t')" and "capacity q' = capacity q" and "pushed_logs t' = pushed_logs t"
    and "eliminated_logs t' = (if entries q = [] then eliminated_logs t else eliminated_logs t + 1)"
proof -
  have "r = (case entries q of [] \<Rightarrow> None | x # xs \<Rightarrow> Some x) \<and> entries q' = tl (entries q) \<and>
    fifo_ok (q', t') \<and> capacity q' = capacity q \<and> pushed_logs t' = pushed_logs t \<and>
    eliminated_logs t' = (if entries q = [] then eliminated_logs t else eliminated_logs t + 1)"
  proof (cases "entries q")
    case Nil
    with assms deq_queue_nil [OF assms(1)] show ?thesis by simp
  next
    case (Cons x xs)
    obtain p where "deq_queue (q, t) = (Some x, p, RegisterEliminated t)"
      and p: "entries p = xs" "fifo_ok (p, t)" "capacity p = capacity q"
      using deq_queue_cons [OF assms(1) Cons] .
    with assms(2) have "r = Some x" "q' = p" "t' = RegisterEliminated t" by simp_all
    moreover have "fifo_ok (q', t')"
      using p(2) fifo_ok_telemetry \<open>q' = p\<close> by blast
    ultimately show ?thesis using p Cons by simp
  qed
  then show "r = (case entries q of [] \<Rightarrow> None | x # xs \<Rightarrow> Some x)" and "entries q' = tl (entries q)"
    and "fifo_ok (q', t')" and "capacity q' = capacity q" and "pushed_logs t' = pushed_logs t"
    and "eliminated_logs t' = (if entries q = [] then eliminated_logs t else eliminated_logs t + 1)"
    by simp_all
qed

lemmas lq_props = enq_queue_props deq_queue_props

interpretation lq: counted_fifo enq_queue deq_queue "\<lambda>(q, t). entries q" fifo_ok
  "\<lambda>(q, t). capacity q" "\<lambda>(q, t). pushed_logs t" "\<lambda>(q, t). eliminated_logs t"
proof (unfold_locales, goal_cases)
  case (1 s x)
  obtain q t q' t' where s: "s = (q, t)" and e: "enq_queue x (q, t) = (q', t')" by fastforce
  with 1 lq_props(2,3) [of q t x q' t'] show ?case by simp
next
  case (2 s)
  obtain q t r q' t' where s: "s = (q, t)" and d: "deq_queue (q, t) = (r, q', t')"
    by (metis prod_cases3 surj_pair)
  with 2 lq_props(8,9) [of q t r q' t'] show ?case by simp
next
  case (3 s x)
  obtain q t q' t' where s: "s = (q, t)" and e: "enq_queue x (q, t) = (q', t')" by fastforce
  with 3 lq_props(1) [of q t x q' t'] show ?case by simp
next
  case (4 s)
  obtain q t r q' t' where s: "s = (q, t)" and d: "deq_queue (q, t) = (r, q', t')"
    by (metis prod_cases3 surj_pair)
  with 4 lq_props(6,7) [of q t r q' t'] show ?case by simp
next
  case (5 s x xs)
  obtain q t r q' t' where s: "s = (q, t)" and d: "deq_queue (q, t) = (r, q', t')"
    by (metis prod_cases3 surj_pair)
  with 5 lq_props(6,7) [of q t r q' t'] show ?case by simp
next
  case (6 s x)
  obtain q t q' t' where s: "s = (q, t)" and e: "enq_queue x (q, t) = (q', t')" by fastforce
  with 6 lq_props(4) [of q t x q' t'] show ?case by simp
next
  case (7 s x)
  obtain q t q' t' where s: "s = (q, t)" and e: "enq_queue x (q, t) = (q', t')" by fastforce
  with 7 lq_props(5) [of q t x q' t'] show ?case by simp
next
  case (8 s)
  obtain q t r q' t' where s: "s = (q, t)" and d: "deq_queue (q, t) = (r, q', t')"
    by (metis prod_cases3 surj_pair)
  with 8 lq_props(10) [of q t r q' t'] show ?case by simp
next
  case (9 s)
  obtain q t r q' t' where s: "s = (q, t)" and d: "deq_queue (q, t) = (r, q', t')"
    by (metis prod_cases3 surj_pair)
  with 9 lq_props(11) [of q t r q' t'] show ?case by simp
qed

section \<open>Construction\<close>

text \<open>The system calls of the initialisation succeed.\<close>

definition shm_ok :: "u64 \<Rightarrow> bool \<Rightarrow> bool" where
  "shm_ok handle mapped \<longleftrightarrow> handle \<noteq> 0 \<and> handle \<noteq> INVALID_HANDLE_VALUE \<and> mapped"

definition raw_slots_of :: "MainConfig \<Rightarrow> nat" where
  "raw_slots_of cfg = unat (usable_ram cfg) * 1048576 div 29"

lemma LogQueue_ctor_failed:
  assumes "\<not> shm_ok handle mapped"
  shows "log_array (snd (LogQueue_ctor u handle mapped mem0 cfg i)) = None"
    and "queue_wf (snd (LogQueue_ctor u handle mapped mem0 cfg i))"
    and "shared_memory_base_ptr (slab_pool (snd (LogQueue_ctor u handle mapped mem0 cfg i))) = None"
  using assms
  by (auto simp: LogQueue_ctor_def InitializeSharedMemory_def shm_ok_def Let_def queue_wf_def
      SlabPool_ctor_def)

lemma raw_slots_word:
  assumes "unat (usable_ram cfg) \<le> 2 ^ 40"
  shows "unat (usable_ram cfg * 1024 * 1024 div (29 :: size_t)) = raw_slots_of cfg"
proof -
  have b: "unat (usable_ram cfg) * 1048576 < 2 ^ 64"
    using assms by simp
  have "unat (usable_ram cfg * 1048576) = unat (usable_ram cfg) * unat (1048576 :: size_t)"
    using b by (subst unat_mult_lem [symmetric]) simp
  then have "unat (usable_ram cfg * 1048576 div (29 :: size_t)) = raw_slots_of cfg"
    by (simp add: unat_div raw_slots_of_def)
  then show ?thesis by (simp add: mult.assoc)
qed

lemma LogQueue_ctor_ok:
  fixes u :: size_t and mem0 :: SharedMemory and i :: u32
  assumes shm: "shm_ok handle mapped" and lo: "1 \<le> unat (usable_ram cfg)"
    and hi: "unat (usable_ram cfg) \<le> 2 ^ 40"
  defines "q \<equiv> snd (LogQueue_ctor u handle mapped mem0 cfg i)"
  shows "queue_wf q" and "entries q = []" and "is_running q" and "overflow q = profile cfg"
    and "capacity q = bit_ceil_nat (raw_slots_of cfg) - 1"
    and "log_array q = Some (replicate (bit_ceil_nat (raw_slots_of cfg)) zero_entry)"
proof -
  let ?raw = "usable_ram cfg * 1024 * 1024 div (29 :: size_t)"
  note r = raw_slots_word [OF hi]
  have two: "2 \<le> raw_slots_of cfg" using lo by (simp add: raw_slots_of_def)
  have le: "raw_slots_of cfg \<le> 2 ^ 62" using hi by (simp add: raw_slots_of_def)
  have nb: "\<not> ?raw < 2" using two r by (simp add: word_less_nat_alt)
  obtain k where k: "bit_ceil ?raw = 2 ^ k" "1 \<le> k" "k < 64"
    using bit_ceil_pow2 [of ?raw] two le r by auto
  have u: "unat (bit_ceil ?raw) = bit_ceil_nat (raw_slots_of cfg)"
    using unat_bit_ceil [of ?raw] le r by simp
  have q: "log_array q = Some (replicate (unat (bit_ceil ?raw)) zero_entry) \<and> head q = 0 \<and>
      tail q = 0 \<and> is_running q \<and> overflow q = profile cfg \<and> CapacityMask q = bit_ceil ?raw - 1"
    using shm nb
    by (simp add: q_def LogQueue_ctor_def InitializeSharedMemory_def shm_ok_def Let_def
        GetMaxRamUsage_def)
  have "ring_ok k (replicate (unat (bit_ceil ?raw)) zero_entry) q"
    using q k by (simp add: ring_ok_def unat_exp_word)
  with q show "queue_wf q" by (auto simp: queue_wf_def)
  show "entries q = []" using q k by (simp add: entries_def unat_exp_word)
  show "is_running q" "overflow q = profile cfg" using q by simp_all
  show "capacity q = bit_ceil_nat (raw_slots_of cfg) - 1" using q u by (simp add: capacity_def)
  show "log_array q = Some (replicate (bit_ceil_nat (raw_slots_of cfg)) zero_entry)"
    using q u by simp
qed

section \<open>A small queue for the witnesses\<close>

text \<open>A four-slot ring that holds the first \<open>k\<close> of three entries.\<close>

definition entry_no :: "nat \<Rightarrow> LogLevel \<Rightarrow> LogEntry" where
  "entry_no n l = zero_entry\<lparr>log_id := word_of_nat n, level := l\<rparr>"

definition small_queue :: "OverflowProfile \<Rightarrow> nat \<Rightarrow> LogQueue" where
  "small_queue prof k =
     \<lparr>log_array = Some [entry_no 1 Info, entry_no 2 Info, entry_no 3 Info, zero_entry], tail = 0,
      is_running = True, MaxCapacity = 116, HighWatermark = 3, LowWatermark = 0,
      CapacityMask = 3, high_watermark_tripped = True, overflow = prof, head = word_of_nat k,
      head_waiter = False,
      slab_pool = SlabPool_ctor 4 1\<rparr>"

lemma small_queue_wf: "k < 4 \<Longrightarrow> queue_wf (small_queue prof k)"
proof -
  assume "k < 4"
  then have "unat (word_of_nat k :: size_t) = k" by (intro unat_word_of_nat_small) simp
  with \<open>k < 4\<close> have "ring_ok 2 [entry_no 1 Info, entry_no 2 Info, entry_no 3 Info, zero_entry]
      (small_queue prof k)"
    by (simp add: ring_ok_def small_queue_def)
  then show ?thesis by (auto simp: queue_wf_def small_queue_def)
qed

lemma small_queue_full:
  "entries (small_queue prof 3) = [entry_no 1 Info, entry_no 2 Info, entry_no 3 Info]"
  "capacity (small_queue prof 3) = 3"
  by (simp_all add: entries_def small_queue_def capacity_def ring_list_def ring_count_def
      upt_conv_Cons)

section \<open>Properties\<close>

text \<open>
  C23. \<open>push\<close> on every branch, for every queue. Without an array, on a queue that is not running,
  or on a full queue with a profile that drops the entry, nothing changes. Otherwise the
  entry is appended and counted, who waits for the head is notified, and the watermark flag is
  set when the entries now queued reach the high watermark; but on a full queue a profile that lets the
  entry through (\<open>Block\<close> always, the two critical profiles for a critical entry) publishes a
  head equal to the tail, which leaves the queue empty: the entries it held and the new one are lost.
\<close>

theorem push_every_branch:
  assumes "queue_wf q"
  shows "if log_array q = None \<or> \<not> is_running q \<or>
       length (entries q) = capacity q \<and> \<not> passes_when_full (overflow q) (level e)
     then push e q t = Done (q, t)
     else \<exists>q'. push e q t = Done (q', RegisterPushed t) \<and> queue_wf q' \<and> capacity q' = capacity q \<and>
       entries q' = (if length (entries q) = capacity q then [] else entries q @ [e]) \<and>
       tail q' = tail q \<and> \<not> head_waiter q' \<and> is_running q' \<and>
       (high_watermark_tripped q' \<longleftrightarrow>
          high_watermark_tripped q \<or> unat (HighWatermark q) \<le> length (entries q'))"
proof (cases "log_array q = None \<or> \<not> is_running q")
  case True
  then show ?thesis by (auto simp: push_stopped push_no_array)
next
  case False
  then have a: "log_array q \<noteq> None" and run: "is_running q" by simp_all
  obtain arr n where arr: "log_array q = Some arr" and ok: "ring_ok n arr q" using queue_wfE [OF assms a] .
  obtain q' t' where st: "push_store e q t = Done (q', t')" using push_store_Done [OF ok arr] by blast
  note ps = push_store_ring [OF ok arr run st] and w = push_store_watermark [OF ok arr run st]
  have p: "push e q t = Done (q', t')" if "\<not> (full q \<and> \<not> passes_when_full (overflow q) (level e))"
    using that st push_cases [OF assms a run, of e t] by auto
  have "queue_wf q'" using ps(1,2) by (auto simp: queue_wf_def)
  then show ?thesis
    using push_cases [OF assms a run, of e t] p ps(3,5,6,12) w run a
      push_frame(5) [OF assms p] entries_push(1) [OF assms a run p]
    by (auto simp: full_def)
qed

theorem push_every_branch_witness:
  "\<exists>q'. push zero_entry (small_queue Block 3) Telemetry_init = Done (q', RegisterPushed Telemetry_init) \<and>
     queue_wf q' \<and> capacity q' = 3 \<and> entries q' = [] \<and> high_watermark_tripped q'"
proof -
  have q: "queue_wf (small_queue Block 3)" "log_array (small_queue Block 3) \<noteq> None"
    "is_running (small_queue Block 3)" "overflow (small_queue Block 3) = Block"
    "high_watermark_tripped (small_queue Block 3)"
    by (simp add: small_queue_wf) (simp_all add: small_queue_def)
  show ?thesis
    using push_every_branch [OF q(1), of zero_entry Telemetry_init] q(2-5)
    by (auto simp: small_queue_full)
qed

text \<open>
  C24. The overflow profile \<open>Block\<close> does not block: on a full queue \<open>push\<close> returns without
  waiting for a consumer, and the next \<open>pop\<close> finds nothing although \<open>capacity\<close> entries had
  been queued.
\<close>

theorem block_profile_loses_queue:
  assumes "queue_wf q" and "log_array q \<noteq> None" and "is_running q" and "overflow q = Block"
    and "length (entries q) = capacity q"
  shows "\<exists>q' t'. push e q t = Done (q', t') \<and> pop q' t' = Done (None, q', t')"
proof -
  obtain q' t' where p: "push e q t = Done (q', t')" and wf': "queue_wf q'"
    using push_returns [OF assms(1)] by blast
  have "entries q' = []"
    using entries_push(1) [OF assms(1-3) p] assms(4,5) by (simp add: full_def)
  then have "head q' = tail q'" using entries_empty_iff [OF wf'] by simp
  with p show ?thesis by (auto simp: pop_empty_queue)
qed

theorem block_profile_loses_queue_witness:
  "length (entries (small_queue Block 3)) = 3 \<and>
   (\<exists>q' t'. push zero_entry (small_queue Block 3) Telemetry_init = Done (q', t') \<and>
      pop q' t' = Done (None, q', t'))"
proof -
  have q: "queue_wf (small_queue Block 3)" "log_array (small_queue Block 3) \<noteq> None"
    "is_running (small_queue Block 3)" "overflow (small_queue Block 3) = Block"
    by (simp add: small_queue_wf) (simp_all add: small_queue_def)
  show ?thesis
    using block_profile_loses_queue [OF q, of zero_entry Telemetry_init]
    by (simp add: small_queue_full)
qed

text \<open>
  C7. With the default profile \<open>DropAll\<close> the queue is a bounded FIFO: over any sequence of
  pushes and pops, the pops return exactly what a list of at most \<open>capacity\<close> entries
  returns, and the entries delivered followed by those still queued are the entries held at
  the start followed by the accepted ones, in order.
\<close>

theorem queue_is_bounded_fifo:
  assumes "fifo_ok (q, t)" and "run_queue enq_queue deq_queue ops (q, t) = (rs, q', t')"
  shows "\<exists>acc. run_bounded (capacity q) ops (entries q) = (rs, acc, entries q') \<and>
     entries q @ acc = delivered rs @ entries q' \<and> length (entries q') \<le> capacity q"
proof -
  obtain acc where "entries q @ acc = delivered rs @ entries q'"
    and r: "run_bounded (capacity q) ops (entries q) = (rs, acc, entries q')"
    using lq.run_conserves [OF assms] by auto
  moreover have "length (entries q) \<le> capacity q"
    using assms(1) by (simp add: fifo_ok_def entries_le_capacity)
  ultimately show ?thesis using run_bounded_le [OF r] by blast
qed

theorem queue_is_bounded_fifo_witness:
  "\<exists>rs q' t' acc. run_queue enq_queue deq_queue [Deq, Enq zero_entry, Deq]
       (small_queue DropAll 3, Telemetry_init) = (rs, q', t') \<and>
     run_bounded 3 [Deq, Enq zero_entry, Deq] (entries (small_queue DropAll 3)) =
       (rs, acc, entries q') \<and>
     entries (small_queue DropAll 3) @ acc = delivered rs @ entries q'"
proof -
  have ok: "fifo_ok (small_queue DropAll 3, Telemetry_init)"
    by (simp add: fifo_ok_def small_queue_wf) (simp add: small_queue_def)
  obtain rs q' t' where r: "run_queue enq_queue deq_queue [Deq, Enq zero_entry, Deq]
       (small_queue DropAll 3, Telemetry_init) = (rs, q', t')"
    by (metis prod_cases3)
  show ?thesis
    using queue_is_bounded_fifo [OF ok r] r small_queue_full(2) [of DropAll] by metis
qed

text \<open>The same for one queue, as a run of the interface.\<close>

lemma run_keeps_balance:
  assumes "fifo_ok (q, t)" and "pushed_logs t - eliminated_logs t = word_of_nat (length (entries q))"
    and "run_queue enq_queue deq_queue ops (q, t) = (rs, q', t')"
  shows "pushed_logs t' - eliminated_logs t' = word_of_nat (length (entries q'))"
  using lq.balanced_run [OF assms(1) _ assms(3)] assms(2) by (simp add: lq.balanced_def)

text \<open>
  Calls on several queues that share one telemetry object, as the queues of the engine do: a push
  of an entry on queue \<open>i\<close>, or a pop, \<open>None\<close>.
\<close>

fun queue_calls ::
  "(nat \<times> LogEntry option) list \<Rightarrow> LogQueue list \<times> Telemetry \<Rightarrow> (LogQueue list \<times> Telemetry) outcome" where
  "queue_calls [] s = Done s"
| "queue_calls ((i, Some e) # cs) (qs, t) =
     bind_out (push e (qs ! i) t) (\<lambda>(q, t1). queue_calls cs (qs[i := q], t1))"
| "queue_calls ((i, None) # cs) (qs, t) =
     bind_out (pop (qs ! i) t) (\<lambda>(r, q, t1). queue_calls cs (qs[i := q], t1))"

definition queued :: "LogQueue list \<Rightarrow> u64" where
  "queued qs = (\<Sum>q\<leftarrow>qs. word_of_nat (length (entries q)))"

lemma queued_update:
  "i < length qs \<Longrightarrow>
   queued (qs[i := q]) = queued qs + word_of_nat (length (entries q)) - word_of_nat (length (entries (qs ! i)))"
proof (induction qs arbitrary: i)
  case (Cons p qs)
  then show ?case by (cases i) (simp_all add: queued_def algebra_simps)
qed simp

definition drops_all :: "LogQueue \<Rightarrow> bool" where
  "drops_all q \<longleftrightarrow> queue_wf q \<and> overflow q = DropAll"

lemma push_accounts:
  assumes "drops_all q"
  obtains q' t' where "push e q t = Done (q', t')" and "drops_all q'"
    and "pushed_logs t' - eliminated_logs t' =
      pushed_logs t - eliminated_logs t + word_of_nat (length (entries q')) - word_of_nat (length (entries q))"
proof -
  have wf: "queue_wf q" and d: "overflow q = DropAll" using assms by (simp_all add: drops_all_def)
  obtain q' t' where p: "push e q t = Done (q', t')" and wf': "queue_wf q'" using push_returns [OF wf] by blast
  have "drops_all q'" using wf' push_frame(3) [OF wf p] d by (simp add: drops_all_def)
  moreover have "pushed_logs t' - eliminated_logs t' =
      pushed_logs t - eliminated_logs t + word_of_nat (length (entries q')) - word_of_nat (length (entries q))"
  proof (cases "log_array q = None \<or> \<not> is_running q")
    case True
    then show ?thesis using p by (auto simp: push_stopped push_no_array)
  next
    case False
    then show ?thesis using entries_push [OF wf _ _ p] d by (auto simp: algebra_simps)
  qed
  ultimately show thesis using that p by blast
qed

lemma pop_accounts:
  assumes "drops_all q"
  obtains r q' t' where "pop q t = Done (r, q', t')" and "drops_all q'"
    and "pushed_logs t' - eliminated_logs t' =
      pushed_logs t - eliminated_logs t + word_of_nat (length (entries q')) - word_of_nat (length (entries q))"
proof -
  have wf: "queue_wf q" and d: "overflow q = DropAll" using assms by (simp_all add: drops_all_def)
  show thesis
  proof (cases "is_running q \<and> entries q \<noteq> []")
    case True
    then have r: "is_running q" "entries q \<noteq> []" by simp_all
    obtain q' where "pop q t = Done (Some (hd (entries q)), q', RegisterEliminated t)" "queue_wf q'"
      "overflow q' = overflow q" and e: "entries q' = tl (entries q)"
      using pop_spec [OF wf r, of t] by metis
    moreover have "length (entries q) = Suc (length (entries q'))" using r(2) e by (cases "entries q") simp_all
    ultimately show thesis using that d by (simp add: drops_all_def algebra_simps)
  next
    case False
    then have "pop q t = Done (None, q, t)"
      using entries_empty_iff [OF wf] by (auto simp: pop_stopped pop_empty_queue)
    then show thesis using that assms by simp
  qed
qed

text \<open>
  C38. With \<open>DropAll\<close> the telemetry accounts for the queues that share it: whatever pushes and pops
  are made on whichever queues, running or stopped, each call returns, and when the pushed count
  less the eliminated count was the number of queued entries (as at the start) it still is,
  modulo \<open>2 ^ 64\<close>.
\<close>

theorem telemetry_accounts_for_queues:
  assumes "\<forall>q \<in> set qs. queue_wf q \<and> overflow q = DropAll" and "\<forall>c \<in> set cs. fst c < length qs"
    and "pushed_logs t - eliminated_logs t = queued qs"
  shows "\<exists>qs' t'. queue_calls cs (qs, t) = Done (qs', t') \<and> pushed_logs t' - eliminated_logs t' = queued qs'"
  using assms unfolding drops_all_def [symmetric]
proof (induction cs arbitrary: qs t)
  case (Cons c cs)
  obtain i op where c: "c = (i, op)" and i: "i < length qs" using Cons.prems(2) by (cases c) auto
  have d: "drops_all (qs ! i)" using Cons.prems(1) i by simp
  obtain q t1 where step: "queue_calls (c # cs) (qs, t) = queue_calls cs (qs[i := q], t1)" and q: "drops_all q"
    and t1: "pushed_logs t1 - eliminated_logs t1 = pushed_logs t - eliminated_logs t +
      word_of_nat (length (entries q)) - word_of_nat (length (entries (qs ! i)))"
  proof (cases op)
    case None
    obtain r q' t' where "pop (qs ! i) t = Done (r, q', t')" "drops_all q'"
      "pushed_logs t' - eliminated_logs t' = pushed_logs t - eliminated_logs t +
        word_of_nat (length (entries q')) - word_of_nat (length (entries (qs ! i)))"
      by (rule pop_accounts [OF d])
    with None c show thesis by (intro that [of q' t']) simp_all
  next
    case (Some e)
    obtain q' t' where "push e (qs ! i) t = Done (q', t')" "drops_all q'"
      "pushed_logs t' - eliminated_logs t' = pushed_logs t - eliminated_logs t +
        word_of_nat (length (entries q')) - word_of_nat (length (entries (qs ! i)))"
      by (rule push_accounts [OF d])
    with Some c show thesis by (intro that [of q' t']) simp_all
  qed
  have "\<forall>p \<in> set (qs[i := q]). drops_all p"
    using Cons.prems(1) q by (auto dest!: set_update_subset_insert [THEN subsetD])
  moreover have "\<forall>c \<in> set cs. fst c < length (qs[i := q])" using Cons.prems(2) by simp
  moreover have "pushed_logs t1 - eliminated_logs t1 = queued (qs[i := q])"
    using t1 Cons.prems(3) queued_update [OF i, of q] by simp
  ultimately show ?case unfolding step by (rule Cons.IH)
qed simp

theorem telemetry_accounts_for_queues_witness:
  "\<exists>qs' t'. queue_calls [(0, Some zero_entry), (1, Some zero_entry), (0, None), (1, Some zero_entry)]
       ([small_queue DropAll 0, set_finished (small_queue DropAll 0)], Telemetry_init) = Done (qs', t') \<and>
     pushed_logs t' - eliminated_logs t' = queued qs'"
proof (rule telemetry_accounts_for_queues)
  have finished: "queue_wf (set_finished q) = queue_wf q" "overflow (set_finished q) = overflow q" for q
    by (simp_all add: set_finished_def queue_wf_def ring_ok_def split: option.split)
  show "\<forall>q \<in> set [small_queue DropAll 0, set_finished (small_queue DropAll 0)]. queue_wf q \<and> overflow q = DropAll"
    using small_queue_wf [of 0 DropAll] finished by (simp add: small_queue_def)
  show "pushed_logs Telemetry_init - eliminated_logs Telemetry_init =
      queued [small_queue DropAll 0, set_finished (small_queue DropAll 0)]"
    by (simp add: queued_def Telemetry_init_def entries_def small_queue_def set_finished_def ring_count_def)
qed simp

text \<open>
  The overrun breaks the accounting: after a \<open>Block\<close> push on a full queue the counters
  claim \<open>capacity + 1\<close> queued entries while the queue is empty.
\<close>

theorem overrun_breaks_accounting:
  assumes "queue_wf q" and "log_array q \<noteq> None" and "is_running q" and "overflow q = Block"
    and "length (entries q) = capacity q"
    and "pushed_logs t - eliminated_logs t = word_of_nat (length (entries q))"
  shows "\<exists>q' t'. push e q t = Done (q', t') \<and> entries q' = [] \<and>
     pushed_logs t' - eliminated_logs t' = word_of_nat (capacity q + 1)"
proof -
  obtain q' t' where p: "push e q t = Done (q', t')"
    using push_returns [OF assms(1)] by blast
  then show ?thesis
    using entries_push [OF assms(1-3) p] assms(4-6) by (simp add: full_def algebra_simps)
qed

theorem overrun_breaks_accounting_witness:
  "\<exists>q' t'. push zero_entry (small_queue Block 3) (Telemetry_init\<lparr>pushed_logs := 3\<rparr>) = Done (q', t') \<and>
     entries q' = [] \<and> pushed_logs t' - eliminated_logs t' = word_of_nat (3 + 1)"
proof -
  have q: "queue_wf (small_queue Block 3)" "log_array (small_queue Block 3) \<noteq> None"
    "is_running (small_queue Block 3)" "overflow (small_queue Block 3) = Block"
    by (simp add: small_queue_wf) (simp_all add: small_queue_def)
  show ?thesis
    using overrun_breaks_accounting [OF q, of "Telemetry_init\<lparr>pushed_logs := 3\<rparr>" zero_entry]
      small_queue_full [of Block]
    by (simp add: Telemetry_init_def)
qed

text \<open>
  The high watermark flag is cleared by a \<open>pop\<close> only while the queue is nearly full: a
  successful \<open>pop\<close> that leaves more free slots than the low watermark keeps the flag, so a
  queue that drains below the low watermark does not clear it.
\<close>

theorem watermark_stays_tripped:
  assumes "queue_wf q" and "is_running q" and "entries q \<noteq> []"
    and "unat (LowWatermark q) < capacity q + 1 - length (entries q)"
  shows "\<exists>q'. pop q t = Done (Some (hd (entries q)), q', RegisterEliminated t) \<and>
     high_watermark_tripped q' = high_watermark_tripped q"
  using pop_spec [OF assms(1-3), of t] assms(4) by metis

theorem watermark_stays_tripped_witness:
  "\<exists>q'. pop (small_queue DropAll 1) Telemetry_init =
       Done (Some (hd (entries (small_queue DropAll 1))), q', RegisterEliminated Telemetry_init) \<and>
     high_watermark_tripped q'"
proof -
  have e: "entries (small_queue DropAll 1) = [entry_no 1 Info]" "capacity (small_queue DropAll 1) = 3"
    by (simp_all add: entries_def small_queue_def capacity_def ring_list_def ring_count_def)
  have q: "queue_wf (small_queue DropAll 1)" "is_running (small_queue DropAll 1)"
    "LowWatermark (small_queue DropAll 1) = 0" "high_watermark_tripped (small_queue DropAll 1)"
    by (simp add: small_queue_wf) (simp_all add: small_queue_def)
  show ?thesis
    using watermark_stays_tripped [OF q(1,2), of Telemetry_init] e q(3,4) by simp
qed

text \<open>
  A stopped queue is never drained: after \<open>set_finished\<close> every \<open>pop\<close> reports an empty
  queue and changes nothing, whatever entries are left, and every \<open>push\<close> is ignored.
\<close>

theorem finished_queue_not_drained:
  "pop (set_finished q) t = Done (None, set_finished q, t) \<and>
   push e (set_finished q) t = Done (set_finished q, t) \<and>
   entries (set_finished q) = entries q"
proof -
  have "\<not> is_running (set_finished q)" by (simp add: set_finished_def)
  moreover have "entries (set_finished q) = entries q"
    by (simp add: set_finished_def entries_def split: option.split)
  ultimately show ?thesis by (simp add: pop_stopped push_stopped)
qed

text \<open>
  C39. The array the constructor allocates is a power of two of entries, at least as large
  as the configured memory allows and less than twice that: \<open>usable_ram\<close> megabytes is not
  an upper bound of the memory used.
\<close>

theorem ring_memory_bounds:
  fixes u :: size_t and mem0 :: SharedMemory and i :: u32
  assumes "shm_ok handle mapped" and "1 \<le> unat (usable_ram cfg)" and "unat (usable_ram cfg) \<le> 2 ^ 40"
  shows "\<exists>arr n. log_array (snd (LogQueue_ctor u handle mapped mem0 cfg i)) = Some arr \<and>
     length arr = 2 ^ n \<and> raw_slots_of cfg \<le> length arr \<and>
     sizeof_LogEntry * length arr < 2 * (unat (usable_ram cfg) * 1048576)"
proof -
  let ?r = "raw_slots_of cfg"
  have "0 < ?r" using assms(2) by (simp add: raw_slots_of_def)
  then have "bit_ceil_nat ?r < 2 * ?r" by (rule bit_ceil_nat_less)
  moreover have "29 * ?r \<le> unat (usable_ram cfg) * 1048576" by (simp add: raw_slots_of_def)
  ultimately have "29 * bit_ceil_nat ?r < 2 * (unat (usable_ram cfg) * 1048576)" by linarith
  moreover obtain n where "bit_ceil_nat ?r = 2 ^ n" using bit_ceil_nat_pow2 by blast
  ultimately show ?thesis
    using LogQueue_ctor_ok(6) [OF assms] bit_ceil_nat_ge [of ?r] by auto
qed

theorem ring_memory_bounds_witness:
  "\<exists>arr n. log_array (snd (LogQueue_ctor 0 8 True (undefined :: SharedMemory) default_config 0)) = Some arr \<and>
     length arr = 2 ^ n \<and> 578524 \<le> length arr \<and> sizeof_LogEntry * length arr < 2 * (16 * 1048576)"
proof -
  have "shm_ok 8 True" by (simp add: shm_ok_def INVALID_HANDLE_VALUE_def)
  then show ?thesis
    using ring_memory_bounds [of 8 True default_config 0 undefined 0]
    by (simp add: default_config_def raw_slots_of_def)
qed

end
