(* ===== verification/Log_Queue_Conc.thy ===== *)
theory Log_Queue_Conc
  imports Log_Queue_Spec
begin

text \<open>
  \<open>LogQueue::push\<close> and \<open>LogQueue::pop\<close> split into their accesses to shared variables, one
  producer and one consumer interleaving freely, with a third thread that may call
  \<open>set_finished\<close> at any time. Each access is atomic and steps are sequentially consistent;
  \<open>Log_Queue_RA\<close> weakens them to the acquire and release orders of the code. \<open>sent\<close> and \<open>got\<close> are ghost lists: the entries published by the store to
  \<open>head\<close>, and the entries taken by the store to \<open>tail\<close>.
\<close>

section \<open>Program counters\<close>

text \<open>Where the producer is in \<open>push\<close>, with the locals \<open>log_line\<close> and \<open>current_head\<close>.\<close>

datatype ppc =
    P_idle
  | P_start LogEntry
  | P_running LogEntry
  | P_head LogEntry size_t
  | P_spin LogEntry size_t
  | P_recheck LogEntry size_t
  | P_write LogEntry size_t
  | P_publish LogEntry size_t
  | P_notify size_t
  | P_count size_t
  | P_mark size_t

text \<open>Where the consumer is in \<open>pop\<close>, with \<open>current_tail\<close> and \<open>out_log\<close>.\<close>

datatype cpc =
    C_idle
  | C_start
  | C_running
  | C_tail size_t
  | C_recheck size_t
  | C_read size_t
  | C_release size_t LogEntry
  | C_count size_t
  | C_mark size_t

record conc =
  shared :: LogQueue
  tel :: Telemetry
  producer :: ppc
  consumer :: cpc
  sent :: "LogEntry list"
  got :: "LogEntry list"

section \<open>Steps\<close>

definition next_slot :: "LogQueue \<Rightarrow> size_t \<Rightarrow> size_t" where
  "next_slot q i = (i + 1) AND CapacityMask q"

fun prod_step :: "ppc \<Rightarrow> conc \<Rightarrow> conc" where
  "prod_step P_idle s = s"
| "prod_step (P_start e) s =
     (if log_array (shared s) = None \<or> \<not> is_running (shared s) then s\<lparr>producer := P_idle\<rparr>
      else s\<lparr>producer := P_running e\<rparr>)"
| "prod_step (P_running e) s = s\<lparr>producer := P_head e (head (shared s))\<rparr>"
| "prod_step (P_head e ch) s =
     (if next_slot (shared s) ch = tail (shared s) then
        (case overflow (shared s) of
           Block \<Rightarrow> s\<lparr>producer := P_spin e ch\<rparr>
         | DropAll \<Rightarrow> s\<lparr>producer := P_idle\<rparr>
         | DropNonCritical \<Rightarrow>
             if level e \<noteq> Critical then s\<lparr>producer := P_idle\<rparr> else s\<lparr>producer := P_spin e ch\<rparr>
         | PassCriticalDropElse \<Rightarrow>
             if level e \<noteq> Critical then s\<lparr>producer := P_idle\<rparr> else s\<lparr>producer := P_recheck e ch\<rparr>)
      else s\<lparr>producer := P_recheck e ch\<rparr>)"
| "prod_step (P_spin e ch) s =
     (if ch = tail (shared s) then s else s\<lparr>producer := P_recheck e ch\<rparr>)"
| "prod_step (P_recheck e ch) s =
     (if is_running (shared s) then s\<lparr>producer := P_write e ch\<rparr> else s\<lparr>producer := P_idle\<rparr>)"
| "prod_step (P_write e ch) s =
     s\<lparr>shared := (shared s)\<lparr>log_array := map_option (\<lambda>arr. arr[unat ch := e]) (log_array (shared s))\<rparr>,
       producer := P_publish e ch\<rparr>"
| "prod_step (P_publish e ch) s =
     s\<lparr>shared := (shared s)\<lparr>head := next_slot (shared s) ch\<rparr>,
       producer := P_notify (next_slot (shared s) ch), sent := sent s @ [e]\<rparr>"
| "prod_step (P_notify nh) s = s\<lparr>shared := notify_head (shared s), producer := P_count nh\<rparr>"
| "prod_step (P_count nh) s = s\<lparr>tel := RegisterPushed (tel s), producer := P_mark nh\<rparr>"
| "prod_step (P_mark nh) s =
     (let occupied_slots = (nh - tail (shared s)) AND CapacityMask (shared s)
      in (if HighWatermark (shared s) \<le> occupied_slots
          then s\<lparr>shared := (shared s)\<lparr>high_watermark_tripped := True\<rparr>\<rparr> else s)\<lparr>producer := P_idle\<rparr>)"

fun cons_step :: "cpc \<Rightarrow> conc \<Rightarrow> conc" where
  "cons_step C_idle s = s"
| "cons_step C_start s =
     (if is_running (shared s) then s\<lparr>consumer := C_running\<rparr> else s\<lparr>consumer := C_idle\<rparr>)"
| "cons_step C_running s = s\<lparr>consumer := C_tail (tail (shared s))\<rparr>"
| "cons_step (C_tail ct) s =
     (if ct = head (shared s) then s\<lparr>consumer := C_idle\<rparr> else s\<lparr>consumer := C_recheck ct\<rparr>)"
| "cons_step (C_recheck ct) s =
     (if is_running (shared s) then s\<lparr>consumer := C_read ct\<rparr> else s\<lparr>consumer := C_idle\<rparr>)"
| "cons_step (C_read ct) s =
     s\<lparr>consumer := C_release ct (case log_array (shared s) of
         Some arr \<Rightarrow> arr ! unat ct | None \<Rightarrow> zero_entry)\<rparr>"
| "cons_step (C_release ct e) s =
     s\<lparr>shared := (shared s)\<lparr>tail := next_slot (shared s) ct\<rparr>, consumer := C_count ct,
       got := got s @ [e]\<rparr>"
| "cons_step (C_count ct) s = s\<lparr>tel := RegisterEliminated (tel s), consumer := C_mark ct\<rparr>"
| "cons_step (C_mark ct) s =
     (let q = shared s; total_slots = CapacityMask q + 1;
          occupied_slots = (head q - ct) AND CapacityMask q;
          freed_slots = total_slots - occupied_slots
      in (if freed_slots \<le> LowWatermark q
          then s\<lparr>shared := q\<lparr>high_watermark_tripped := False\<rparr>\<rparr> else s)\<lparr>consumer := C_idle\<rparr>)"

inductive cstep :: "conc \<Rightarrow> conc \<Rightarrow> bool" where
  Call_push: "producer s = P_idle \<Longrightarrow> cstep s (s\<lparr>producer := P_start e\<rparr>)"
| Producer: "producer s \<noteq> P_idle \<Longrightarrow> cstep s (prod_step (producer s) s)"
| Call_pop: "consumer s = C_idle \<Longrightarrow> cstep s (s\<lparr>consumer := C_start\<rparr>)"
| Consumer: "consumer s \<noteq> C_idle \<Longrightarrow> cstep s (cons_step (consumer s) s)"
| Finish: "cstep s (s\<lparr>shared := set_finished (shared s)\<rparr>)"

abbreviation csteps :: "conc \<Rightarrow> conc \<Rightarrow> bool" where
  "csteps \<equiv> cstep\<^sup>*\<^sup>*"

definition conc_init :: "LogQueue \<Rightarrow> Telemetry \<Rightarrow> conc" where
  "conc_init q t =
     \<lparr>shared = q, tel = t, producer = P_idle, consumer = C_idle, sent = entries q, got = []\<rparr>"

inductive_cases cstepE: "cstep s s'"

section \<open>The invariant of the dropping profile\<close>

text \<open>
  What each program counter knows. A producer past its check holds a head that is the
  shared one and whose successor is not the tail; a consumer past its check holds the
  shared tail, and the queue is not empty. Neither is spoiled by a step of the other side.
\<close>

definition room :: "LogQueue \<Rightarrow> bool" where
  "room q \<longleftrightarrow> next_slot q (head q) \<noteq> tail q"

fun prod_ok :: "ppc \<Rightarrow> LogQueue \<Rightarrow> bool" where
  "prod_ok (P_head e ch) q \<longleftrightarrow> ch = head q"
| "prod_ok (P_spin e ch) q \<longleftrightarrow> False"
| "prod_ok (P_recheck e ch) q \<longleftrightarrow> ch = head q \<and> room q"
| "prod_ok (P_write e ch) q \<longleftrightarrow> ch = head q \<and> room q"
| "prod_ok (P_publish e ch) q \<longleftrightarrow> ch = head q \<and> room q \<and>
     (\<exists>arr. log_array q = Some arr \<and> arr ! unat ch = e)"
| "prod_ok _ q \<longleftrightarrow> True"

fun cons_ok :: "cpc \<Rightarrow> LogQueue \<Rightarrow> bool" where
  "cons_ok (C_tail ct) q \<longleftrightarrow> ct = tail q"
| "cons_ok (C_recheck ct) q \<longleftrightarrow> ct = tail q \<and> tail q \<noteq> head q"
| "cons_ok (C_read ct) q \<longleftrightarrow> ct = tail q \<and> tail q \<noteq> head q"
| "cons_ok (C_release ct e) q \<longleftrightarrow> ct = tail q \<and> tail q \<noteq> head q \<and>
     (\<exists>arr. log_array q = Some arr \<and> arr ! unat ct = e)"
| "cons_ok _ q \<longleftrightarrow> True"

definition conc_inv :: "conc \<Rightarrow> bool" where
  "conc_inv s \<longleftrightarrow>
     queue_wf (shared s) \<and> log_array (shared s) \<noteq> None \<and> overflow (shared s) = DropAll \<and>
     prod_ok (producer s) (shared s) \<and> cons_ok (consumer s) (shared s) \<and>
     got s @ entries (shared s) = sent s"

lemma conc_init_inv:
  "queue_wf q \<Longrightarrow> log_array q \<noteq> None \<Longrightarrow> overflow q = DropAll \<Longrightarrow> conc_inv (conc_init q t)"
  by (simp add: conc_inv_def conc_init_def)

text \<open>Fields that leave the content alone.\<close>

lemma entries_frame [simp]:
  "entries (q\<lparr>high_watermark_tripped := b\<rparr>) = entries q"
  "entries (set_finished q) = entries q"
  by (simp_all add: entries_def set_finished_def split: option.split)

lemma queue_wf_frame [simp]:
  "queue_wf (q\<lparr>high_watermark_tripped := b\<rparr>) = queue_wf q"
  "queue_wf (set_finished q) = queue_wf q"
  by (simp_all add: queue_wf_def set_finished_def ring_ok_def split: option.split)

lemma ok_frame [simp]:
  "prod_ok p (q\<lparr>high_watermark_tripped := b\<rparr>) = prod_ok p q"
  "cons_ok c (q\<lparr>high_watermark_tripped := b\<rparr>) = cons_ok c q"
  "prod_ok p (set_finished q) = prod_ok p q"
  "cons_ok c (set_finished q) = cons_ok c q"
  "prod_ok p (notify_head q) = prod_ok p q"
  "cons_ok c (notify_head q) = cons_ok c q"
  by (cases p; cases c; simp add: room_def next_slot_def set_finished_def)+

lemma set_finished_frame [simp]:
  "log_array (set_finished q) = log_array q" "overflow (set_finished q) = overflow q"
  "head (set_finished q) = head q" "tail (set_finished q) = tail q"
  by (simp_all add: set_finished_def)

text \<open>The write of the free slot, the publication, and the release, on the shared queue.\<close>

lemma write_slot:
  fixes e :: LogEntry
  assumes wf: "queue_wf q" and a: "log_array q = Some arr"
  defines "q1 \<equiv> q\<lparr>log_array := Some (arr[unat (head q) := e])\<rparr>"
  shows "queue_wf q1" and "entries q1 = entries q"
    and "arr[unat (head q) := e] ! unat (head q) = e"
    and "tail q \<noteq> head q \<Longrightarrow> arr[unat (head q) := e] ! unat (tail q) = arr ! unat (tail q)"
proof -
  obtain n where ok: "ring_ok n arr q" using wf a by (auto simp: queue_wf_def)
  then have b: "unat (head q) < length arr" "unat (tail q) < length arr"
    by (simp_all add: ring_ok_def)
  have "ring_ok n (arr[unat (head q) := e]) q1" using ok by (simp add: ring_ok_def q1_def)
  then show "queue_wf q1" by (auto simp: queue_wf_def q1_def)
  show "entries q1 = entries q"
    using ring_list_update_head [OF b(2,1), of e] by (simp add: entries_def q1_def a)
  show "arr[unat (head q) := e] ! unat (head q) = e" using b by simp
  show "arr[unat (head q) := e] ! unat (tail q) = arr ! unat (tail q)" if "tail q \<noteq> head q"
    using that by (metis nth_list_update_neq word_unat_eq_iff)
qed

lemma publish_slot:
  assumes wf: "queue_wf q" and a: "log_array q = Some arr" and room: "room q"
    and e: "arr ! unat (head q) = e"
  defines "q1 \<equiv> q\<lparr>head := next_slot q (head q)\<rparr>"
  shows "queue_wf q1" and "entries q1 = entries q @ [e]"
proof -
  obtain n where ok: "ring_ok n arr q" using wf a by (auto simp: queue_wf_def)
  let ?h = "unat (head q)" and ?t = "unat (tail q)"
  have b: "?h < length arr" "?t < length arr" and len: "length arr = 2 ^ n"
    using ok by (simp_all add: ring_ok_def)
  have nh: "unat (next_slot q (head q)) = Suc ?h mod length arr"
    using next_head_nat [OF ok] by (simp add: next_slot_def)
  have "0 < length arr" using len by simp
  then have "Suc ?h mod length arr < length arr" by (rule mod_less_divisor)
  with nh ok have "ring_ok n arr q1" by (simp add: ring_ok_def q1_def)
  then show "queue_wf q1" using a by (auto simp: queue_wf_def q1_def)
  have neq: "Suc ?h mod length arr \<noteq> ?t"
    using room nh by (metis room_def word_unat_eq_iff)
  have "arr[?h := e] = arr" using e by (metis list_update_id)
  then show "entries q1 = entries q @ [e]"
    using ring_list_push [OF b(2,1) neq, of e] by (simp add: entries_def q1_def a nh)
qed

lemma release_slot:
  assumes wf: "queue_wf q" and a: "log_array q = Some arr" and ne: "tail q \<noteq> head q"
  defines "q1 \<equiv> q\<lparr>tail := next_slot q (tail q)\<rparr>"
  shows "queue_wf q1" and "entries q = arr ! unat (tail q) # entries q1"
    and "room q1"
proof -
  obtain n where ok: "ring_ok n arr q" using wf a by (auto simp: queue_wf_def)
  let ?h = "unat (head q)" and ?t = "unat (tail q)"
  have b: "?h < length arr" "?t < length arr" and len: "length arr = 2 ^ n"
    using ok by (simp_all add: ring_ok_def)
  have nt: "unat (next_slot q (tail q)) = Suc ?t mod length arr"
    using next_tail_nat [OF ok] by (simp add: next_slot_def)
  have "0 < length arr" using len by simp
  then have "Suc ?t mod length arr < length arr" by (rule mod_less_divisor)
  with nt ok have ok1: "ring_ok n arr q1" by (simp add: ring_ok_def q1_def)
  then show "queue_wf q1" using a by (auto simp: queue_wf_def q1_def)
  have neq: "?t \<noteq> ?h" using ne by (metis word_unat_eq_iff)
  show "entries q = arr ! ?t # entries q1"
    using ring_list_pop [OF b(2,1) neq] by (simp add: entries_def q1_def a nt)
  have "Suc ?h mod length arr \<noteq> Suc ?t mod length arr"
    using b neq by (auto simp: Suc_mod_cases)
  moreover have "unat (next_slot q1 (head q)) = Suc ?h mod length arr"
    using next_head_nat [OF ok] by (simp add: next_slot_def q1_def)
  ultimately show "room q1" using nt by (auto simp: room_def q1_def)
qed

text \<open>One step of each thread, then of the system.\<close>

lemma prod_ok_head_only:
  "prod_ok p q \<Longrightarrow> log_array q1 = log_array q \<Longrightarrow> head q1 = head q \<Longrightarrow> room q1 \<Longrightarrow> prod_ok p q1"
  by (cases p) auto

lemma prod_step_inv:
  assumes inv: "conc_inv s"
  shows "conc_inv (prod_step (producer s) s)"
proof -
  let ?q = "shared s"
  have wf: "queue_wf ?q" and d: "overflow ?q = DropAll" and co: "cons_ok (consumer s) ?q"
    and po: "prod_ok (producer s) ?q" and g: "got s @ entries ?q = sent s"
    using inv by (simp_all add: conc_inv_def)
  obtain arr where a: "log_array ?q = Some arr" using inv by (auto simp: conc_inv_def)
  show ?thesis
  proof (cases "producer s")
    case (P_write e ch)
    with po have ch: "ch = head ?q" and room: "room ?q" by simp_all
    note w = write_slot [OF wf a, of e]
    have "cons_ok (consumer s) (?q\<lparr>log_array := Some (arr[unat (head ?q) := e])\<rparr>)"
      using co w(4) a by (cases "consumer s") auto
    then show ?thesis
      using P_write w(1-3) g d ch room a
      by (simp add: conc_inv_def room_def next_slot_def)
  next
    case (P_publish e ch)
    with po a have ch: "ch = head ?q" and room: "room ?q" and e: "arr ! unat (head ?q) = e"
      by auto
    note p = publish_slot [OF wf a room e]
    have "cons_ok (consumer s) (?q\<lparr>head := next_slot ?q (head ?q)\<rparr>)"
      using co room by (cases "consumer s") (auto simp: room_def)
    with P_publish p g d ch a show ?thesis by (simp add: conc_inv_def)
  qed (use inv in \<open>auto simp: conc_inv_def room_def next_slot_def Let_def split: OverflowProfile.splits\<close>)
qed

lemma cons_step_inv:
  assumes inv: "conc_inv s"
  shows "conc_inv (cons_step (consumer s) s)"
proof -
  let ?q = "shared s"
  have wf: "queue_wf ?q" and d: "overflow ?q = DropAll" and co: "cons_ok (consumer s) ?q"
    and po: "prod_ok (producer s) ?q" and g: "got s @ entries ?q = sent s"
    using inv by (simp_all add: conc_inv_def)
  obtain arr where a: "log_array ?q = Some arr" using inv by (auto simp: conc_inv_def)
  show ?thesis
  proof (cases "consumer s")
    case (C_release ct e)
    with co a have ct: "ct = tail ?q" and ne: "tail ?q \<noteq> head ?q" and e: "arr ! unat (tail ?q) = e"
      by auto
    note r = release_slot [OF wf a ne]
    have "prod_ok (producer s) (?q\<lparr>tail := next_slot ?q (tail ?q)\<rparr>)"
      by (rule prod_ok_head_only [OF po _ _ r(3)]) simp_all
    with C_release r(1,2) g d ct a e show ?thesis by (simp add: conc_inv_def)
  qed (use inv in \<open>auto simp: conc_inv_def Let_def\<close>)
qed

lemma cstep_inv: "cstep s s' \<Longrightarrow> conc_inv s \<Longrightarrow> conc_inv s'"
proof (induction rule: cstep.induct)
  case (Producer s)
  then show ?case by (intro prod_step_inv)
next
  case (Consumer s)
  then show ?case by (intro cons_step_inv)
qed (simp_all add: conc_inv_def)

lemma csteps_inv: "csteps s s' \<Longrightarrow> conc_inv s \<Longrightarrow> conc_inv s'"
  by (induction rule: rtranclp_induct) (auto intro: cstep_inv)

section \<open>The busy wait that nothing ends\<close>

text \<open>
  The producer saw a full queue, and the consumer drained it before the producer's second
  look at the tail: head and tail are equal, the consumer finds nothing to take, and the
  wait \<open>while (current_head == tail)\<close> waits for a tail that no one will move.
\<close>

fun consumer_passive :: "cpc \<Rightarrow> LogQueue \<Rightarrow> bool" where
  "consumer_passive (C_tail ct) q \<longleftrightarrow> ct = head q"
| "consumer_passive (C_recheck ct) q \<longleftrightarrow> False"
| "consumer_passive (C_read ct) q \<longleftrightarrow> False"
| "consumer_passive (C_release ct e) q \<longleftrightarrow> False"
| "consumer_passive _ q \<longleftrightarrow> True"

definition stuck_spin :: "LogEntry \<Rightarrow> size_t \<Rightarrow> conc \<Rightarrow> bool" where
  "stuck_spin e ch s \<longleftrightarrow>
     producer s = P_spin e ch \<and> head (shared s) = ch \<and> tail (shared s) = ch \<and>
     consumer_passive (consumer s) (shared s)"

lemma stuck_spin_prod: "stuck_spin e ch s \<Longrightarrow> stuck_spin e ch (prod_step (producer s) s)"
  by (simp add: stuck_spin_def)

lemma stuck_spin_cons: "stuck_spin e ch s \<Longrightarrow> stuck_spin e ch (cons_step (consumer s) s)"
  by (cases "consumer s") (auto simp: stuck_spin_def Let_def)

lemma passive_finish: "consumer_passive c (set_finished q) = consumer_passive c q"
  by (cases c) simp_all

lemma stuck_spin_step: "cstep s s' \<Longrightarrow> stuck_spin e ch s \<Longrightarrow> stuck_spin e ch s'"
proof (induction rule: cstep.induct)
  case (Producer s)
  then show ?case by (intro stuck_spin_prod)
next
  case (Consumer s)
  then show ?case by (intro stuck_spin_cons)
qed (auto simp: stuck_spin_def passive_finish)

lemma stuck_spin_forever: "csteps s s' \<Longrightarrow> stuck_spin e ch s \<Longrightarrow> stuck_spin e ch s'"
  by (induction rule: rtranclp_induct) (auto intro: stuck_spin_step)

text \<open>A schedule: which thread moves, and what it calls when it is idle.\<close>

datatype move = M_push LogEntry | M_prod | M_pop | M_cons

fun do_move :: "move \<Rightarrow> conc \<Rightarrow> conc option" where
  "do_move (M_push e) s =
     (if producer s = P_idle then Some (s\<lparr>producer := P_start e\<rparr>) else None)"
| "do_move M_prod s =
     (if producer s \<noteq> P_idle then Some (prod_step (producer s) s) else None)"
| "do_move M_pop s =
     (if consumer s = C_idle then Some (s\<lparr>consumer := C_start\<rparr>) else None)"
| "do_move M_cons s =
     (if consumer s \<noteq> C_idle then Some (cons_step (consumer s) s) else None)"

fun do_moves :: "move list \<Rightarrow> conc \<Rightarrow> conc option" where
  "do_moves [] s = Some s"
| "do_moves (m # ms) s = Option.bind (do_move m s) (do_moves ms)"

lemma do_move_step: "do_move m s = Some s' \<Longrightarrow> cstep s s'"
  by (cases m) (auto split: if_splits intro: cstep.intros)

lemma do_moves_steps: "do_moves ms s = Some s' \<Longrightarrow> csteps s s'"
proof (induction ms arbitrary: s)
  case Nil
  then show ?case by simp
next
  case (Cons m ms)
  from Cons.prems obtain s1 where "do_move m s = Some s1" "do_moves ms s1 = Some s'"
    by (auto simp: bind_eq_Some_conv)
  with Cons.IH do_move_step show ?case by (meson converse_rtranclp_into_rtranclp)
qed

text \<open>The schedule of the livelock on a two-slot ring that holds one entry.\<close>

definition two_slots :: "OverflowProfile \<Rightarrow> LogQueue" where
  "two_slots prof =
     \<lparr>log_array = Some [entry_no 1 Info, zero_entry], tail = 0, is_running = True,
      MaxCapacity = 58, HighWatermark = 1, LowWatermark = 0, CapacityMask = 1,
      high_watermark_tripped = False, overflow = prof, head = 1, head_waiter = False,
      slab_pool = SlabPool_ctor 4 1\<rparr>"

definition spin_schedule :: "move list" where
  "spin_schedule =
     [M_push (entry_no 2 Info), M_prod, M_prod, M_prod,
      M_pop, M_cons, M_cons, M_cons, M_cons, M_cons, M_cons, M_cons, M_cons]"

lemma two_slots_wf: "queue_wf (two_slots prof)"
proof -
  have "ring_ok 1 [entry_no 1 Info, zero_entry] (two_slots prof)"
    by (simp add: ring_ok_def two_slots_def)
  then show ?thesis by (auto simp: queue_wf_def two_slots_def)
qed

lemma spin_schedule_stuck:
  "\<exists>s. do_moves spin_schedule (conc_init (two_slots Block) Telemetry_init) = Some s \<and>
     stuck_spin (entry_no 2 Info) 1 s"
  by (simp add: spin_schedule_def conc_init_def two_slots_def next_slot_def stuck_spin_def Let_def)

section \<open>Properties\<close>

text \<open>
  Under every interleaving of one producer, one consumer and a stopping thread, the
  dropping profile delivers what it published, in order and once: the entries taken so far
  followed by those in the ring are the entries published so far. And the accesses to the
  array never collide: when the producer is about to write a slot, the consumer is not
  about to read that slot.
\<close>

theorem spsc_queue_is_fifo:
  assumes "queue_wf q" and "log_array q \<noteq> None" and "overflow q = DropAll"
    and "csteps (conc_init q t) s"
  shows "got s @ entries (shared s) = sent s \<and> queue_wf (shared s) \<and>
     (\<forall>e ch ct. producer s = P_write e ch \<and> consumer s = C_read ct \<longrightarrow> ch \<noteq> ct)"
proof -
  have inv: "conc_inv s"
    using csteps_inv [OF assms(4) conc_init_inv [OF assms(1-3)]] .
  have "ch \<noteq> ct" if "producer s = P_write e ch" "consumer s = C_read ct" for e ch ct
    using inv that by (auto simp: conc_inv_def)
  then have "\<forall>e ch ct. producer s = P_write e ch \<and> consumer s = C_read ct \<longrightarrow> ch \<noteq> ct"
    by blast
  moreover have "got s @ entries (shared s) = sent s" "queue_wf (shared s)"
    using inv by (simp_all add: conc_inv_def)
  ultimately show ?thesis by blast
qed

theorem spsc_queue_is_fifo_witness:
  "\<exists>s. csteps (conc_init (two_slots DropAll) Telemetry_init) s \<and> consumer s = C_count 0 \<and>
     got s = [entry_no 1 Info] \<and> got s @ entries (shared s) = sent s"
proof -
  obtain s where m: "do_moves [M_pop, M_cons, M_cons, M_cons, M_cons, M_cons, M_cons]
      (conc_init (two_slots DropAll) Telemetry_init) = Some s"
    and s: "consumer s = C_count 0" "got s = [entry_no 1 Info]"
    by (simp add: conc_init_def two_slots_def)
  have "csteps (conc_init (two_slots DropAll) Telemetry_init) s"
    using m by (rule do_moves_steps)
  moreover have "log_array (two_slots DropAll) \<noteq> None" "overflow (two_slots DropAll) = DropAll"
    by (simp_all add: two_slots_def)
  ultimately show ?thesis
    using spsc_queue_is_fifo [OF two_slots_wf, of DropAll Telemetry_init s] s
    by (intro exI [of _ s]) simp
qed

text \<open>
  C25. With the profile \<open>Block\<close> the producer can hang: a reachable state of a two-slot ring
  (one entry queued, one push, one pop) has the producer in its busy wait, and in every
  state that can follow, whatever the threads do and even after \<open>set_finished\<close>, it is still
  in that wait.
\<close>

theorem block_profile_can_hang:
  "\<exists>s. csteps (conc_init (two_slots Block) Telemetry_init) s \<and>
     Collect (csteps s) \<subseteq> {s'. producer s' = P_spin (entry_no 2 Info) 1}"
proof -
  obtain s where m: "do_moves spin_schedule (conc_init (two_slots Block) Telemetry_init) = Some s"
    and st: "stuck_spin (entry_no 2 Info) 1 s"
    using spin_schedule_stuck by blast
  have "producer s' = P_spin (entry_no 2 Info) 1" if "csteps s s'" for s'
    using stuck_spin_forever [OF that st] by (simp add: stuck_spin_def)
  then have "Collect (csteps s) \<subseteq> {s'. producer s' = P_spin (entry_no 2 Info) 1}" by auto
  then show ?thesis using do_moves_steps [OF m] by (intro exI [of _ s]) simp
qed

end
