(* ===== verification/Log_Queue_RA.thy ===== *)
theory Log_Queue_RA
  imports Log_Queue_Conc
begin

text \<open>
  The queue under the C++ memory model. The steps are those of \<open>Log_Queue_Conc\<close>, but a load of
  the other thread's index returns any message of its modification order that is not older than
  the one read before (coherence), and what it lets the reader know is what the release store
  carries. The slots are plain memory: an access that does not happen after every conflicting
  access of the other thread is a data race, so undefined behaviour. Each thread's accesses
  to the slots are numbered, and what one thread knows of the other is a number of accesses.

  Each index is stored by one thread only, so its own relaxed load returns the last store. The
  accesses to \<open>is_running\<close> are sequentially consistent, the counters and the watermark flag are
  changed by atomic exchanges that nothing else depends on, and the constructor happens before
  both threads start.
\<close>

section \<open>Messages, views and races\<close>

text \<open>A release store: the value, and how many slot accesses the storing thread had made.\<close>

record message =
  stored :: size_t
  stamp :: nat

record weak =
  now :: conc
  head_stores :: "message list"
  tail_stores :: "message list"
  p_seen :: nat
  p_knows :: nat
  p_time :: nat
  c_seen :: nat
  c_knows :: nat
  c_time :: nat
  written :: "nat \<Rightarrow> nat"
  taken :: "nat \<Rightarrow> nat"
  race :: bool

text \<open>Acquire loads of the message \<open>k\<close>, and release stores.\<close>

definition acquire_tail :: "nat \<Rightarrow> weak \<Rightarrow> weak" where
  "acquire_tail k w = w\<lparr>p_seen := k, p_knows := max (p_knows w) (stamp (tail_stores w ! k))\<rparr>"

definition acquire_head :: "nat \<Rightarrow> weak \<Rightarrow> weak" where
  "acquire_head k w = w\<lparr>c_seen := k, c_knows := max (c_knows w) (stamp (head_stores w ! k))\<rparr>"

definition release_head :: "size_t \<Rightarrow> weak \<Rightarrow> weak" where
  "release_head v w = w\<lparr>head_stores := head_stores w @ [\<lparr>stored = v, stamp = p_time w\<rparr>]\<rparr>"

definition release_tail :: "size_t \<Rightarrow> weak \<Rightarrow> weak" where
  "release_tail v w = w\<lparr>tail_stores := tail_stores w @ [\<lparr>stored = v, stamp = c_time w\<rparr>]\<rparr>"

text \<open>The accesses to slot \<open>i\<close>: a race unless the last conflicting access is known.\<close>

definition slot_written :: "nat \<Rightarrow> weak \<Rightarrow> weak" where
  "slot_written i w =
     w\<lparr>race := race w \<or> p_knows w < taken w i, p_time := p_time w + 1, written := (written w)(i := p_time w + 1)\<rparr>"

definition slot_read :: "nat \<Rightarrow> weak \<Rightarrow> weak" where
  "slot_read i w =
     w\<lparr>race := race w \<or> c_knows w < written w i, c_time := c_time w + 1, taken := (taken w)(i := c_time w + 1)\<rparr>"

section \<open>Steps\<close>

text \<open>What each step does to the memory; \<open>k\<close> is the message an acquire load of the step returns.\<close>

fun prod_memory :: "ppc \<Rightarrow> nat \<Rightarrow> weak \<Rightarrow> weak" where
  "prod_memory (P_head e ch) k w = acquire_tail k w"
| "prod_memory (P_spin e ch) k w = acquire_tail k w"
| "prod_memory (P_mark nh) k w = acquire_tail k w"
| "prod_memory (P_write e ch) k w = slot_written (unat ch) w"
| "prod_memory (P_publish e ch) k w = release_head (next_slot (shared (now w)) ch) w"
| "prod_memory _ k w = w"

fun cons_memory :: "cpc \<Rightarrow> nat \<Rightarrow> weak \<Rightarrow> weak" where
  "cons_memory (C_tail ct) k w = acquire_head k w"
| "cons_memory (C_mark ct) k w = acquire_head k w"
| "cons_memory (C_read ct) k w = slot_read (unat ct) w"
| "cons_memory (C_release ct e) k w = release_tail (next_slot (shared (now w)) ct) w"
| "cons_memory _ k w = w"

text \<open>The steps that load the other thread's index, and a step in which that load returns \<open>v\<close>.\<close>

fun loads_tail :: "ppc \<Rightarrow> bool" where
  "loads_tail (P_head e ch) \<longleftrightarrow> True"
| "loads_tail (P_spin e ch) \<longleftrightarrow> True"
| "loads_tail (P_mark nh) \<longleftrightarrow> True"
| "loads_tail _ \<longleftrightarrow> False"

fun loads_head :: "cpc \<Rightarrow> bool" where
  "loads_head (C_tail ct) \<longleftrightarrow> True"
| "loads_head (C_mark ct) \<longleftrightarrow> True"
| "loads_head _ \<longleftrightarrow> False"

definition loading_tail :: "size_t \<Rightarrow> (conc \<Rightarrow> conc) \<Rightarrow> conc \<Rightarrow> conc" where
  "loading_tail v step s =
     (let s1 = step (s\<lparr>shared := (shared s)\<lparr>tail := v\<rparr>\<rparr>)
      in s1\<lparr>shared := (shared s1)\<lparr>tail := tail (shared s)\<rparr>\<rparr>)"

definition loading_head :: "size_t \<Rightarrow> (conc \<Rightarrow> conc) \<Rightarrow> conc \<Rightarrow> conc" where
  "loading_head v step s =
     (let s1 = step (s\<lparr>shared := (shared s)\<lparr>head := v\<rparr>\<rparr>)
      in s1\<lparr>shared := (shared s1)\<lparr>head := head (shared s)\<rparr>\<rparr>)"

definition prod_weak :: "nat \<Rightarrow> weak \<Rightarrow> weak" where
  "prod_weak k w =
     (let s = now w; p = producer s
      in (prod_memory p k w)\<lparr>now :=
           if loads_tail p then loading_tail (stored (tail_stores w ! k)) (prod_step p) s else prod_step p s\<rparr>)"

definition cons_weak :: "nat \<Rightarrow> weak \<Rightarrow> weak" where
  "cons_weak k w =
     (let s = now w; c = consumer s
      in (cons_memory c k w)\<lparr>now :=
           if loads_head c then loading_head (stored (head_stores w ! k)) (cons_step c) s else cons_step c s\<rparr>)"

text \<open>
  \<open>Look\<close> is the consumer thread's own load of the head between two calls of \<open>pop\<close>, before and in
  \<open>head.wait\<close>.
\<close>

inductive ra_step :: "weak \<Rightarrow> weak \<Rightarrow> bool" where
  Call_push: "producer (now w) = P_idle \<Longrightarrow> ra_step w (w\<lparr>now := (now w)\<lparr>producer := P_start e\<rparr>\<rparr>)"
| Producer: "producer (now w) \<noteq> P_idle \<Longrightarrow> p_seen w \<le> k \<Longrightarrow> k < length (tail_stores w) \<Longrightarrow>
    ra_step w (prod_weak k w)"
| Call_pop: "consumer (now w) = C_idle \<Longrightarrow> ra_step w (w\<lparr>now := (now w)\<lparr>consumer := C_start\<rparr>\<rparr>)"
| Consumer: "consumer (now w) \<noteq> C_idle \<Longrightarrow> c_seen w \<le> k \<Longrightarrow> k < length (head_stores w) \<Longrightarrow>
    ra_step w (cons_weak k w)"
| Look: "consumer (now w) = C_idle \<Longrightarrow> c_seen w \<le> k \<Longrightarrow> k < length (head_stores w) \<Longrightarrow>
    ra_step w (acquire_head k w)"
| Finish: "ra_step w (w\<lparr>now := (now w)\<lparr>shared := set_finished (shared (now w))\<rparr>\<rparr>)"

abbreviation ra_steps :: "weak \<Rightarrow> weak \<Rightarrow> bool" where
  "ra_steps \<equiv> ra_step\<^sup>*\<^sup>*"

text \<open>Both threads start after the constructor, whose accesses and stores they know.\<close>

definition weak_init :: "LogQueue \<Rightarrow> Telemetry \<Rightarrow> weak" where
  "weak_init q t =
     \<lparr>now = conc_init q t,
      head_stores = [\<lparr>stored = head q, stamp = 0\<rparr>], tail_stores = [\<lparr>stored = tail q, stamp = 0\<rparr>],
      p_seen = 0, p_knows = 0, p_time = 0, c_seen = 0, c_knows = 0, c_time = 0,
      written = (\<lambda>i. 0), taken = (\<lambda>i. 0), race = False\<rparr>"

section \<open>The invariant\<close>

text \<open>
  Counted from \<open>b\<close> on, the \<open>n\<close> stores to an index are the following slots in turn, and each lets
  its reader know as many slot accesses as there were stores. An access numbered \<open>j\<close> was to the
  \<open>j\<close>th slot.
\<close>

definition stores_ok :: "nat \<Rightarrow> nat \<Rightarrow> message list \<Rightarrow> nat \<Rightarrow> bool" where
  "stores_ok N b ms n \<longleftrightarrow>
     length ms = Suc n \<and> (\<forall>k<Suc n. unat (stored (ms ! k)) = (b + k) mod N \<and> stamp (ms ! k) = k)"

definition slots_ok :: "nat \<Rightarrow> nat \<Rightarrow> (nat \<Rightarrow> nat) \<Rightarrow> nat \<Rightarrow> bool" where
  "slots_ok N b f n \<longleftrightarrow> (\<forall>i. f i = 0 \<or> f i \<le> n \<and> (b + f i - 1) mod N = i)"

fun p_checked :: "ppc \<Rightarrow> nat" where
  "p_checked (P_recheck e ch) = 1"
| "p_checked (P_write e ch) = 1"
| "p_checked (P_publish e ch) = 1"
| "p_checked _ = 0"

fun c_checked :: "cpc \<Rightarrow> nat" where
  "c_checked (C_recheck ct) = 1"
| "c_checked (C_read ct) = 1"
| "c_checked (C_release ct e) = 1"
| "c_checked _ = 0"

fun p_pending :: "ppc \<Rightarrow> nat" where
  "p_pending (P_publish e ch) = 1"
| "p_pending _ = 0"

fun c_pending :: "cpc \<Rightarrow> nat" where
  "c_pending (C_release ct e) = 1"
| "c_pending _ = 0"

text \<open>
  The queue started with the tail at slot \<open>t0\<close> and \<open>c0\<close> entries in its array of length \<open>N\<close>. The
  producer's view of the tail is behind, but less than \<open>N\<close> entries behind what it published; the
  consumer's view of the head is behind, but not behind what the consumer took.
\<close>

definition ring_inv :: "nat \<Rightarrow> nat \<Rightarrow> nat \<Rightarrow> conc \<Rightarrow> bool" where
  "ring_inv N t0 c0 s \<longleftrightarrow>
     conc_inv s \<and> 2 \<le> N \<and>
     map_option length (log_array (shared s)) = Some N \<and> c0 \<le> length (sent s) \<and>
     unat (tail (shared s)) = (t0 + length (got s)) mod N \<and>
     unat (head (shared s)) = (t0 + length (sent s)) mod N"

definition p_inv :: "nat \<Rightarrow> nat \<Rightarrow> nat \<Rightarrow> weak \<Rightarrow> bool" where
  "p_inv N t0 c0 w \<longleftrightarrow>
     p_seen w \<le> length (got (now w)) \<and> p_knows w = p_seen w \<and>
     length (sent (now w)) + p_checked (producer (now w)) < p_seen w + N \<and>
     p_time w = length (sent (now w)) - c0 + p_pending (producer (now w)) \<and>
     stores_ok N (t0 + c0) (head_stores w) (length (sent (now w)) - c0) \<and>
     slots_ok N (t0 + c0) (written w) (p_time w)"

definition c_inv :: "nat \<Rightarrow> nat \<Rightarrow> nat \<Rightarrow> weak \<Rightarrow> bool" where
  "c_inv N t0 c0 w \<longleftrightarrow>
     c_seen w \<le> length (sent (now w)) - c0 \<and> c_knows w = c_seen w \<and>
     length (got (now w)) + c_checked (consumer (now w)) \<le> c0 + c_seen w \<and>
     c_time w = length (got (now w)) + c_pending (consumer (now w)) \<and>
     stores_ok N t0 (tail_stores w) (length (got (now w))) \<and>
     slots_ok N t0 (taken w) (c_time w)"

definition ra_inv :: "nat \<Rightarrow> nat \<Rightarrow> nat \<Rightarrow> weak \<Rightarrow> bool" where
  "ra_inv N t0 c0 w \<longleftrightarrow> ring_inv N t0 c0 (now w) \<and> p_inv N t0 c0 w \<and> c_inv N t0 c0 w \<and> \<not> race w"

text \<open>Arithmetic of positions: two of them less than a round apart are the same slot only when equal.\<close>

lemma mod_eq_near: "(b + x) mod N = (b + y) mod N \<Longrightarrow> x \<le> y \<Longrightarrow> y < x + N \<Longrightarrow> x = (y :: nat)"
proof -
  assume m: "(b + x) mod N = (b + y) mod N" and xy: "x \<le> y" "y < x + N"
  then have "(b + y - (b + x)) mod N = 0" using mod_eq_dvd_iff_nat [of "b + x" "b + y" N] by simp
  then have "(y - x) mod N = 0" by simp
  with xy show "x = y" by simp
qed

lemma stores_ok_append:
  "stores_ok N b ms n \<Longrightarrow> unat (stored m) = (b + Suc n) mod N \<Longrightarrow> stamp m = Suc n \<Longrightarrow> stores_ok N b (ms @ [m]) (Suc n)"
  by (auto simp: stores_ok_def nth_append less_Suc_eq)

lemma slots_okD: "slots_ok N b f n \<Longrightarrow> f i = 0 \<or> f i \<le> n \<and> (b + f i - 1) mod N = i"
  by (simp add: slots_ok_def)

lemma slots_ok_update:
  assumes ok: "slots_ok N b f n" and i: "i = (b + n) mod N"
  shows "slots_ok N b (f(i := n + 1)) (n + 1)"
  unfolding slots_ok_def
proof
  fix j
  have "f j = 0 \<or> f j \<le> n \<and> (b + f j - 1) mod N = j" using ok by (simp add: slots_ok_def)
  then show "(f(i := n + 1)) j = 0 \<or> (f(i := n + 1)) j \<le> n + 1 \<and> (b + (f(i := n + 1)) j - 1) mod N = j"
    using i by (cases "j = i") auto
qed

lemma slots_ok_mono: "slots_ok N b f n \<Longrightarrow> n \<le> m \<Longrightarrow> slots_ok N b f m"
  unfolding slots_ok_def by (meson le_trans)

lemma entries_counted:
  assumes "ring_inv N t0 c0 s"
  shows "length (got s) \<le> length (sent s)" and "length (sent s) < length (got s) + N"
proof -
  obtain arr where a: "log_array (shared s) = Some arr" "length arr = N" and "2 \<le> N"
    using assms by (auto simp: ring_inv_def)
  then have "length (entries (shared s)) < N" by (simp add: entries_def ring_count_less)
  moreover have "length (sent s) = length (got s) + length (entries (shared s))"
    using assms by (metis conc_inv_def length_append ring_inv_def)
  ultimately show "length (got s) \<le> length (sent s)" "length (sent s) < length (got s) + N" by simp_all
qed

lemma next_slot_unat:
  assumes "ring_inv N t0 c0 s" and "unat i < N"
  shows "unat (next_slot (shared s) i) = Suc (unat i) mod N"
proof -
  obtain arr n where ok: "ring_ok n arr (shared s)" and l: "length arr = N"
    using assms(1) by (auto simp: ring_inv_def conc_inv_def queue_wf_def split: option.splits)
  show ?thesis
    using unat_succ_mask [of n i] ok l assms(2) by (simp add: ring_ok_def next_slot_def)
qed

text \<open>A tail that is not behind the slot to be written leaves room, whichever message it is.\<close>

lemma stale_tail_room:
  assumes r: "ring_inv N t0 c0 s" and ch: "ch = head (shared s)"
    and k: "k \<le> length (got s)" "length (sent s) < k + N" and v: "unat v = (t0 + k) mod N"
    and ne: "next_slot (shared s) ch \<noteq> v"
  shows "room (shared s)" and "length (sent s) + 1 < k + N"
proof -
  note n = entries_counted [OF r]
  have b: "2 \<le> N" and h: "unat (head (shared s)) = (t0 + length (sent s)) mod N"
    and t: "unat (tail (shared s)) = (t0 + length (got s)) mod N" using r by (simp_all add: ring_inv_def)
  have nx: "unat (next_slot (shared s) ch) = (t0 + (length (sent s) + 1)) mod N"
    using next_slot_unat [OF r, of ch] ch h b by (simp add: mod_Suc_eq)
  have "(t0 + (length (sent s) + 1)) mod N \<noteq> (t0 + k) mod N"
    using ne v nx by (metis word_unat_eq_iff)
  then have "length (sent s) + 1 \<noteq> k + N" by (metis add.assoc mod_add_self2)
  then show lt: "length (sent s) + 1 < k + N" using k by linarith
  have "(t0 + (length (sent s) + 1)) mod N \<noteq> (t0 + length (got s)) mod N"
    using mod_eq_near [of t0 "length (got s)" N "length (sent s) + 1"] n k lt by linarith
  then show "room (shared s)" using nx ch t unfolding room_def by metis
qed

text \<open>A head other than the consumer's tail is ahead of it.\<close>

lemma stale_head_entry:
  assumes r: "ring_inv N t0 c0 s" and k: "length (got s) \<le> c0 + k" "k \<le> length (sent s) - c0"
    and v: "unat v = (t0 + c0 + k) mod N" and ne: "tail (shared s) \<noteq> v"
  shows "tail (shared s) \<noteq> head (shared s)" and "length (got s) + 1 \<le> c0 + k"
proof -
  note n = entries_counted [OF r]
  have c0: "c0 \<le> length (sent s)" and h: "unat (head (shared s)) = (t0 + length (sent s)) mod N"
    and t: "unat (tail (shared s)) = (t0 + length (got s)) mod N" using r by (simp_all add: ring_inv_def)
  have "length (got s) \<noteq> c0 + k" using ne v t by (metis add.assoc word_unat_eq_iff)
  then show lt: "length (got s) + 1 \<le> c0 + k" using k(1) by linarith
  have "(t0 + length (got s)) mod N \<noteq> (t0 + length (sent s)) mod N"
    using mod_eq_near [of t0 "length (got s)" N "length (sent s)"] n k lt c0 by linarith
  then show "tail (shared s) \<noteq> head (shared s)" using h t by metis
qed

text \<open>The loads of the other index only move the program counter.\<close>

lemma load_tail_steps:
  "overflow (shared s) = DropAll \<Longrightarrow>
    loading_tail v (prod_step (P_head e ch)) s =
      s\<lparr>producer := if next_slot (shared s) ch = v then P_idle else P_recheck e ch\<rparr>"
  "\<exists>b. loading_tail v (prod_step (P_mark nh)) s =
    s\<lparr>shared := (shared s)\<lparr>high_watermark_tripped := b\<rparr>, producer := P_idle\<rparr>"
proof -
  show "overflow (shared s) = DropAll \<Longrightarrow> loading_tail v (prod_step (P_head e ch)) s =
      s\<lparr>producer := if next_slot (shared s) ch = v then P_idle else P_recheck e ch\<rparr>"
    by (simp add: loading_tail_def next_slot_def)
  show "\<exists>b. loading_tail v (prod_step (P_mark nh)) s =
      s\<lparr>shared := (shared s)\<lparr>high_watermark_tripped := b\<rparr>, producer := P_idle\<rparr>"
    by (rule exI [of _ "high_watermark_tripped (shared (loading_tail v (prod_step (P_mark nh)) s))"])
      (simp add: loading_tail_def Let_def)
qed

lemma load_head_steps:
  "loading_head v (cons_step (C_tail ct)) s = s\<lparr>consumer := if ct = v then C_idle else C_recheck ct\<rparr>"
  "\<exists>b. loading_head v (cons_step (C_mark ct)) s =
    s\<lparr>shared := (shared s)\<lparr>high_watermark_tripped := b\<rparr>, consumer := C_idle\<rparr>"
proof -
  show "loading_head v (cons_step (C_tail ct)) s = s\<lparr>consumer := if ct = v then C_idle else C_recheck ct\<rparr>"
    by (simp add: loading_head_def)
  show "\<exists>b. loading_head v (cons_step (C_mark ct)) s =
      s\<lparr>shared := (shared s)\<lparr>high_watermark_tripped := b\<rparr>, consumer := C_idle\<rparr>"
    by (rule exI [of _ "high_watermark_tripped (shared (loading_head v (cons_step (C_mark ct)) s))"])
      (simp add: loading_head_def Let_def)
qed

lemma loaded_tail:
  assumes "c_inv N t0 c0 w" and "p_inv N t0 c0 w" and "p_seen w \<le> k" and "k < length (tail_stores w)"
  shows "k \<le> length (got (now w))" and "unat (stored (tail_stores w ! k)) = (t0 + k) mod N"
    and "max (p_knows w) (stamp (tail_stores w ! k)) = k"
  using assms by (auto simp: c_inv_def p_inv_def stores_ok_def)

lemma loaded_head:
  assumes "p_inv N t0 c0 w" and "c_inv N t0 c0 w" and "c_seen w \<le> k" and "k < length (head_stores w)"
  shows "k \<le> length (sent (now w)) - c0" and "unat (stored (head_stores w ! k)) = (t0 + c0 + k) mod N"
    and "max (c_knows w) (stamp (head_stores w ! k)) = k"
  using assms by (auto simp: c_inv_def p_inv_def stores_ok_def)

text \<open>The producer's write and its store of the head.\<close>

lemma write_no_race:
  assumes inv: "ra_inv N t0 c0 w" and pc: "producer (now w) = P_write e ch"
  shows "taken w (unat ch) \<le> p_knows w" and "unat ch = (t0 + c0 + p_time w) mod N"
proof -
  let ?S = "length (sent (now w))" and ?G = "length (got (now w))" and ?r = "taken w (unat ch)"
  have r: "ring_inv N t0 c0 (now w)" and P: "p_inv N t0 c0 w" and C: "c_inv N t0 c0 w"
    using inv by (simp_all add: ra_inv_def)
  have ch: "unat ch = (t0 + ?S) mod N" and c0: "c0 \<le> ?S"
    using r pc by (auto simp: ring_inv_def conc_inv_def)
  have pt: "p_time w = ?S - c0" and S: "?S + 1 < p_seen w + N" and pk: "p_knows w = p_seen w" "p_seen w \<le> ?G"
    using P pc by (simp_all add: p_inv_def)
  show "unat ch = (t0 + c0 + p_time w) mod N" using ch pt c0 by simp
  have G: "?G + c_pending (consumer (now w)) \<le> ?S"
    using C c0 by (cases "consumer (now w)") (auto simp: c_inv_def)
  have sl: "?r = 0 \<or> ?r \<le> ?G + c_pending (consumer (now w)) \<and> (t0 + ?r - 1) mod N = unat ch"
    using C slots_okD unfolding c_inv_def by metis
  show "?r \<le> p_knows w"
  proof (rule ccontr)
    assume "\<not> ?r \<le> p_knows w"
    then have k: "p_seen w < ?r" and rG: "?r \<le> ?S" and m: "(t0 + (?r - 1)) mod N = (t0 + ?S) mod N"
      using pk sl G ch by auto
    have "?r - 1 = ?S" by (rule mod_eq_near [OF m]) (use k rG S in linarith)+
    then show False using k rG by linarith
  qed
qed

lemma prod_weak_inv:
  assumes inv: "ra_inv N t0 c0 w" and k: "p_seen w \<le> k" "k < length (tail_stores w)"
  shows "ra_inv N t0 c0 (prod_weak k w)"
proof -
  let ?s = "now w"
  have r: "ring_inv N t0 c0 ?s" and P: "p_inv N t0 c0 w" and C: "c_inv N t0 c0 w" and nr: "\<not> race w"
    using inv by (simp_all add: ra_inv_def)
  have ci: "conc_inv ?s" and d: "overflow (shared ?s) = DropAll" and po: "prod_ok (producer ?s) (shared ?s)"
    using r by (simp_all add: ring_inv_def conc_inv_def)
  note ld = loaded_tail [OF C P k]
  have ps: "conc_inv (prod_step (producer ?s) ?s)" using prod_step_inv [OF ci] .
  show ?thesis
  proof (cases "producer ?s")
    case (P_head e ch)
    have w': "prod_weak k w = w\<lparr>p_seen := k, p_knows := k, now := ?s\<lparr>producer :=
        if next_slot (shared ?s) ch = stored (tail_stores w ! k) then P_idle else P_recheck e ch\<rparr>\<rparr>"
      using load_tail_steps(1) [OF d] by (simp add: prod_weak_def P_head acquire_tail_def ld(3))
    have S: "length (sent ?s) < k + N" using P k(1) by (simp add: p_inv_def)
    have ch: "ch = head (shared ?s)" using po P_head by simp
    note rm = stale_tail_room [OF r ch ld(1) S ld(2)]
    show ?thesis
      using r P C nr rm S ch ld(1) unfolding w'
      by (auto simp: ra_inv_def ring_inv_def conc_inv_def p_inv_def c_inv_def P_head)
  next
    case (P_mark nh)
    obtain b where "loading_tail (stored (tail_stores w ! k)) (prod_step (P_mark nh)) ?s =
        ?s\<lparr>shared := (shared ?s)\<lparr>high_watermark_tripped := b\<rparr>, producer := P_idle\<rparr>"
      using load_tail_steps(2) by blast
    then have w': "prod_weak k w = w\<lparr>p_seen := k, p_knows := k, now :=
        ?s\<lparr>shared := (shared ?s)\<lparr>high_watermark_tripped := b\<rparr>, producer := P_idle\<rparr>\<rparr>"
      by (simp add: prod_weak_def P_mark acquire_tail_def ld(3) Let_def)
    show ?thesis
      using r P C nr k ld(1) unfolding w'
      by (auto simp: ra_inv_def ring_inv_def conc_inv_def p_inv_def c_inv_def P_mark)
  next
    case (P_write e ch)
    note nrw = write_no_race [OF inv P_write]
    have w': "prod_weak k w = w\<lparr>p_time := p_time w + 1, written := (written w)(unat ch := p_time w + 1),
        now := prod_step (P_write e ch) ?s\<rparr>"
      using nrw(1) nr by (simp add: prod_weak_def P_write slot_written_def Let_def)
    have "slots_ok N (t0 + c0) ((written w)(unat ch := p_time w + 1)) (p_time w + 1)"
      by (rule slots_ok_update [OF _ nrw(2)]) (use P in \<open>unfold p_inv_def, blast\<close>)
    moreover have "ring_inv N t0 c0 (prod_step (P_write e ch) ?s)"
      using r ps P_write by (auto simp: ring_inv_def)
    ultimately show ?thesis
      using P C nr unfolding w' by (auto simp: ra_inv_def p_inv_def c_inv_def P_write)
  next
    case (P_publish e ch)
    have ch: "ch = head (shared ?s)" using po P_publish by simp
    have h: "unat ch = (t0 + length (sent ?s)) mod N" and N: "2 \<le> N" using r ch by (simp_all add: ring_inv_def)
    have nx: "unat (next_slot (shared ?s) ch) = (t0 + Suc (length (sent ?s))) mod N"
      using next_slot_unat [OF r, of ch] h N by (simp add: mod_Suc_eq)
    have c0: "c0 \<le> length (sent ?s)" using r by (simp add: ring_inv_def)
    have "stores_ok N (t0 + c0) (head_stores w @ [\<lparr>stored = next_slot (shared ?s) ch, stamp = p_time w\<rparr>])
        (Suc (length (sent ?s) - c0))"
      using P c0 nx P_publish by (intro stores_ok_append) (simp_all add: p_inv_def)
    then have "p_inv N t0 c0 (prod_weak k w)"
      using P c0 by (auto simp: prod_weak_def P_publish release_head_def p_inv_def Suc_diff_le Let_def)
    moreover have "ring_inv N t0 c0 (prod_step (P_publish e ch) ?s)"
      using r ps P_publish nx by (auto simp: ring_inv_def)
    ultimately show ?thesis
      using C nr by (auto simp: prod_weak_def P_publish release_head_def ra_inv_def c_inv_def Let_def)
  next
    case (P_spin e ch)
    then show ?thesis using po by simp
  qed (use r P C nr ps in \<open>auto simp: prod_weak_def ra_inv_def ring_inv_def p_inv_def c_inv_def Let_def\<close>)
qed

text \<open>The consumer's read and its store of the tail.\<close>

lemma read_no_race:
  assumes inv: "ra_inv N t0 c0 w" and pc: "consumer (now w) = C_read ct"
  shows "written w (unat ct) \<le> c_knows w" and "unat ct = (t0 + c_time w) mod N"
proof -
  let ?S = "length (sent (now w))" and ?G = "length (got (now w))" and ?r = "written w (unat ct)"
  have r: "ring_inv N t0 c0 (now w)" and P: "p_inv N t0 c0 w" and C: "c_inv N t0 c0 w"
    using inv by (simp_all add: ra_inv_def)
  have ct: "unat ct = (t0 + ?G) mod N" and c0: "c0 \<le> ?S"
    using r pc by (auto simp: ring_inv_def conc_inv_def)
  have G: "c_time w = ?G" "?G + 1 \<le> c0 + c_seen w" "c_knows w = c_seen w" using C pc by (simp_all add: c_inv_def)
  show "unat ct = (t0 + c_time w) mod N" using ct G by simp
  have pp: "p_pending p \<le> p_checked p" for p by (cases p) simp_all
  have S: "?S + p_pending (producer (now w)) < ?G + N"
    using P pp [of "producer (now w)"] unfolding p_inv_def by linarith
  have "?r = 0 \<or> ?r \<le> ?S - c0 + p_pending (producer (now w)) \<and> (t0 + c0 + ?r - 1) mod N = unat ct"
    using P slots_okD unfolding p_inv_def by metis
  moreover have "?r \<le> c_knows w"
    if "0 < ?r" "?r \<le> ?S - c0 + p_pending (producer (now w))" "(t0 + c0 + ?r - 1) mod N = unat ct"
  proof (rule ccontr)
    assume "\<not> ?r \<le> c_knows w"
    then have k: "c_seen w < ?r" using G(3) by simp
    have m: "(t0 + ?G) mod N = (t0 + (c0 + ?r - 1)) mod N" using that(1,3) ct by (simp add: add.assoc)
    have "?G = c0 + ?r - 1" by (rule mod_eq_near [OF m]) (use k G(2) S that c0 in linarith)+
    then show False using k G(2) that(1) by linarith
  qed
  ultimately show "?r \<le> c_knows w" by (metis bot_nat_0.not_eq_extremum le0)
qed

lemma cons_weak_inv:
  assumes inv: "ra_inv N t0 c0 w" and k: "c_seen w \<le> k" "k < length (head_stores w)"
  shows "ra_inv N t0 c0 (cons_weak k w)"
proof -
  let ?s = "now w"
  have r: "ring_inv N t0 c0 ?s" and P: "p_inv N t0 c0 w" and C: "c_inv N t0 c0 w" and nr: "\<not> race w"
    using inv by (simp_all add: ra_inv_def)
  have ci: "conc_inv ?s" and co: "cons_ok (consumer ?s) (shared ?s)"
    using r by (simp_all add: ring_inv_def conc_inv_def)
  note ld = loaded_head [OF P C k]
  have cs: "conc_inv (cons_step (consumer ?s) ?s)" using cons_step_inv [OF ci] .
  show ?thesis
  proof (cases "consumer ?s")
    case (C_tail ct)
    have w': "cons_weak k w = w\<lparr>c_seen := k, c_knows := k, now := ?s\<lparr>consumer :=
        if ct = stored (head_stores w ! k) then C_idle else C_recheck ct\<rparr>\<rparr>"
      using load_head_steps(1) by (simp add: cons_weak_def C_tail acquire_head_def ld(3))
    have ct: "ct = tail (shared ?s)" using co C_tail by simp
    have G: "length (got ?s) \<le> c0 + k" using C k(1) by (simp add: c_inv_def)
    note ne = stale_head_entry [OF r G ld(1,2)]
    show ?thesis
      using r P C nr ne G ct ld(1) unfolding w'
      by (auto simp: ra_inv_def ring_inv_def conc_inv_def p_inv_def c_inv_def C_tail)
  next
    case (C_mark ct)
    obtain b where "loading_head (stored (head_stores w ! k)) (cons_step (C_mark ct)) ?s =
        ?s\<lparr>shared := (shared ?s)\<lparr>high_watermark_tripped := b\<rparr>, consumer := C_idle\<rparr>"
      using load_head_steps(2) by blast
    then have w': "cons_weak k w = w\<lparr>c_seen := k, c_knows := k, now :=
        ?s\<lparr>shared := (shared ?s)\<lparr>high_watermark_tripped := b\<rparr>, consumer := C_idle\<rparr>\<rparr>"
      by (simp add: cons_weak_def C_mark acquire_head_def ld(3) Let_def)
    show ?thesis
      using r P C nr k ld(1) unfolding w'
      by (auto simp: ra_inv_def ring_inv_def conc_inv_def p_inv_def c_inv_def C_mark)
  next
    case (C_read ct)
    note nrr = read_no_race [OF inv C_read]
    have w': "cons_weak k w = w\<lparr>c_time := c_time w + 1, taken := (taken w)(unat ct := c_time w + 1),
        now := cons_step (C_read ct) ?s\<rparr>"
      using nrr(1) nr by (simp add: cons_weak_def C_read slot_read_def Let_def)
    have "slots_ok N t0 ((taken w)(unat ct := c_time w + 1)) (c_time w + 1)"
      by (rule slots_ok_update [OF _ nrr(2)]) (use C in \<open>unfold c_inv_def, blast\<close>)
    moreover have "ring_inv N t0 c0 (cons_step (C_read ct) ?s)"
      using r cs C_read by (auto simp: ring_inv_def)
    ultimately show ?thesis
      using P C nr unfolding w' by (auto simp: ra_inv_def p_inv_def c_inv_def C_read)
  next
    case (C_release ct e)
    have ct: "ct = tail (shared ?s)" using co C_release by simp
    have t: "unat ct = (t0 + length (got ?s)) mod N" and N: "2 \<le> N" using r ct by (simp_all add: ring_inv_def)
    have nx: "unat (next_slot (shared ?s) ct) = (t0 + Suc (length (got ?s))) mod N"
      using next_slot_unat [OF r, of ct] t N by (simp add: mod_Suc_eq)
    have "stores_ok N t0 (tail_stores w @ [\<lparr>stored = next_slot (shared ?s) ct, stamp = c_time w\<rparr>])
        (Suc (length (got ?s)))"
      using C nx C_release by (intro stores_ok_append) (simp_all add: c_inv_def)
    then have "c_inv N t0 c0 (cons_weak k w)"
      using C by (auto simp: cons_weak_def C_release release_tail_def c_inv_def Let_def)
    moreover have "ring_inv N t0 c0 (cons_step (C_release ct e) ?s)"
      using r cs C_release nx by (auto simp: ring_inv_def)
    ultimately show ?thesis
      using P nr by (auto simp: cons_weak_def C_release release_tail_def ra_inv_def p_inv_def Let_def)
  qed (use r P C nr cs in \<open>auto simp: cons_weak_def ra_inv_def ring_inv_def p_inv_def c_inv_def Let_def\<close>)
qed

lemma look_inv:
  assumes "ra_inv N t0 c0 w" and "c_seen w \<le> k" and "k < length (head_stores w)"
  shows "ra_inv N t0 c0 (acquire_head k w)"
proof -
  have "p_inv N t0 c0 w" "c_inv N t0 c0 w" using assms(1) by (simp_all add: ra_inv_def)
  note ld = loaded_head [OF this assms(2,3)]
  then have w': "acquire_head k w = w\<lparr>c_seen := k, c_knows := k\<rparr>" by (simp add: acquire_head_def)
  show ?thesis
    using assms(1,2) ld(1) unfolding w' by (auto simp: ra_inv_def p_inv_def c_inv_def)
qed

lemma finish_inv:
  "ring_inv N t0 c0 (s\<lparr>shared := set_finished (shared s)\<rparr>) = ring_inv N t0 c0 s"
  "p_inv N t0 c0 (w\<lparr>now := (now w)\<lparr>shared := set_finished (shared (now w))\<rparr>\<rparr>) = p_inv N t0 c0 w"
  "c_inv N t0 c0 (w\<lparr>now := (now w)\<lparr>shared := set_finished (shared (now w))\<rparr>\<rparr>) = c_inv N t0 c0 w"
  by (simp_all add: ring_inv_def conc_inv_def p_inv_def c_inv_def)

lemma call_inv:
  "ring_inv N t0 c0 s \<Longrightarrow> ring_inv N t0 c0 (s\<lparr>producer := P_start e\<rparr>)"
  "ring_inv N t0 c0 s \<Longrightarrow> ring_inv N t0 c0 (s\<lparr>consumer := C_start\<rparr>)"
  "producer (now w) = P_idle \<Longrightarrow> p_inv N t0 c0 (w\<lparr>now := (now w)\<lparr>producer := P_start e\<rparr>\<rparr>) = p_inv N t0 c0 w"
  "p_inv N t0 c0 (w\<lparr>now := (now w)\<lparr>consumer := C_start\<rparr>\<rparr>) = p_inv N t0 c0 w"
  "consumer (now w) = C_idle \<Longrightarrow> c_inv N t0 c0 (w\<lparr>now := (now w)\<lparr>consumer := C_start\<rparr>\<rparr>) = c_inv N t0 c0 w"
  "c_inv N t0 c0 (w\<lparr>now := (now w)\<lparr>producer := P_start e\<rparr>\<rparr>) = c_inv N t0 c0 w"
  by (simp_all add: ring_inv_def conc_inv_def p_inv_def c_inv_def)

lemma ra_step_inv: "ra_step w w' \<Longrightarrow> ra_inv N t0 c0 w \<Longrightarrow> ra_inv N t0 c0 w'"
proof (induction rule: ra_step.induct)
  case (Producer w k)
  then show ?case by (intro prod_weak_inv)
next
  case (Consumer w k)
  then show ?case by (intro cons_weak_inv)
next
  case (Look w k)
  then show ?case by (intro look_inv)
qed (simp_all add: ra_inv_def finish_inv call_inv)

lemma ra_steps_inv: "ra_steps w w' \<Longrightarrow> ra_inv N t0 c0 w \<Longrightarrow> ra_inv N t0 c0 w'"
  by (induction rule: rtranclp_induct) (auto intro: ra_step_inv)

lemma weak_init_inv:
  assumes "queue_wf q" and a: "log_array q = Some arr" and "overflow q = DropAll"
  shows "ra_inv (length arr) (unat (tail q)) (length (entries q)) (weak_init q t)"
proof -
  obtain n where ok: "ring_ok n arr q" using assms(1) a by (auto simp: queue_wf_def)
  have b: "unat (head q) < length arr" "unat (tail q) < length arr" and N: "2 \<le> length arr"
    using ok power_increasing [of 1 n "2 :: nat"] by (auto simp: ring_ok_def)
  have "0 < length arr" using N by linarith
  note ring_count_less [OF this]
  then have c: "length (entries q) < length arr" by (simp only: entries_def a option.case length_ring_list)
  have h: "(unat (tail q) + length (entries q)) mod length arr = unat (head q)"
    using ring_index_last [OF b(2,1)] by (simp add: entries_def a)
  have ci: "conc_inv (conc_init q t)" using conc_init_inv [OF assms(1) _ assms(3)] a by simp
  show ?thesis
    unfolding ra_inv_def
  proof (intro conjI)
    show "ring_inv (length arr) (unat (tail q)) (length (entries q)) (now (weak_init q t))"
      using ci a b N h by (simp add: ring_inv_def weak_init_def conc_init_def)
    show "p_inv (length arr) (unat (tail q)) (length (entries q)) (weak_init q t)"
      using c h by (simp add: p_inv_def weak_init_def conc_init_def stores_ok_def slots_ok_def)
    show "c_inv (length arr) (unat (tail q)) (length (entries q)) (weak_init q t)"
      using b by (simp add: c_inv_def weak_init_def conc_init_def stores_ok_def slots_ok_def)
  qed (simp add: weak_init_def)
qed

section \<open>Sequential consistency is a special case\<close>

text \<open>Every step of \<open>Log_Queue_Conc\<close> is a step here: the one whose load returns the last store.\<close>

definition up_to_date :: "weak \<Rightarrow> bool" where
  "up_to_date w \<longleftrightarrow>
     head_stores w \<noteq> [] \<and> tail_stores w \<noteq> [] \<and> stored (last (head_stores w)) = head (shared (now w)) \<and>
     stored (last (tail_stores w)) = tail (shared (now w)) \<and>
     p_seen w < length (tail_stores w) \<and> c_seen w < length (head_stores w)"

lemma loading_latest:
  "loads_tail p \<Longrightarrow> loading_tail (tail (shared s)) (prod_step p) s = prod_step p s"
  "loads_head c \<Longrightarrow> loading_head (head (shared s)) (cons_step c) s = cons_step c s"
  by (cases p; simp add: loading_tail_def Let_def split: OverflowProfile.split)
    (cases c; simp add: loading_head_def Let_def)

lemma acquire_now [simp]: "now (acquire_tail k w) = now w" "now (acquire_head k w) = now w"
  by (simp_all add: acquire_tail_def acquire_head_def)

lemma up_to_date_step:
  assumes "cstep (now w) s'" and "up_to_date w"
  shows "\<exists>w'. ra_step w w' \<and> now w' = s' \<and> up_to_date w'"
  using assms(1)
proof cases
  case (Call_push e)
  then show ?thesis using assms(2) ra_step.Call_push by (fastforce simp: up_to_date_def)
next
  case Producer
  let ?k = "length (tail_stores w) - 1"
  have k: "p_seen w \<le> ?k" "?k < length (tail_stores w)" and v: "stored (tail_stores w ! ?k) = tail (shared (now w))"
    using assms(2) by (auto simp: up_to_date_def last_conv_nth)
  have "now (prod_weak ?k w) = s'"
    using Producer(1) v loading_latest(1) by (simp add: prod_weak_def Let_def)
  moreover have "up_to_date (prod_weak ?k w)"
    using assms(2) v loading_latest(1) [of "producer (now w)" "now w"]
    by (cases "producer (now w)")
      (auto simp: prod_weak_def up_to_date_def acquire_tail_def slot_written_def release_head_def Let_def
        split: OverflowProfile.split)
  ultimately show ?thesis using ra_step.Producer [OF Producer(2) k] by blast
next
  case Call_pop
  then show ?thesis using assms(2) ra_step.Call_pop by (fastforce simp: up_to_date_def)
next
  case Consumer
  let ?k = "length (head_stores w) - 1"
  have k: "c_seen w \<le> ?k" "?k < length (head_stores w)" and v: "stored (head_stores w ! ?k) = head (shared (now w))"
    using assms(2) by (auto simp: up_to_date_def last_conv_nth)
  have "now (cons_weak ?k w) = s'"
    using Consumer(1) v loading_latest(2) by (simp add: cons_weak_def Let_def)
  moreover have "up_to_date (cons_weak ?k w)"
    using assms(2) v loading_latest(2) [of "consumer (now w)" "now w"]
    by (cases "consumer (now w)")
      (auto simp: cons_weak_def up_to_date_def acquire_head_def slot_read_def release_tail_def Let_def)
  ultimately show ?thesis using ra_step.Consumer [OF Consumer(2) k] by blast
next
  case Finish
  have "up_to_date (w\<lparr>now := (now w)\<lparr>shared := set_finished (shared (now w))\<rparr>\<rparr>)"
    using assms(2) by (simp add: up_to_date_def)
  then show ?thesis using ra_step.Finish [of w] Finish by fastforce
qed

lemma sc_run_is_weak_run:
  assumes "csteps (conc_init q t) s"
  shows "\<exists>w. ra_steps (weak_init q t) w \<and> now w = s \<and> up_to_date w"
  using assms
proof (induction rule: rtranclp_induct)
  case base
  have "now (weak_init q t) = conc_init q t \<and> up_to_date (weak_init q t)"
    by (simp add: up_to_date_def weak_init_def conc_init_def)
  then show ?case by blast
next
  case (step s s')
  then obtain w where w: "ra_steps (weak_init q t) w" "now w = s" "up_to_date w" by blast
  with step.hyps(2) up_to_date_step [of w s'] show ?case by (metis rtranclp.rtrancl_into_rtrancl)
qed

section \<open>Schedules\<close>

text \<open>The threads' moves, with the message that the move's acquire load returns.\<close>

datatype ra_move = R_push LogEntry | R_prod nat | R_pop | R_cons nat

fun do_ra :: "ra_move \<Rightarrow> weak \<Rightarrow> weak option" where
  "do_ra (R_push e) w =
     (if producer (now w) = P_idle then Some (w\<lparr>now := (now w)\<lparr>producer := P_start e\<rparr>\<rparr>) else None)"
| "do_ra (R_prod k) w =
     (if producer (now w) \<noteq> P_idle \<and> p_seen w \<le> k \<and> k < length (tail_stores w) then Some (prod_weak k w) else None)"
| "do_ra R_pop w =
     (if consumer (now w) = C_idle then Some (w\<lparr>now := (now w)\<lparr>consumer := C_start\<rparr>\<rparr>) else None)"
| "do_ra (R_cons k) w =
     (if consumer (now w) \<noteq> C_idle \<and> c_seen w \<le> k \<and> k < length (head_stores w) then Some (cons_weak k w) else None)"

fun do_ras :: "ra_move list \<Rightarrow> weak \<Rightarrow> weak option" where
  "do_ras [] w = Some w"
| "do_ras (m # ms) w = Option.bind (do_ra m w) (do_ras ms)"

lemma do_ra_step: "do_ra m w = Some w' \<Longrightarrow> ra_step w w'"
  by (cases m) (auto split: if_splits intro: ra_step.intros)

lemma do_ras_steps: "do_ras ms w = Some w' \<Longrightarrow> ra_steps w w'"
proof (induction ms arbitrary: w)
  case (Cons m ms)
  from Cons.prems obtain w1 where "do_ra m w = Some w1" "do_ras ms w1 = Some w'"
    by (auto simp: bind_eq_Some_conv)
  with Cons.IH do_ra_step show ?case by (meson converse_rtranclp_into_rtranclp)
qed simp

lemmas weak_run =
  weak_init_def conc_init_def two_slots_def next_slot_def prod_weak_def cons_weak_def acquire_tail_def acquire_head_def
  release_head_def release_tail_def slot_written_def slot_read_def loading_tail_def loading_head_def Let_def

section \<open>Properties\<close>

text \<open>
  C5. With the profile \<open>DropAll\<close>, under the memory model of C++, for every interleaving of one
  producer, one consumer and a stopping thread and whatever older stores their loads return: there
  is no data race, and what was published is delivered in order and once. C6 shows that the other
  profiles do not have this property.
\<close>

theorem weak_queue_is_fifo:
  assumes "queue_wf q" and "log_array q \<noteq> None" and "overflow q = DropAll"
    and "ra_steps (weak_init q t) w"
  shows "\<not> race w \<and> got (now w) @ entries (shared (now w)) = sent (now w) \<and> queue_wf (shared (now w))"
proof -
  obtain arr where "log_array q = Some arr" using assms(2) by blast
  from ra_steps_inv [OF assms(4) weak_init_inv [OF assms(1) this assms(3)]] show ?thesis
    by (auto simp: ra_inv_def ring_inv_def conc_inv_def)
qed

text \<open>A run in which the consumer has emptied the ring and the producer still takes it for full.\<close>

theorem weak_queue_is_fifo_witness:
  "\<exists>w. ra_steps (weak_init (two_slots DropAll) Telemetry_init) w \<and> producer (now w) = P_idle \<and>
     sent (now w) = [entry_no 1 Info] \<and> got (now w) = [entry_no 1 Info] \<and> entries (shared (now w)) = [] \<and> \<not> race w"
proof -
  let ?ms = "[R_pop, R_cons 0, R_cons 0, R_cons 0, R_cons 0, R_cons 0, R_cons 0, R_cons 0, R_cons 0,
    R_push (entry_no 2 Info), R_prod 0, R_prod 0, R_prod 0]"
  obtain w where m: "do_ras ?ms (weak_init (two_slots DropAll) Telemetry_init) = Some w"
    and w: "producer (now w) = P_idle" "got (now w) = [entry_no 1 Info]" "sent (now w) = entries (two_slots DropAll)"
    by (simp add: weak_run)
  have two: "log_array (two_slots DropAll) \<noteq> None" "overflow (two_slots DropAll) = DropAll"
    by (simp_all add: two_slots_def)
  have e: "entries (two_slots DropAll) = [entry_no 1 Info]"
    by code_simp
  show ?thesis
    using weak_queue_is_fifo [OF two_slots_wf two do_ras_steps [OF m]] do_ras_steps [OF m] w e
    by (intro exI [of _ w]) auto
qed

text \<open>
  C6. Every other profile has a data race: a critical entry pushed into a full ring makes it
  look empty, and the next push writes the slot that the consumer is reading.
\<close>

theorem other_profiles_race:
  assumes "prof \<noteq> DropAll"
  shows "\<exists>w. ra_steps (weak_init (two_slots prof) t) w \<and> race w"
proof -
  let ?e = "entry_no 2 Critical"
  let ?spin = "if prof = PassCriticalDropElse then [] else [R_prod 0]"
  obtain w where "do_ras ([R_pop, R_cons 0, R_cons 0, R_cons 0, R_cons 0, R_cons 0] @
      R_push ?e # replicate 3 (R_prod 0) @ ?spin @ replicate 6 (R_prod 0) @ R_push ?e # replicate 5 (R_prod 0))
      (weak_init (two_slots prof) t) = Some w" "race w"
    using assms by (cases prof) (simp_all add: weak_run entry_no_def numeral_eq_Suc)
  then show ?thesis using do_ras_steps by blast
qed

theorem other_profiles_race_witness:
  "\<exists>w. ra_steps (weak_init (two_slots Block) Telemetry_init) w \<and> race w"
  by (rule other_profiles_race) simp

end
