(* ===== verification/Slab_Log.thy ===== *)
theory Slab_Log
  imports Slab_Pool
begin

text \<open>
  What the slab pool promises its client, the parser: every block lies inside the channel
  (the locale \<open>bounded_alloc\<close>), and, for a power-of-two slab count, the blocks are the
  positions of one unbounded log taken modulo the channel's size, so a block is overwritten
  only after the cursor has gone round all slabs.
\<close>

section \<open>The allocator interface\<close>

fun run_alloc :: "(nat \<Rightarrow> 's \<Rightarrow> nat option \<times> 's) \<Rightarrow> nat list \<Rightarrow> 's \<Rightarrow> nat option list \<times> 's" where
  "run_alloc alloc [] s = ([], s)"
| "run_alloc alloc (n # ns) s =
     (let (r, s1) = alloc n s; (rs, s2) = run_alloc alloc ns s1 in (r # rs, s2))"

locale bounded_alloc =
  fixes alloc :: "nat \<Rightarrow> 's \<Rightarrow> nat option \<times> 's"
    and inv :: "'s \<Rightarrow> bool"
    and cap :: "'s \<Rightarrow> nat"
    and need :: "nat \<Rightarrow> nat"
    and lim :: nat
  assumes alloc_inv: "inv s \<Longrightarrow> n \<le> lim \<Longrightarrow> alloc n s = (r, s') \<Longrightarrow> inv s' \<and> cap s' = cap s"
    and alloc_bound: "inv s \<Longrightarrow> n \<le> lim \<Longrightarrow> alloc n s = (Some a, s') \<Longrightarrow> a + need n \<le> cap s"
    and alloc_refuse: "inv s \<Longrightarrow> n \<le> lim \<Longrightarrow> alloc n s = (None, s') \<Longrightarrow> s' = s"
begin

lemma run_inv:
  "inv s \<Longrightarrow> \<forall>n \<in> set ns. n \<le> lim \<Longrightarrow> run_alloc alloc ns s = (rs, s') \<Longrightarrow>
   inv s' \<and> cap s' = cap s \<and> length rs = length ns"
proof (induction ns arbitrary: s rs)
  case Nil
  then show ?case by simp
next
  case (Cons n ns)
  obtain r s1 where a: "alloc n s = (r, s1)" by fastforce
  obtain rs1 where r: "run_alloc alloc ns s1 = (rs1, s')" and rs: "rs = r # rs1"
    using Cons.prems(3) by (auto simp: a split: prod.splits)
  have "inv s1 \<and> cap s1 = cap s"
    using alloc_inv Cons.prems(1,2) a by auto
  with Cons.IH [OF _ _ r] Cons.prems(2) rs show ?case by auto
qed

lemma run_bounded:
  "inv s \<Longrightarrow> \<forall>n \<in> set ns. n \<le> lim \<Longrightarrow> run_alloc alloc ns s = (rs, s') \<Longrightarrow>
   i < length ns \<Longrightarrow> rs ! i = Some a \<Longrightarrow> a + need (ns ! i) \<le> cap s"
proof (induction ns arbitrary: s rs i)
  case Nil
  then show ?case by simp
next
  case (Cons n ns)
  obtain r s1 where al: "alloc n s = (r, s1)" by fastforce
  obtain rs1 where r: "run_alloc alloc ns s1 = (rs1, s')" and rs: "rs = r # rs1"
    using Cons.prems(3) by (auto simp: al split: prod.splits)
  have n: "n \<le> lim" using Cons.prems(2) by simp
  have s1: "inv s1" "cap s1 = cap s"
    using alloc_inv [OF Cons.prems(1) n al] by simp_all
  show ?case
  proof (cases i)
    case 0
    with Cons.prems(5) rs al alloc_bound [OF Cons.prems(1) n] show ?thesis by auto
  next
    case (Suc j)
    then show ?thesis
      using Cons.IH [OF s1(1) _ r, of j] Cons.prems(2,4,5) rs s1(2) by simp
  qed
qed

end

text \<open>The pool as such an allocator.\<close>

definition place :: "nat \<Rightarrow> SlabPool \<Rightarrow> nat option \<times> SlabPool" where
  "place n p =
     (case get_next_slab (word_of_nat n) p of
        (None, p') \<Rightarrow> (None, p') | (Some (pos, out), p') \<Rightarrow> (Some (unat pos), p'))"

definition max_message :: nat where
  "max_message = 2 ^ 63"

lemma place_cases:
  assumes wf: "slab_wf p" and n: "n \<le> max_message"
  shows "place n p =
     (if unat (slab_size p) < block_need n then (None, p)
      else (Some (unat (next_slab n p) * unat (slab_size p) + unat (next_offset n p)),
            p\<lparr>write_index := next_slab n p,
              current_offset := next_offset n p + word_of_nat (block_need n)\<rparr>))"
proof (cases "unat (slab_size p) < block_need n")
  case True
  moreover have "block_need n < 2 ^ 64"
    using n by (simp add: block_need_def max_message_def)
  ultimately show ?thesis
    by (simp add: place_def get_next_slab_too_big)
next
  case False
  then have fits: "block_need n \<le> unat (slab_size p)" by simp
  note g = get_next_slab_fits [OF wf fits refl]
  show ?thesis
    using False get_next_slab_position(1) [OF wf fits g] by (simp add: place_def g)
qed

lemma place_wf:
  assumes "slab_wf p" and "n \<le> max_message" and "place n p = (r, p')"
  shows "slab_wf p' \<and> channel_size p' = channel_size p"
proof (cases "unat (slab_size p) < block_need n")
  case True
  with assms show ?thesis by (simp add: place_cases)
next
  case False
  then have fits: "block_need n \<le> unat (slab_size p)" by simp
  have "slab_wf p'"
    using get_next_slab_wf [OF assms(1) fits get_next_slab_fits [OF assms(1) fits refl]]
      place_cases [OF assms(1,2)] assms(3) False by simp
  moreover have "channel_size p' = channel_size p"
    using place_cases [OF assms(1,2)] assms(3) False by (auto simp: channel_size_def)
  ultimately show ?thesis by simp
qed

lemma place_bound:
  assumes "slab_wf p" and "n \<le> max_message" and "place n p = (Some a, p')"
  shows "a + block_need n \<le> channel_size p"
proof -
  have fits: "block_need n \<le> unat (slab_size p)"
    using place_cases [OF assms(1,2)] assms(3) by (simp split: if_splits)
  note g = get_next_slab_fits [OF assms(1) fits refl]
  show ?thesis
    using get_next_slab_position(1,2) [OF assms(1) fits g] place_cases [OF assms(1,2)] assms(3) fits
    by simp
qed

interpretation slab: bounded_alloc place slab_wf channel_size block_need max_message
proof
  fix s n r s' a
  assume wf: "slab_wf s" and n: "n \<le> max_message"
  show "slab_wf s' \<and> channel_size s' = channel_size s" if "place n s = (r, s')"
    using wf n that by (rule place_wf)
  show "a + block_need n \<le> channel_size s" if "place n s = (Some a, s')"
    using wf n that by (rule place_bound)
  show "s' = s" if "place n s = (None, s')"
    using place_cases [OF wf n] that by (auto split: if_splits)
qed

section \<open>The unbounded log\<close>

text \<open>
  The abstract pool never reuses a slab: slab number \<open>k\<close> and offset \<open>off\<close>; a block that
  does not fit opens slab \<open>k + 1\<close>.
\<close>

fun log_place :: "nat \<Rightarrow> nat \<Rightarrow> nat \<times> nat \<Rightarrow> nat \<times> nat" where
  "log_place S n (k, off) = (if S < off + block_need n then (Suc k, 0) else (k, off))"

fun log_run :: "nat \<Rightarrow> nat list \<Rightarrow> nat \<times> nat \<Rightarrow> (nat \<times> nat) list" where
  "log_run S [] c = []"
| "log_run S (n # ns) c =
     (let (k, off) = log_place S n c in (k, off) # log_run S ns (k, off + block_need n))"

definition represents :: "nat \<Rightarrow> nat \<times> nat \<Rightarrow> SlabPool \<Rightarrow> bool" where
  "represents e c p \<longleftrightarrow>
     slab_wf p \<and> e < 64 \<and> max_slabs p = 2 ^ e \<and>
     unat (write_index p) = fst c mod 2 ^ e \<and> unat (current_offset p) = snd c"

lemma represents_step:
  assumes rep: "represents e c p" and fits: "block_need n \<le> unat (slab_size p)"
    and c: "log_place (unat (slab_size p)) n c = (k, off)"
  shows "unat (next_slab n p) = k mod 2 ^ e" and "unat (next_offset n p) = off"
    and "represents e (k, off + block_need n)
           (p\<lparr>write_index := next_slab n p,
              current_offset := next_offset n p + word_of_nat (block_need n)\<rparr>)"
proof -
  have wf: "slab_wf p" and e: "e < 64" and m: "max_slabs p = 2 ^ e"
    and w: "unat (write_index p) = fst c mod 2 ^ e" and o1: "unat (current_offset p) = snd c"
    using rep by (simp_all add: represents_def)
  have sw: "switches n p \<longleftrightarrow> unat (slab_size p) < snd c + block_need n"
    by (simp add: switches_def o1)
  have wl: "unat (write_index p) < 2 ^ e" by (simp add: w)
  have "unat ((write_index p + 1) AND (2 ^ e - 1)) = Suc (unat (write_index p)) mod 2 ^ e"
    using e wl by (intro unat_succ_mask) simp_all
  then have "unat ((write_index p + 1) AND (max_slabs p - 1)) = Suc (fst c) mod 2 ^ e"
    by (simp add: m w mod_Suc_eq)
  then show ns: "unat (next_slab n p) = k mod 2 ^ e"
    using c w sw by (cases c) (auto simp: next_slab_def split: if_splits)
  show no: "unat (next_offset n p) = off"
    using c o1 sw by (cases c) (auto simp: next_offset_def split: if_splits)
  note g = get_next_slab_fits [OF wf fits refl]
  have S: "unat (slab_size p) < 2 ^ 63" using wf by (simp add: slab_wf_def)
  have f: "unat (next_offset n p) + block_need n \<le> unat (slab_size p)"
    by (rule next_offset_fits) fact
  have "unat (word_of_nat (block_need n) :: size_t) = block_need n"
    using fits S by (intro unat_word_of_nat_small) simp
  then have "unat (next_offset n p + word_of_nat (block_need n)) = off + block_need n"
    using f S no by (subst unat_add_small) simp_all
  with get_next_slab_wf [OF wf fits g] ns e m
  show "represents e (k, off + block_need n)
           (p\<lparr>write_index := next_slab n p,
              current_offset := next_offset n p + word_of_nat (block_need n)\<rparr>)"
    by (simp add: represents_def)
qed

lemma log_place_offset:
  "block_need n \<le> S \<Longrightarrow> log_place S n c = (k, off) \<Longrightarrow> off + block_need n \<le> S"
  by (cases c) (auto split: if_splits)

text \<open>The physical place of a log position.\<close>

definition log_position :: "nat \<Rightarrow> nat \<Rightarrow> nat \<times> nat \<Rightarrow> nat" where
  "log_position S M c = (fst c * S + snd c) mod (S * M)"

lemma log_position_split:
  assumes "snd c < S"
  shows "log_position S M c = fst c mod M * S + snd c"
proof -
  have "(fst c * S + snd c) mod (S * M) = S * ((fst c * S + snd c) div S mod M) + (fst c * S + snd c) mod S"
    by (rule mod_mult2_eq)
  moreover have "(fst c * S + snd c) div S = fst c" and "(fst c * S + snd c) mod S = snd c"
    using assms by simp_all
  ultimately show ?thesis by (simp add: log_position_def)
qed

lemma place_run_log:
  assumes "represents e c p" and "\<forall>n \<in> set ns. block_need n \<le> unat (slab_size p)"
  shows "fst (run_alloc place ns p) =
    map (\<lambda>c. Some (log_position (unat (slab_size p)) (2 ^ e) c)) (log_run (unat (slab_size p)) ns c)"
  using assms
proof (induction ns arbitrary: c p)
  case Nil
  then show ?case by simp
next
  case (Cons n ns)
  let ?S = "unat (slab_size p)"
  have fits: "block_need n \<le> ?S" using Cons.prems(2) by simp
  obtain k off where c: "log_place ?S n c = (k, off)" by fastforce
  note st = represents_step [OF Cons.prems(1) fits c]
  have wf: "slab_wf p" using Cons.prems(1) by (simp add: represents_def)
  have n: "n \<le> max_message"
    using fits wf by (simp add: slab_wf_def max_message_def block_need_def)
  let ?p = "p\<lparr>write_index := next_slab n p,
              current_offset := next_offset n p + word_of_nat (block_need n)\<rparr>"
  have pl: "place n p = (Some (k mod 2 ^ e * ?S + off), ?p)"
    using place_cases [OF wf n] fits st(1,2) by simp
  have "off < ?S"
    using log_place_offset [OF fits c] by (simp add: block_need_def)
  then have "log_position ?S (2 ^ e) (k, off) = k mod 2 ^ e * ?S + off"
    by (simp add: log_position_split)
  moreover have "fst (run_alloc place ns ?p) =
      map (\<lambda>c. Some (log_position ?S (2 ^ e) c)) (log_run ?S ns (k, off + block_need n))"
    using Cons.IH [OF st(3)] Cons.prems(2) by simp
  ultimately show ?case
    by (simp add: pl c case_prod_beta)
qed

text \<open>Blocks of the log do not overlap, and go forward.\<close>

definition before :: "nat \<times> nat \<Rightarrow> nat \<times> nat \<Rightarrow> bool" where
  "before c d \<longleftrightarrow> fst c < fst d \<or> fst c = fst d \<and> snd c \<le> snd d"

lemma log_run_after: "d \<in> set (log_run S ns c) \<Longrightarrow> before c d"
proof (induction ns arbitrary: c)
  case Nil
  then show ?case by simp
next
  case (Cons n ns)
  obtain k off where p: "log_place S n c = (k, off)" by fastforce
  have c: "before c (k, off)"
    using p by (cases c) (auto simp: before_def split: if_splits)
  have "d = (k, off) \<or> before (k, off + block_need n) d"
    using Cons p by auto
  with c show ?case by (auto simp: before_def)
qed

lemma length_log_run [simp]: "length (log_run S ns c) = length ns"
  by (induction ns arbitrary: c) (auto simp: case_prod_beta Let_def)

lemma log_run_ordered:
  "i < j \<Longrightarrow> j < length ns \<Longrightarrow>
   before (fst (log_run S ns c ! i), snd (log_run S ns c ! i) + block_need (ns ! i))
     (log_run S ns c ! j)"
proof (induction ns arbitrary: c i j)
  case Nil
  then show ?case by simp
next
  case (Cons n ns)
  obtain k off where p: "log_place S n c = (k, off)" by fastforce
  from Cons.prems obtain j' where j: "j = Suc j'" by (cases j) auto
  show ?case
  proof (cases i)
    case 0
    have "log_run S ns (k, off + block_need n) ! j' \<in> set (log_run S ns (k, off + block_need n))"
      using Cons.prems j by (intro nth_mem) simp
    then show ?thesis
      using log_run_after 0 j p by simp
  next
    case (Suc i')
    with Cons.IH [of i' j' "(k, off + block_need n)"] Cons.prems j p show ?thesis by simp
  qed
qed

lemma log_run_fits:
  "\<forall>n \<in> set ns. block_need n \<le> S \<Longrightarrow> i < length ns \<Longrightarrow>
   snd (log_run S ns c ! i) + block_need (ns ! i) \<le> S"
proof (induction ns arbitrary: c i)
  case Nil
  then show ?case by simp
next
  case (Cons n ns)
  obtain k off where p: "log_place S n c = (k, off)" by fastforce
  show ?case
  proof (cases i)
    case 0
    with log_place_offset [OF _ p] Cons.prems(1) p show ?thesis by simp
  next
    case (Suc i')
    with Cons.IH [of i' "(k, off + block_need n)"] Cons.prems p show ?thesis by simp
  qed
qed

text \<open>
  Two blocks whose slab numbers differ by less than the slab count occupy disjoint bytes.
\<close>

lemma log_positions_disjoint:
  assumes i: "snd c + m \<le> S" and j: "snd d + n \<le> S" and m: "0 < m" and n: "0 < n"
    and ord: "before (fst c, snd c + m) d" and near: "fst d < fst c + M"
  shows "log_position S M c + m \<le> log_position S M d \<or>
         log_position S M d + n \<le> log_position S M c"
proof -
  have pc: "log_position S M c = fst c mod M * S + snd c"
    and pd: "log_position S M d = fst d mod M * S + snd d"
    using i j m n by (simp_all add: log_position_split)
  show ?thesis
  proof (cases "fst c = fst d")
    case True
    with ord show ?thesis by (simp add: pc pd before_def)
  next
    case False
    then have "fst c < fst d" using ord by (auto simp: before_def)
    have "fst c mod M \<noteq> fst d mod M"
    proof
      assume "fst c mod M = fst d mod M"
      then have "M dvd fst d - fst c"
        using \<open>fst c < fst d\<close> by (metis mod_eq_dvd_iff_nat less_imp_le)
      then have "M \<le> fst d - fst c"
        using \<open>fst c < fst d\<close> by (intro dvd_imp_le) simp_all
      with near \<open>fst c < fst d\<close> show False by simp
    qed
    then consider "Suc (fst c mod M) \<le> fst d mod M" | "Suc (fst d mod M) \<le> fst c mod M"
      by linarith
    then show ?thesis
    proof cases
      case 1
      then have "Suc (fst c mod M) * S \<le> fst d mod M * S" by (rule mult_le_mono1)
      with i show ?thesis by (simp add: pc pd)
    next
      case 2
      then have "Suc (fst d mod M) * S \<le> fst c mod M * S" by (rule mult_le_mono1)
      with j show ?thesis by (simp add: pc pd)
    qed
  qed
qed

section \<open>A slab count that is not a power of two\<close>

text \<open>
  With the default \<open>max_slabs = 10\<close> the mask is 9: the cursor alternates between slabs 0
  and 1, so the pool is an allocator of two slabs' capacity.
\<close>

definition ten_slabs :: "SlabPool \<Rightarrow> bool" where
  "ten_slabs p \<longleftrightarrow> slab_wf p \<and> max_slabs p = 10 \<and> (write_index p = 0 \<or> write_index p = 1)"

lemma ten_slabs_next: "ten_slabs p \<Longrightarrow> next_slab n p = 0 \<or> next_slab n p = 1"
  by (auto simp: ten_slabs_def next_slab_def)

lemma place_ten_slabs:
  assumes "ten_slabs p" and "n \<le> max_message" and "place n p = (r, p')"
  shows "ten_slabs p' \<and> slab_size p' = slab_size p"
proof -
  have wf: "slab_wf p" using assms(1) by (simp add: ten_slabs_def)
  have "slab_wf p'" using place_wf [OF wf assms(2,3)] by simp
  then show ?thesis
    using place_cases [OF wf assms(2)] assms ten_slabs_next [OF assms(1), of n]
    by (auto simp: ten_slabs_def split: if_splits)
qed

lemma place_ten_bound:
  assumes "ten_slabs p" and "n \<le> max_message" and "place n p = (Some a, p')"
  shows "a + block_need n \<le> 2 * unat (slab_size p)"
proof -
  have wf: "slab_wf p" using assms(1) by (simp add: ten_slabs_def)
  have fits: "block_need n \<le> unat (slab_size p)"
    and a: "a = unat (next_slab n p) * unat (slab_size p) + unat (next_offset n p)"
    using place_cases [OF wf assms(2)] assms(3) by (simp_all split: if_splits)
  have "unat (next_slab n p) \<le> 1" using ten_slabs_next [OF assms(1), of n] by auto
  then have "unat (next_slab n p) * unat (slab_size p) \<le> unat (slab_size p)"
    by (metis mult_1 mult_le_mono1)
  with next_offset_fits [OF fits] show ?thesis unfolding a by linarith
qed

interpretation ten: bounded_alloc place ten_slabs "\<lambda>p. 2 * unat (slab_size p)" block_need max_message
proof
  fix s n r s' a
  assume t: "ten_slabs s" and n: "n \<le> max_message"
  show "ten_slabs s' \<and> 2 * unat (slab_size s') = 2 * unat (slab_size s)" if "place n s = (r, s')"
    using place_ten_slabs [OF t n that] by simp
  show "a + block_need n \<le> 2 * unat (slab_size s)" if "place n s = (Some a, s')"
    using t n that by (rule place_ten_bound)
  show "s' = s" if "place n s = (None, s')"
    using place_cases [of s n] t n that by (auto simp: ten_slabs_def split: if_splits)
qed

lemma ten_slabs_ctor:
  assumes "unat (sz * 1024 * 1024) * 10 < 2 ^ 63"
  shows "ten_slabs (SlabPool_ctor 10 sz)"
proof -
  have "slab_wf (SlabPool_ctor 10 sz)"
    using assms by (intro slab_wf_ctor) simp_all
  then show ?thesis by (simp add: ten_slabs_def SlabPool_ctor_def)
qed

section \<open>Properties\<close>

text \<open>
  C20. Every block the pool hands out lies inside the channel: from a well-formed pool, over
  any sequence of message sizes, each returned offset leaves room for the header and the
  message before the end of the mapped data region.
\<close>

theorem slab_blocks_in_channel:
  assumes "slab_wf p" and "\<forall>n \<in> set ns. n \<le> max_message"
    and "run_alloc place ns p = (rs, p')" and "i < length ns" and "rs ! i = Some a"
  shows "a + sizeof_SharedLogEntryHeader + ns ! i \<le> channel_size p"
  using slab.run_bounded [OF assms] by (simp add: block_need_def)

theorem slab_blocks_in_channel_witness:
  "(0 :: nat) + sizeof_SharedLogEntryHeader + [100 :: nat, 200] ! 0
     \<le> channel_size (SlabPool_ctor 10 1)"
proof -
  let ?p = "SlabPool_ctor 10 1"
  have wf: "slab_wf ?p" by (rule slab_wf_ctor) simp_all
  obtain rs p' where r: "run_alloc place [100, 200] ?p = (rs, p')" by fastforce
  have "place 100 ?p = (Some 0, snd (place 100 ?p))"
    by (simp add: place_def get_next_slab_def SlabPool_ctor_def)
  with r have "rs ! 0 = Some 0"
    by (auto split: prod.splits)
  with wf r show ?thesis
    by (intro slab_blocks_in_channel [of ?p "[100, 200]" rs p' 0 0])
       (simp_all add: max_message_def)
qed

text \<open>
  C21. For a power-of-two slab count the pool implements an unbounded log: the offsets it
  returns for a sequence of messages are the positions of a log that never reuses a slab,
  taken modulo the channel's size.
\<close>

theorem slab_refines_log:
  assumes "slab_wf p" and "e < 64" and "max_slabs p = 2 ^ e"
    and "\<forall>n \<in> set ns. sizeof_SharedLogEntryHeader + n \<le> unat (slab_size p)"
  shows "fst (run_alloc place ns p) =
     map (\<lambda>c. Some (log_position (unat (slab_size p)) (2 ^ e) c))
       (log_run (unat (slab_size p)) ns (unat (write_index p), unat (current_offset p)))"
proof -
  have "unat (write_index p) < 2 ^ e"
    using assms(1-3) by (simp add: slab_wf_def word_less_nat_alt unat_exp_word)
  then have "represents e (unat (write_index p), unat (current_offset p)) p"
    using assms(1-3) by (simp add: represents_def)
  then show ?thesis
    using assms(4) by (intro place_run_log) (simp_all add: block_need_def)
qed

theorem slab_refines_log_witness:
  "fst (run_alloc place [1000000, 100000] (SlabPool_ctor 4 1)) =
     map (\<lambda>c. Some (log_position 1048576 4 c)) (log_run 1048576 [1000000, 100000] (0, 0))"
proof -
  have "slab_wf (SlabPool_ctor 4 1)" by (rule slab_wf_ctor) simp_all
  then show ?thesis
    using slab_refines_log [of "SlabPool_ctor 4 1" 2 "[1000000, 100000]"]
    by (simp add: SlabPool_ctor_def del: run_alloc.simps log_run.simps)
qed

text \<open>
  C22. A block survives until the cursor has gone round: with a power-of-two slab count, two
  blocks of a run occupy disjoint bytes whenever the later one was placed fewer than
  \<open>max_slabs\<close> slab switches after the earlier.
\<close>

theorem slab_no_overwrite:
  assumes "slab_wf p" and "e < 64" and "max_slabs p = 2 ^ e"
    and fits: "\<forall>n \<in> set ns. sizeof_SharedLogEntryHeader + n \<le> unat (slab_size p)"
    and "i < j" and "j < length ns"
    and slabs: "log = log_run (unat (slab_size p)) ns (unat (write_index p), unat (current_offset p))"
    and near: "fst (log ! j) < fst (log ! i) + 2 ^ e"
  shows "\<exists>a b. fst (run_alloc place ns p) ! i = Some a \<and> fst (run_alloc place ns p) ! j = Some b \<and>
     (a + sizeof_SharedLogEntryHeader + ns ! i \<le> b \<or>
      b + sizeof_SharedLogEntryHeader + ns ! j \<le> a)"
proof -
  let ?S = "unat (slab_size p)"
  have len: "length log = length ns" by (simp add: slabs)
  have fit: "\<forall>n \<in> set ns. block_need n \<le> ?S" using fits by (simp add: block_need_def)
  have r: "fst (run_alloc place ns p) = map (\<lambda>c. Some (log_position ?S (2 ^ e) c)) log"
    unfolding slabs
  proof (rule place_run_log)
    have "unat (write_index p) < 2 ^ e"
      using assms(1-3) by (simp add: slab_wf_def word_less_nat_alt unat_exp_word)
    then show "represents e (unat (write_index p), unat (current_offset p)) p"
      using assms(1-3) by (simp add: represents_def)
  qed (rule fit)
  have "log_position ?S (2 ^ e) (log ! i) + block_need (ns ! i) \<le> log_position ?S (2 ^ e) (log ! j) \<or>
        log_position ?S (2 ^ e) (log ! j) + block_need (ns ! j) \<le> log_position ?S (2 ^ e) (log ! i)"
  proof (rule log_positions_disjoint)
    show "snd (log ! i) + block_need (ns ! i) \<le> ?S" "snd (log ! j) + block_need (ns ! j) \<le> ?S"
      unfolding slabs using assms(5,6) by (simp_all add: log_run_fits [OF fit])
    show "before (fst (log ! i), snd (log ! i) + block_need (ns ! i)) (log ! j)"
      unfolding slabs by (rule log_run_ordered) fact+
    show "fst (log ! j) < fst (log ! i) + 2 ^ e" by fact
  qed (simp_all add: block_need_def)
  then show ?thesis
    using assms(5,6) len by (simp add: r block_need_def add.assoc)
qed

theorem slab_no_overwrite_witness:
  "\<exists>a b. fst (run_alloc place [10, 20] (SlabPool_ctor 4 1)) ! 0 = Some a \<and>
     fst (run_alloc place [10, 20] (SlabPool_ctor 4 1)) ! 1 = Some b \<and>
     (a + sizeof_SharedLogEntryHeader + 10 \<le> b \<or> b + sizeof_SharedLogEntryHeader + 20 \<le> a)"
proof -
  have "slab_wf (SlabPool_ctor 4 1)" by (rule slab_wf_ctor) simp_all
  then show ?thesis
    using slab_no_overwrite [of "SlabPool_ctor 4 1" 2 "[10, 20]" 0 1
        "log_run 1048576 [10, 20] (0, 0)"]
    by (simp add: SlabPool_ctor_def block_need_def del: run_alloc.simps)
qed

text \<open>
  With the configuration's default of ten slabs the pool only ever uses the first two:
  every block of every run ends within two slabs, although ten are mapped.
\<close>

theorem ten_slabs_use_two:
  assumes "unat (sz * 1024 * 1024) * 10 < 2 ^ 63" and "\<forall>n \<in> set ns. n \<le> max_message"
    and "run_alloc place ns (SlabPool_ctor 10 sz) = (rs, p')"
    and "i < length ns" and "rs ! i = Some a"
  shows "a + sizeof_SharedLogEntryHeader + ns ! i \<le> 2 * unat (slab_size (SlabPool_ctor 10 sz))"
  using ten.run_bounded [OF ten_slabs_ctor [OF assms(1)] assms(2-5)] by (simp add: block_need_def)

theorem ten_slabs_use_two_witness:
  "(0 :: nat) + sizeof_SharedLogEntryHeader + [100 :: nat, 200] ! 0
     \<le> 2 * unat (slab_size (SlabPool_ctor 10 1))"
proof -
  let ?p = "SlabPool_ctor 10 1"
  obtain rs p' where r: "run_alloc place [100, 200] ?p = (rs, p')" by fastforce
  have "place 100 ?p = (Some 0, snd (place 100 ?p))"
    by (simp add: place_def get_next_slab_def SlabPool_ctor_def)
  with r have "rs ! 0 = Some 0"
    by (auto split: prod.splits)
  with r show ?thesis
    by (intro ten_slabs_use_two [of 1 "[100, 200]" rs p' 0 0]) (simp_all add: max_message_def)
qed

end
