(* ===== verification/Json_Input.thy ===== *)
theory Json_Input
  imports Cpp_Text
begin

text \<open>
  The lexer of the JSON library that reads the configuration
  (\<open>engine/VortexEngine/json/json.hpp\<close>, \<open>detail::lexer\<close>), first part: the tokens, the lexer's
  state and its input management (\<open>get\<close>, \<open>unget\<close>, positions). Bytes are numbers; \<open>None\<close> as
  current character is the end of the file. \<open>pending\<close> abstracts the state to the bytes still to
  be read; the scanners of \<open>Json_String\<close>, \<open>Json_Number\<close> and \<open>Json_Lexer\<close> are proved over it.
\<close>

section \<open>Tokens and state\<close>

datatype token_type =
    Uninitialized
  | Literal_true
  | Literal_false
  | Literal_null
  | Value_string
  | Value_unsigned
  | Value_integer
  | Value_float
  | Begin_array
  | Begin_object
  | End_array
  | End_object
  | Name_separator
  | Value_separator
  | Parse_error
  | End_of_input
  | Literal_or_value

text \<open>A text between single quotes.\<close>

definition quoted :: "string \<Rightarrow> string" where
  "quoted txt = [CHR 0x27] @ txt @ [CHR 0x27]"

fun token_type_name :: "token_type \<Rightarrow> string" where
  "token_type_name Uninitialized = ''<uninitialized>''"
| "token_type_name Literal_true = ''true literal''"
| "token_type_name Literal_false = ''false literal''"
| "token_type_name Literal_null = ''null literal''"
| "token_type_name Value_string = ''string literal''"
| "token_type_name Value_unsigned = ''number literal''"
| "token_type_name Value_integer = ''number literal''"
| "token_type_name Value_float = ''number literal''"
| "token_type_name Begin_array = quoted ''[''"
| "token_type_name Begin_object = quoted ''{''"
| "token_type_name End_array = quoted '']''"
| "token_type_name End_object = quoted ''}''"
| "token_type_name Name_separator = quoted '':''"
| "token_type_name Value_separator = quoted '',''"
| "token_type_name Parse_error = ''<parse error>''"
| "token_type_name End_of_input = ''end of input''"
| "token_type_name Literal_or_value =
     quoted ''['' @ '', '' @ quoted ''{'' @ '', or a literal''"

record position_t =
  chars_read_total :: size_t
  chars_read_current_line :: size_t
  lines_read :: size_t

text \<open>
  The float value is kept as the text given to \<open>strtod\<close>.
\<close>

record Lexer =
  ia :: bytes
  ignore_comments :: bool
  current :: "u8 option"
  next_unget :: bool
  position :: position_t
  token_string :: bytes
  token_buffer :: bytes
  error_message :: string
  value_integer :: u64
  value_unsigned :: u64
  value_float :: bytes

definition Lexer_ctor :: "bytes \<Rightarrow> bool \<Rightarrow> Lexer" where
  "Lexer_ctor adapter comments =
     \<lparr>ia = adapter, ignore_comments = comments, current = None, next_unget = False,
      position = \<lparr>chars_read_total = 0, chars_read_current_line = 0, lines_read = 0\<rparr>,
      token_string = [], token_buffer = [], error_message = [], value_integer = 0,
      value_unsigned = 0, value_float = []\<rparr>"

text \<open>The decimal point of the locale the program runs in, which it never changes: \<open>.\<close>\<close>

definition decimal_point_char :: u8 where
  "decimal_point_char = 46"

section \<open>Input management\<close>

definition reset_token :: "Lexer \<Rightarrow> Lexer" where
  "reset_token s =
     s\<lparr>token_buffer := [], token_string := (case current s of None \<Rightarrow> [255] | Some c \<Rightarrow> [c])\<rparr>"

definition get_character :: "Lexer \<Rightarrow> Lexer" where
  "get_character s =
     (case ia s of [] \<Rightarrow> s\<lparr>current := None\<rparr> | c # cs \<Rightarrow> s\<lparr>current := Some c, ia := cs\<rparr>)"

definition get :: "Lexer \<Rightarrow> Lexer" where
  "get s =
     (let p = position s;
          s1 = s\<lparr>position := p\<lparr>chars_read_total := chars_read_total p + 1,
                                chars_read_current_line := chars_read_current_line p + 1\<rparr>\<rparr>;
          s2 = (if next_unget s1 then s1\<lparr>next_unget := False\<rparr> else get_character s1);
          s3 = (case current s2 of None \<Rightarrow> s2
                | Some c \<Rightarrow> s2\<lparr>token_string := token_string s2 @ [c]\<rparr>)
      in if current s3 = Some 10
         then s3\<lparr>position := (position s3)\<lparr>lines_read := lines_read (position s3) + 1,
                                            chars_read_current_line := 0\<rparr>\<rparr>
         else s3)"

definition unget :: "Lexer \<Rightarrow> Lexer" where
  "unget s =
     (let p = position s;
          p1 = p\<lparr>chars_read_total := chars_read_total p - 1\<rparr>;
          p2 = (if chars_read_current_line p1 = 0 then
                  (if 0 < lines_read p1 then p1\<lparr>lines_read := lines_read p1 - 1\<rparr> else p1)
                else p1\<lparr>chars_read_current_line := chars_read_current_line p1 - 1\<rparr>)
      in s\<lparr>next_unget := True, position := p2,
           token_string := (if current s = None then token_string s else butlast (token_string s))\<rparr>)"

definition add :: "u8 \<Rightarrow> Lexer \<Rightarrow> Lexer" where
  "add c s = s\<lparr>token_buffer := token_buffer s @ [c]\<rparr>"

text \<open>\<open>add (current)\<close>; at the end of the file \<open>static_cast<char> (eof)\<close> is the byte 255.\<close>

definition add_current :: "Lexer \<Rightarrow> Lexer" where
  "add_current s = add (case current s of None \<Rightarrow> 255 | Some c \<Rightarrow> c) s"

definition fail :: "string \<Rightarrow> Lexer \<Rightarrow> Lexer" where
  "fail msg s = s\<lparr>error_message := msg\<rparr>"

section \<open>What is still to be read\<close>

text \<open>
  The bytes the next calls of \<open>get\<close> return, and their number, which every call but one at the
  end of the file lowers.
\<close>

definition pending :: "Lexer \<Rightarrow> bytes" where
  "pending s = (if next_unget s then (case current s of None \<Rightarrow> [] | Some c \<Rightarrow> [c]) else []) @ ia s"

definition lex_ok :: "Lexer \<Rightarrow> bool" where
  "lex_ok s \<longleftrightarrow> (next_unget s \<and> current s = None \<longrightarrow> ia s = [])"

abbreviation rem :: "Lexer \<Rightarrow> nat" where
  "rem s \<equiv> length (pending s)"

lemma get_facts:
  "current (get s) = None \<Longrightarrow> rem (get s) \<le> rem s"
  "current (get s) = Some c \<Longrightarrow> rem (get s) < rem s"
  "rem (get s) \<le> rem s"
  "\<not> next_unget (get s)"
  by (auto simp: get_def pending_def get_character_def Let_def split: option.splits list.splits if_splits)

lemma get_pending_Cons:
  assumes "lex_ok s" and "pending s = c # cs"
  shows "current (get s) = Some c" and "pending (get s) = cs"
  using assms
  by (auto simp: lex_ok_def get_def pending_def get_character_def Let_def
      split: option.splits list.splits if_splits)

lemma get_pending_Nil:
  assumes "pending s = []"
  shows "current (get s) = None" and "pending (get s) = []"
  using assms
  by (auto simp: get_def pending_def get_character_def Let_def
      split: option.splits list.splits if_splits)

lemma lex_ok_get [simp]: "lex_ok (get s)"
  by (simp add: lex_ok_def get_facts(4))

lemma frame_simps [simp]:
  "pending (add c s) = pending s" "pending (add_current s) = pending s" "pending (fail m s) = pending s"
  "pending (reset_token s) = pending s"
  "current (add c s) = current s" "current (add_current s) = current s" "current (fail m s) = current s"
  "current (reset_token s) = current s"
  "lex_ok (add c s) = lex_ok s" "lex_ok (add_current s) = lex_ok s" "lex_ok (fail m s) = lex_ok s"
  "lex_ok (reset_token s) = lex_ok s"
  by (simp_all add: pending_def add_def add_current_def fail_def reset_token_def lex_ok_def)

lemma rem_unget_get:
  "rem (unget (get s)) \<le> rem s"
  by (auto simp: unget_def get_def pending_def get_character_def Let_def
      split: option.splits list.splits if_splits)

lemma unget_get_pending:
  assumes "lex_ok s"
  shows "pending (unget (get s)) = pending s" and "lex_ok (unget (get s))"
  using assms
  by (auto simp: lex_ok_def unget_def get_def pending_def get_character_def Let_def
      split: option.splits list.splits if_splits)

end
