(* ===== verification/Json_String.thy ===== *)
theory Json_String
  imports Json_Input
begin

text \<open>
  \<open>lexer::scan_string\<close> (\<open>engine/VortexEngine/json/json.hpp\<close>): escapes, \<open>\u\<close> escapes with
  surrogate pairs, UTF-8 validation and the rejection of control characters. One round of its
  loop is \<open>scan_string_char\<close>, which returns the token when the loop ends.
\<close>

section \<open>Unicode escapes\<close>

text \<open>\<open>get_codepoint\<close>: the four hex digits after \<open>\u\<close>, or -1.\<close>

definition hex_value :: "u8 \<Rightarrow> nat option" where
  "hex_value c =
     (if 48 \<le> c \<and> c \<le> 57 then Some (unat c - 0x30)
      else if 65 \<le> c \<and> c \<le> 70 then Some (unat c - 0x37)
      else if 97 \<le> c \<and> c \<le> 102 then Some (unat c - 0x57)
      else None)"

fun get_codepoint_from :: "nat list \<Rightarrow> int \<Rightarrow> Lexer \<Rightarrow> int \<times> Lexer" where
  "get_codepoint_from [] codepoint s = (codepoint, s)"
| "get_codepoint_from (factor # factors) codepoint s =
     (let s1 = get s
      in case Option.bind (current s1) hex_value of
           Some d \<Rightarrow> get_codepoint_from factors (codepoint + int (d * 2 ^ factor)) s1
         | None \<Rightarrow> (- 1, s1))"

definition get_codepoint :: "Lexer \<Rightarrow> int \<times> Lexer" where
  "get_codepoint s = get_codepoint_from [12, 8, 4, 0] 0 s"

text \<open>The UTF-8 bytes of a code point, added to the token.\<close>

definition codepoint_bytes :: "u32 \<Rightarrow> bytes" where
  "codepoint_bytes codepoint =
     (if codepoint < 0x80 then [ucast codepoint]
      else if codepoint \<le> 0x7FF then
        [ucast (0xC0 OR drop_bit 6 codepoint), ucast (0x80 OR (codepoint AND 0x3F))]
      else if codepoint \<le> 0xFFFF then
        [ucast (0xE0 OR drop_bit 12 codepoint), ucast (0x80 OR (drop_bit 6 codepoint AND 0x3F)),
         ucast (0x80 OR (codepoint AND 0x3F))]
      else
        [ucast (0xF0 OR drop_bit 18 codepoint), ucast (0x80 OR (drop_bit 12 codepoint AND 0x3F)),
         ucast (0x80 OR (drop_bit 6 codepoint AND 0x3F)), ucast (0x80 OR (codepoint AND 0x3F))])"

definition add_codepoint :: "int \<Rightarrow> Lexer \<Rightarrow> Lexer" where
  "add_codepoint codepoint s = fold add (codepoint_bytes (word_of_int codepoint)) s"

definition backslash :: char where
  "backslash = CHR 0x5C"

text \<open>
  The escape \<open>\u\<close>: a high surrogate must be followed by an escaped low one, and a low one
  must not come alone. \<open>Some t\<close> ends the scan with token \<open>t\<close>.
\<close>

definition scan_unicode_escape :: "Lexer \<Rightarrow> token_type option \<times> Lexer" where
  "scan_unicode_escape s =
     (let four = ''invalid string: '' @ quoted ([backslash] @ ''u'') @ '' must be followed by 4 hex digits'';
          pair = ''invalid string: surrogate U+D800..U+DBFF must be followed by U+DC00..U+DFFF'';
          (codepoint1, s1) = get_codepoint s
      in if codepoint1 = - 1 then (Some Parse_error, fail four s1)
      else if 0xD800 \<le> codepoint1 \<and> codepoint1 \<le> 0xDBFF then
        let s2 = get s1
        in if current s2 \<noteq> Some 0x5C then (Some Parse_error, fail pair s2)
        else
          let s3 = get s2
          in if current s3 \<noteq> Some 0x75 then (Some Parse_error, fail pair s3)
          else
            let (codepoint2, s4) = get_codepoint s3
            in if codepoint2 = - 1 then (Some Parse_error, fail four s4)
            else if 0xDC00 \<le> codepoint2 \<and> codepoint2 \<le> 0xDFFF
            then (None, add_codepoint (codepoint1 * 2 ^ 10 + codepoint2 - 0x35FDC00) s4)
            else (Some Parse_error, fail pair s4)
      else if 0xDC00 \<le> codepoint1 \<and> codepoint1 \<le> 0xDFFF
      then (Some Parse_error,
            fail ''invalid string: surrogate U+DC00..U+DFFF must follow U+D800..U+DBFF'' s1)
      else (None, add_codepoint codepoint1 s1))"

section \<open>Escapes\<close>

definition simple_escape :: "u8 \<Rightarrow> u8 option" where
  "simple_escape c =
     (if c = 0x22 then Some 0x22
      else if c = 0x5C then Some 0x5C
      else if c = 0x2F then Some 0x2F
      else if c = 0x62 then Some 0x08
      else if c = 0x66 then Some 0x0C
      else if c = 0x6E then Some 0x0A
      else if c = 0x72 then Some 0x0D
      else if c = 0x74 then Some 0x09
      else None)"

definition scan_escape :: "Lexer \<Rightarrow> token_type option \<times> Lexer" where
  "scan_escape s =
     (let s1 = get s
      in case Option.bind (current s1) simple_escape of
           Some c \<Rightarrow> (None, add c s1)
         | None \<Rightarrow>
             if current s1 = Some 0x75 then scan_unicode_escape s1
             else (Some Parse_error,
                   fail ''invalid string: forbidden character after backslash'' s1))"

section \<open>Control characters\<close>

definition control_names :: "string list" where
  "control_names =
     [''NUL'', ''SOH'', ''STX'', ''ETX'', ''EOT'', ''ENQ'', ''ACK'', ''BEL'', ''BS'', ''HT'', ''LF'',
      ''VT'', ''FF'', ''CR'', ''SO'', ''SI'', ''DLE'', ''DC1'', ''DC2'', ''DC3'', ''DC4'', ''NAK'',
      ''SYN'', ''ETB'', ''CAN'', ''EM'', ''SUB'', ''ESC'', ''FS'', ''GS'', ''RS'', ''US'']"

definition hex_digits :: string where
  "hex_digits = ''0123456789ABCDEF''"

definition control_short :: "nat \<Rightarrow> string" where
  "control_short n =
     (if n = 8 then '' or '' @ [backslash] @ ''b''
      else if n = 9 then '' or '' @ [backslash] @ ''t''
      else if n = 10 then '' or '' @ [backslash] @ ''n''
      else if n = 12 then '' or '' @ [backslash] @ ''f''
      else if n = 13 then '' or '' @ [backslash] @ ''r''
      else [])"

definition control_message :: "nat \<Rightarrow> string" where
  "control_message n =
     (let code = ''00'' @ [hex_digits ! (n div 16), hex_digits ! (n mod 16)]
      in ''invalid string: control character U+'' @ code @ '' ('' @ (control_names ! n) @
         '') must be escaped to '' @ [backslash] @ ''u'' @ code @ control_short n)"

section \<open>UTF-8\<close>

text \<open>
  \<open>next_byte_in_range\<close>: add the current byte, then read one byte per range.
\<close>

fun bytes_in_ranges :: "(u8 \<times> u8) list \<Rightarrow> Lexer \<Rightarrow> bool \<times> Lexer" where
  "bytes_in_ranges [] s = (True, s)"
| "bytes_in_ranges ((lo, hi) # ranges) s =
     (let s1 = get s
      in case current s1 of
           Some c \<Rightarrow>
             if lo \<le> c \<and> c \<le> hi then bytes_in_ranges ranges (add_current s1)
             else (False, fail ''invalid string: ill-formed UTF-8 byte'' s1)
         | None \<Rightarrow> (False, fail ''invalid string: ill-formed UTF-8 byte'' s1))"

definition next_byte_in_range :: "(u8 \<times> u8) list \<Rightarrow> Lexer \<Rightarrow> bool \<times> Lexer" where
  "next_byte_in_range ranges s = bytes_in_ranges ranges (add_current s)"

text \<open>The ranges that must follow a lead byte; \<open>None\<close> for a byte that is none.\<close>

definition utf8_ranges :: "u8 \<Rightarrow> (u8 \<times> u8) list option" where
  "utf8_ranges c =
     (if 0xC2 \<le> c \<and> c \<le> 0xDF then Some [(0x80, 0xBF)]
      else if c = 0xE0 then Some [(0xA0, 0xBF), (0x80, 0xBF)]
      else if 0xE1 \<le> c \<and> c \<le> 0xEC \<or> c = 0xEE \<or> c = 0xEF then Some [(0x80, 0xBF), (0x80, 0xBF)]
      else if c = 0xED then Some [(0x80, 0x9F), (0x80, 0xBF)]
      else if c = 0xF0 then Some [(0x90, 0xBF), (0x80, 0xBF), (0x80, 0xBF)]
      else if 0xF1 \<le> c \<and> c \<le> 0xF3 then Some [(0x80, 0xBF), (0x80, 0xBF), (0x80, 0xBF)]
      else if c = 0xF4 then Some [(0x80, 0x8F), (0x80, 0xBF), (0x80, 0xBF)]
      else None)"

definition scan_utf8 :: "u8 \<Rightarrow> Lexer \<Rightarrow> token_type option \<times> Lexer" where
  "scan_utf8 c s =
     (case utf8_ranges c of
        Some ranges \<Rightarrow>
          (let (ok, s1) = next_byte_in_range ranges s
           in if ok then (None, s1) else (Some Parse_error, s1))
      | None \<Rightarrow> (Some Parse_error, fail ''invalid string: ill-formed UTF-8 byte'' s))"

section \<open>The loop\<close>

definition scan_string_char :: "Lexer \<Rightarrow> token_type option \<times> Lexer" where
  "scan_string_char s =
     (let s1 = get s
      in case current s1 of
           None \<Rightarrow> (Some Parse_error, fail ''invalid string: missing closing quote'' s1)
         | Some c \<Rightarrow>
             if c = 0x22 then (Some Value_string, s1)
             else if c = 0x5C then scan_escape s1
             else if c < 0x20 then (Some Parse_error, fail (control_message (unat c)) s1)
             else if c < 0x80 then (None, add_current s1)
             else scan_utf8 c s1)"

text \<open>Every operation reads forward: what is pending afterwards is no longer than before.\<close>

lemma get_codepoint_from_rem: "rem (snd (get_codepoint_from fs cp s)) \<le> rem s"
proof (induction fs arbitrary: cp s)
  case (Cons f fs)
  then show ?case
    using le_trans [OF Cons.IH get_facts(3) [of s]] get_facts(3) [of s]
    by (simp add: Let_def split: option.split)
qed simp

lemma get_codepoint_rem: "get_codepoint s = (n, s') \<Longrightarrow> rem s' \<le> rem s"
  using get_codepoint_from_rem [of "[12, 8, 4, 0]" 0 s] by (simp add: get_codepoint_def)

lemma fold_add_frame [simp]:
  "pending (fold add cs s) = pending s" "lex_ok (fold add cs s) = lex_ok s"
  "current (fold add cs s) = current s"
  by (induction cs arbitrary: s) simp_all

lemma add_codepoint_frame [simp]:
  "pending (add_codepoint n s) = pending s" "lex_ok (add_codepoint n s) = lex_ok s"
  by (simp_all add: add_codepoint_def)

lemma scan_unicode_escape_rem: "rem (snd (scan_unicode_escape s)) \<le> rem s"
proof -
  obtain n1 s1 where g1: "get_codepoint s = (n1, s1)" by fastforce
  obtain n2 s2 where g2: "get_codepoint (get (get s1)) = (n2, s2)" by fastforce
  have "rem s1 \<le> rem s" "rem s2 \<le> rem (get (get s1))" "rem (get s1) \<le> rem s1"
    "rem (get (get s1)) \<le> rem (get s1)"
    using get_codepoint_rem g1 g2 get_facts(3) by blast+
  then show ?thesis
    by (simp add: scan_unicode_escape_def g1 g2 Let_def)
qed

lemma scan_escape_rem: "rem (snd (scan_escape s)) \<le> rem s"
  using scan_unicode_escape_rem [of "get s"] get_facts(3) [of s]
  by (auto simp: scan_escape_def Let_def split: option.split)

lemma bytes_in_ranges_rem: "rem (snd (bytes_in_ranges rs s)) \<le> rem s"
proof (induction rs s rule: bytes_in_ranges.induct)
  case (2 lo hi ranges s)
  show ?case
  proof (cases "current (get s)")
    case (Some c)
    then show ?thesis
      using 2 [OF refl Some] get_facts(3) [of s] by (auto simp: Let_def)
  qed (use get_facts(3) [of s] in \<open>simp add: Let_def\<close>)
qed simp

lemma scan_utf8_rem: "rem (snd (scan_utf8 c s)) \<le> rem s"
  using bytes_in_ranges_rem [of _ "add_current s"]
  by (auto simp: scan_utf8_def next_byte_in_range_def split: option.split prod.split) (metis snd_conv)+

lemma scan_string_char_rem:
  assumes "scan_string_char s = (None, s')"
  shows "rem s' < rem s"
proof -
  obtain c where c: "current (get s) = Some c"
    using assms by (auto simp: scan_string_char_def Let_def split: option.splits)
  then have g: "rem (get s) < rem s" by (rule get_facts(2))
  have "snd (scan_string_char s) = s'" using assms by simp
  then have "rem s' \<le> rem (get s)"
    using scan_escape_rem [of "get s"] scan_utf8_rem [of c "get s"]
    by (auto simp: scan_string_char_def Let_def c split: if_splits)
  with g show ?thesis by simp
qed

function scan_string_loop :: "Lexer \<Rightarrow> token_type \<times> Lexer" where
  "scan_string_loop s =
     (case scan_string_char s of
        (Some t, s1) \<Rightarrow> (t, s1)
      | (None, s1) \<Rightarrow> scan_string_loop s1)"
  by pat_completeness auto
termination
  by (relation "measure (\<lambda>s. rem s)") (auto intro: scan_string_char_rem)

declare scan_string_loop.simps [simp del]

definition scan_string :: "Lexer \<Rightarrow> token_type \<times> Lexer" where
  "scan_string s = scan_string_loop (reset_token s)"

lemma scan_string_char_rem_le: "rem (snd (scan_string_char s)) \<le> rem s"
  using scan_escape_rem [of "get s"] scan_utf8_rem [of _ "get s"] get_facts(3) [of s]
  by (auto simp: scan_string_char_def Let_def split: option.split intro: le_trans)

lemma scan_string_loop_rem: "rem (snd (scan_string_loop s)) \<le> rem s"
proof (induction s rule: scan_string_loop.induct)
  case (1 s)
  obtain r s1 where r: "scan_string_char s = (r, s1)" by fastforce
  then have "rem s1 \<le> rem s" using scan_string_char_rem_le [of s] by simp
  with r 1 [OF r [symmetric]] show ?case
    by (subst scan_string_loop.simps) (cases r, auto)
qed

lemma scan_string_rem: "rem (snd (scan_string s)) \<le> rem s"
  using scan_string_loop_rem [of "reset_token s"] by (simp add: scan_string_def)

end
