(* ===== verification/Json_Number.thy ===== *)
theory Json_Number
  imports Json_Input
begin

text \<open>
  \<open>lexer::scan_number\<close> (\<open>engine/VortexEngine/json/json.hpp\<close>): the state machine of its labels
  and \<open>goto\<close>s, one constructor per label, and the conversion of the collected text with
  \<open>strtoull\<close>, \<open>strtoll\<close> or \<open>strtod\<close>.
\<close>

section \<open>The state machine\<close>

datatype number_state =
    N_minus
  | N_zero
  | N_any1
  | N_decimal1
  | N_decimal2
  | N_exponent
  | N_sign
  | N_any2

text \<open>What a label does with the character it gets: go on, stop, or report an error.\<close>

datatype number_move = Goto number_state | Stop | Error_number string

definition is_exp :: "u8 \<Rightarrow> bool" where
  "is_exp c \<longleftrightarrow> c = 101 \<or> c = 69"

text \<open>One definition per label; \<open>None\<close> is the end of the file.\<close>

definition scan_number_minus :: "u8 option \<Rightarrow> number_move" where
  "scan_number_minus c =
     (if c = Some 48 then Goto N_zero
      else if c = None \<or> \<not> is_digit (the c)
      then Error_number (''invalid number; expected digit after '' @ quoted ''-'')
      else Goto N_any1)"

definition scan_number_zero :: "u8 option \<Rightarrow> number_move" where
  "scan_number_zero c =
     (case c of
        None \<Rightarrow> Stop
      | Some d \<Rightarrow> if d = 46 then Goto N_decimal1 else if is_exp d then Goto N_exponent else Stop)"

definition scan_number_any1 :: "u8 option \<Rightarrow> number_move" where
  "scan_number_any1 c =
     (case c of
        None \<Rightarrow> Stop
      | Some d \<Rightarrow>
          if is_digit d then Goto N_any1
          else if d = 46 then Goto N_decimal1
          else if is_exp d then Goto N_exponent else Stop)"

definition scan_number_decimal1 :: "u8 option \<Rightarrow> number_move" where
  "scan_number_decimal1 c =
     (if c \<noteq> None \<and> is_digit (the c) then Goto N_decimal2
      else Error_number (''invalid number; expected digit after '' @ quoted ''.''))"

definition scan_number_decimal2 :: "u8 option \<Rightarrow> number_move" where
  "scan_number_decimal2 c =
     (case c of
        None \<Rightarrow> Stop
      | Some d \<Rightarrow>
          if is_digit d then Goto N_decimal2 else if is_exp d then Goto N_exponent else Stop)"

definition scan_number_exponent :: "u8 option \<Rightarrow> number_move" where
  "scan_number_exponent c =
     (if c = Some 43 \<or> c = Some 45 then Goto N_sign
      else if c \<noteq> None \<and> is_digit (the c) then Goto N_any2
      else Error_number (''invalid number; expected '' @ quoted ''+'' @ '', '' @ quoted ''-'' @
                         '', or digit after exponent''))"

definition scan_number_sign :: "u8 option \<Rightarrow> number_move" where
  "scan_number_sign c =
     (if c \<noteq> None \<and> is_digit (the c) then Goto N_any2
      else Error_number ''invalid number; expected digit after exponent sign'')"

definition scan_number_any2 :: "u8 option \<Rightarrow> number_move" where
  "scan_number_any2 c = (if c \<noteq> None \<and> is_digit (the c) then Goto N_any2 else Stop)"

fun number_next :: "number_state \<Rightarrow> u8 option \<Rightarrow> number_move" where
  "number_next N_minus c = scan_number_minus c"
| "number_next N_zero c = scan_number_zero c"
| "number_next N_any1 c = scan_number_any1 c"
| "number_next N_decimal1 c = scan_number_decimal1 c"
| "number_next N_decimal2 c = scan_number_decimal2 c"
| "number_next N_exponent c = scan_number_exponent c"
| "number_next N_sign c = scan_number_sign c"
| "number_next N_any2 c = scan_number_any2 c"

lemmas label_defs = scan_number_minus_def scan_number_zero_def scan_number_any1_def
  scan_number_decimal1_def scan_number_decimal2_def scan_number_exponent_def scan_number_sign_def
  scan_number_any2_def

declare number_next.simps [simp del]

lemma number_next_simps [simp]:
  "number_next N_minus None = Error_number (''invalid number; expected digit after '' @ quoted ''-'')"
  "number_next N_minus (Some c) =
     (if c = 48 then Goto N_zero
      else if is_digit c then Goto N_any1
      else Error_number (''invalid number; expected digit after '' @ quoted ''-''))"
  "number_next N_zero None = Stop"
  "number_next N_zero (Some c) =
     (if c = 46 then Goto N_decimal1 else if is_exp c then Goto N_exponent else Stop)"
  "number_next N_any1 None = Stop"
  "number_next N_any1 (Some c) =
     (if is_digit c then Goto N_any1
      else if c = 46 then Goto N_decimal1
      else if is_exp c then Goto N_exponent else Stop)"
  "number_next N_decimal1 None = Error_number (''invalid number; expected digit after '' @ quoted ''.'')"
  "number_next N_decimal1 (Some c) =
     (if is_digit c then Goto N_decimal2
      else Error_number (''invalid number; expected digit after '' @ quoted ''.''))"
  "number_next N_decimal2 None = Stop"
  "number_next N_decimal2 (Some c) =
     (if is_digit c then Goto N_decimal2 else if is_exp c then Goto N_exponent else Stop)"
  "number_next N_exponent None =
     Error_number (''invalid number; expected '' @ quoted ''+'' @ '', '' @ quoted ''-'' @ '', or digit after exponent'')"
  "number_next N_exponent (Some c) =
     (if c = 43 \<or> c = 45 then Goto N_sign
      else if is_digit c then Goto N_any2
      else Error_number (''invalid number; expected '' @ quoted ''+'' @ '', '' @ quoted ''-'' @ '', or digit after exponent''))"
  "number_next N_sign None = Error_number ''invalid number; expected digit after exponent sign''"
  "number_next N_sign (Some c) =
     (if is_digit c then Goto N_any2
      else Error_number ''invalid number; expected digit after exponent sign'')"
  "number_next N_any2 None = Stop"
  "number_next N_any2 (Some c) = (if is_digit c then Goto N_any2 else Stop)"
  by (simp_all add: number_next.simps label_defs)

text \<open>\<open>number_type\<close> as set on entering a label.\<close>

fun enter_state :: "number_state \<Rightarrow> token_type \<Rightarrow> token_type" where
  "enter_state N_minus nt = Value_integer"
| "enter_state N_decimal1 nt = Value_float"
| "enter_state N_exponent nt = Value_float"
| "enter_state _ nt = nt"

text \<open>
  The character added on the way to the next label: the locale's decimal point for the dot.
\<close>

definition add_number_char :: "number_state \<Rightarrow> Lexer \<Rightarrow> Lexer" where
  "add_number_char target s =
     (if target = N_decimal1 then add decimal_point_char s else add_current s)"

function scan_number_from ::
  "number_state \<Rightarrow> token_type \<Rightarrow> Lexer \<Rightarrow> (string + token_type) \<times> Lexer" where
  "scan_number_from st nt s =
     (let s1 = get s
      in case number_next st (current s1) of
           Error_number msg \<Rightarrow> (Inl msg, s1)
         | Stop \<Rightarrow> (Inr nt, s1)
         | Goto st1 \<Rightarrow> scan_number_from st1 (enter_state st1 nt) (add_number_char st1 s1))"
  by pat_completeness auto
termination
proof (relation "measure (\<lambda>(st, nt, s). rem s)")
  fix st nt s s1 st1
  assume s1: "s1 = get s" and m: "number_next st (current s1) = Goto st1"
  then obtain c where "current s1 = Some c" by (cases st; cases "current s1") auto
  then have "rem s1 < rem s" unfolding s1 by (rule get_facts(2))
  then show "((st1, enter_state st1 nt, add_number_char st1 s1), st, nt, s)
      \<in> measure (\<lambda>(st, nt, s). rem s)"
    by (simp add: add_number_char_def)
qed simp

declare scan_number_from.simps [simp del]

section \<open>Conversion\<close>

text \<open>
  \<open>strtoull\<close> and \<open>strtoll\<close> on the collected text: the value, or \<open>None\<close> where they set
  \<open>errno\<close> to \<open>ERANGE\<close>.
\<close>

definition strtoull :: "bytes \<Rightarrow> u64 option" where
  "strtoull bs =
     (let v = dec_acc 0 bs in if v < 2 ^ 64 then Some (word_of_nat v) else None)"

definition strtoll :: "bytes \<Rightarrow> u64 option" where
  "strtoll bs =
     (let v = dec_acc 0 (tl bs) in if v \<le> 2 ^ 63 then Some (- word_of_nat v) else None)"

text \<open>The label \<open>scan_number_done\<close>.\<close>

definition scan_number_done :: "token_type \<Rightarrow> Lexer \<Rightarrow> token_type \<times> Lexer" where
  "scan_number_done number_type s =
     (let s1 = unget s; fl = (Value_float, s1\<lparr>value_float := token_buffer s1\<rparr>)
      in if number_type = Value_unsigned then
           (case strtoull (token_buffer s1) of
              Some x \<Rightarrow> (Value_unsigned, s1\<lparr>value_unsigned := x\<rparr>) | None \<Rightarrow> fl)
         else if number_type = Value_integer then
           (case strtoll (token_buffer s1) of
              Some x \<Rightarrow> (Value_integer, s1\<lparr>value_integer := x\<rparr>) | None \<Rightarrow> fl)
         else fl)"

text \<open>The label the first character selects; \<open>scan\<close> calls only on one of these.\<close>

definition number_start :: "u8 \<Rightarrow> number_state" where
  "number_start c = (if c = 45 then N_minus else if c = 48 then N_zero else N_any1)"

definition scan_number :: "Lexer \<Rightarrow> token_type \<times> Lexer" where
  "scan_number s =
     (let s0 = reset_token s
      in case current s0 of
           None \<Rightarrow> (Parse_error, s0)
         | Some c \<Rightarrow>
             (let st = number_start c
              in case scan_number_from st (enter_state st Value_unsigned) (add_current s0) of
                   (Inl msg, s1) \<Rightarrow> (Parse_error, fail msg s1)
                 | (Inr nt, s1) \<Rightarrow> scan_number_done nt s1))"

section \<open>Progress\<close>

text \<open>
  The automaton reads forward, and it stops only after a call of \<open>get\<close>, whose character the
  conversion gives back.
\<close>

lemma add_number_char_frame [simp]:
  "pending (add_number_char st s) = pending s" "lex_ok (add_number_char st s) = lex_ok s"
  by (simp_all add: add_number_char_def)

lemma scan_number_from_rem:
  "scan_number_from st nt s = (r, s') \<Longrightarrow> \<exists>u. s' = get u \<and> rem u \<le> rem s"
proof (induction st nt s rule: scan_number_from.induct)
  case (1 st nt s)
  show ?case
  proof (cases "number_next st (current (get s))")
    case (Goto st1)
    with "1.prems" have "scan_number_from st1 (enter_state st1 nt) (add_number_char st1 (get s)) = (r, s')"
      by (subst (asm) scan_number_from.simps) (simp add: Let_def)
    from "1.IH" [OF refl Goto this] obtain u where "s' = get u" "rem u \<le> rem (get s)" by auto
    with get_facts(3) [of s] show ?thesis using le_trans by blast
  qed (use "1.prems" in \<open>auto simp: scan_number_from.simps [of st nt s] Let_def\<close>)
qed

lemma pending_value_update [simp]:
  "pending (s\<lparr>value_unsigned := x\<rparr>) = pending s" "pending (s\<lparr>value_integer := x\<rparr>) = pending s"
  "pending (s\<lparr>value_float := y\<rparr>) = pending s"
  "lex_ok (s\<lparr>value_unsigned := x\<rparr>) = lex_ok s" "lex_ok (s\<lparr>value_integer := x\<rparr>) = lex_ok s"
  "lex_ok (s\<lparr>value_float := y\<rparr>) = lex_ok s"
  by (simp_all add: pending_def lex_ok_def)

lemma scan_number_done_pending [simp]:
  "pending (snd (scan_number_done nt s)) = pending (unget s)"
  "lex_ok (snd (scan_number_done nt s)) = lex_ok (unget s)"
  by (simp_all add: scan_number_done_def Let_def split: option.split)

lemma scan_number_rem: "rem (snd (scan_number s)) \<le> rem s"
proof (cases "current s")
  case (Some c)
  let ?st = "number_start c"
  obtain r s1 where r: "scan_number_from ?st (enter_state ?st Value_unsigned)
      (add_current (reset_token s)) = (r, s1)" by fastforce
  from scan_number_from_rem [OF this] obtain u where u: "s1 = get u" "rem u \<le> rem s" by auto
  have "rem (get u) \<le> rem u" "rem (unget (get u)) \<le> rem u"
    by (rule get_facts(3), rule rem_unget_get)
  with u show ?thesis
    by (cases r) (simp_all add: scan_number_def Let_def Some r)
qed (simp add: scan_number_def Let_def)

end
