(* ===== verification/Json_Lexer.thy ===== *)
theory Json_Lexer
  imports Json_String Json_Number
begin

text \<open>
  The rest of \<open>detail::lexer\<close> (\<open>engine/VortexEngine/json/json.hpp\<close>): comments, literals,
  white space, the byte order mark, and \<open>scan\<close>, which returns the next token. Every token but
  the end of the input takes at least one byte, which is what the parser's loop ends by.
\<close>

section \<open>White space and comments\<close>

definition is_ws :: "u8 option \<Rightarrow> bool" where
  "is_ws c \<longleftrightarrow> c = Some 32 \<or> c = Some 9 \<or> c = Some 10 \<or> c = Some 13"

function skip_whitespace :: "Lexer \<Rightarrow> Lexer" where
  "skip_whitespace s = (let s1 = get s in if is_ws (current s1) then skip_whitespace s1 else s1)"
  by pat_completeness auto
termination
  by (relation "measure (\<lambda>s. rem s)") (auto simp: is_ws_def intro: get_facts(2))

declare skip_whitespace.simps [simp del]

text \<open>Single-line comments end at a newline, a carriage return, a NUL or the end of the file.\<close>

definition ends_line :: "u8 option \<Rightarrow> bool" where
  "ends_line c \<longleftrightarrow> c = Some 10 \<or> c = Some 13 \<or> c = None \<or> c = Some 0"

function skip_line_comment :: "Lexer \<Rightarrow> Lexer" where
  "skip_line_comment s = (let s1 = get s in if ends_line (current s1) then s1 else skip_line_comment s1)"
  by pat_completeness auto
termination
  by (relation "measure (\<lambda>s. rem s)") (auto simp: ends_line_def intro: get_facts(2))

declare skip_line_comment.simps [simp del]

text \<open>Multi-line comments: after a star that no slash follows, the character is read again.\<close>

definition unclosed_comment :: string where
  "unclosed_comment = ''invalid comment; missing closing '' @ quoted ''*/''"

function skip_block_comment :: "Lexer \<Rightarrow> bool \<times> Lexer" where
  "skip_block_comment s =
     (let s1 = get s
      in if current s1 = None \<or> current s1 = Some 0 then (False, fail unclosed_comment s1)
         else if current s1 = Some 42 then
           (let s2 = get s1
            in if current s2 = Some 47 then (True, s2) else skip_block_comment (unget s2))
         else skip_block_comment s1)"
  by pat_completeness auto
termination
proof (relation "measure (\<lambda>s. rem s)")
  fix s s1 s2
  assume s: "s1 = get s" "s2 = get s1" and c: "current s1 = Some 42"
  have "rem (unget (get s1)) \<le> rem s1" by (rule rem_unget_get)
  moreover have "rem s1 < rem s" using c unfolding s by (rule get_facts(2))
  ultimately show "(unget s2, s) \<in> measure (\<lambda>s. rem s)" by (simp add: s)
next
  fix s s1
  assume "s1 = get s" "\<not> (current s1 = None \<or> current s1 = Some 0)" "current s1 \<noteq> Some 42"
  then show "(s1, s) \<in> measure (\<lambda>s. rem s)" by (auto intro: get_facts(2))
qed simp

declare skip_block_comment.simps [simp del]

definition scan_comment :: "Lexer \<Rightarrow> bool \<times> Lexer" where
  "scan_comment s =
     (let s1 = get s
      in if current s1 = Some 47 then (True, skip_line_comment s1)
         else if current s1 = Some 42 then skip_block_comment s1
         else (False, fail (''invalid comment; expecting '' @ quoted ''/'' @ '' or '' @ quoted ''*'' @
                            '' after '' @ quoted ''/'') s1))"

lemma skip_whitespace_rem: "rem (skip_whitespace s) \<le> rem s"
proof (induction s rule: skip_whitespace.induct)
  case (1 s)
  then show ?case
    using get_facts(3) [of s] by (subst skip_whitespace.simps) (auto simp: Let_def intro: le_trans)
qed

lemma skip_whitespace_strict:
  "current (skip_whitespace s) = Some c \<Longrightarrow> rem (skip_whitespace s) < rem s"
proof (induction s rule: skip_whitespace.induct)
  case (1 s)
  show ?case
  proof (cases "is_ws (current (get s))")
    case True
    then obtain b where "current (get s) = Some b" by (auto simp: is_ws_def)
    then have g: "rem (get s) < rem s" by (rule get_facts(2))
    have eq: "skip_whitespace s = skip_whitespace (get s)"
      using True by (subst skip_whitespace.simps) (simp add: Let_def)
    have "rem (skip_whitespace (get s)) < rem (get s)"
      using "1.IH" [OF refl True] "1.prems" unfolding eq by blast
    with g show ?thesis unfolding eq by simp
  next
    case False
    then have eq: "skip_whitespace s = get s" by (subst skip_whitespace.simps) (simp add: Let_def)
    with "1.prems" show ?thesis unfolding eq by (blast intro: get_facts(2))
  qed
qed

lemma skip_line_comment_rem: "rem (skip_line_comment s) \<le> rem s"
proof (induction s rule: skip_line_comment.induct)
  case (1 s)
  then show ?case
    using get_facts(3) [of s] by (subst skip_line_comment.simps) (auto simp: Let_def intro: le_trans)
qed

lemma skip_block_comment_rem: "rem (snd (skip_block_comment s)) \<le> rem s"
proof (induction s rule: skip_block_comment.induct)
  case (1 s)
  have g: "rem (get s) \<le> rem s" "rem (get (get s)) \<le> rem s"
    using get_facts(3) [of s] get_facts(3) [of "get s"] by linarith+
  have u: "rem (unget (get (get s))) \<le> rem s"
    using rem_unget_get [of "get s"] g(1) by linarith
  show ?case
    using 1 g u by (subst skip_block_comment.simps) (auto simp: Let_def intro: le_trans)
qed

lemma scan_comment_rem: "rem (snd (scan_comment s)) \<le> rem s"
  using skip_line_comment_rem [of "get s"] skip_block_comment_rem [of "get s"] get_facts(3) [of s]
  by (auto simp: scan_comment_def Let_def)

text \<open>The loop \<open>while (ignore_comments && current == '/')\<close> of \<open>scan\<close>.\<close>

function skip_comments :: "Lexer \<Rightarrow> bool \<times> Lexer" where
  "skip_comments s =
     (if ignore_comments s \<and> current s = Some 47 then
        (case scan_comment s of
           (False, s1) \<Rightarrow> (False, s1)
         | (True, s1) \<Rightarrow>
             (let s2 = skip_whitespace s1
              in if current s2 = None then (True, s2) else skip_comments s2))
      else (True, s))"
  by pat_completeness auto
termination
proof (relation "measure (\<lambda>s. rem s)")
  fix s x y s2
  assume c: "(x, y) = scan_comment s" and s2: "s2 = skip_whitespace y" "current s2 \<noteq> None"
  then have "rem (skip_whitespace y) < rem y" by (auto intro: skip_whitespace_strict)
  moreover have "rem y \<le> rem s" using scan_comment_rem [of s] c by (metis snd_conv)
  ultimately show "(s2, s) \<in> measure (\<lambda>s. rem s)" by (simp add: s2)
qed simp

declare skip_comments.simps [simp del]

lemma skip_comments_rem: "rem (snd (skip_comments s)) \<le> rem s"
proof (induction s rule: skip_comments.induct)
  case (1 s)
  obtain b s1 where c: "scan_comment s = (b, s1)" by fastforce
  have r: "rem s1 \<le> rem s" using scan_comment_rem [of s] c by simp
  have w: "rem (skip_whitespace s1) \<le> rem s" using skip_whitespace_rem [of s1] r by simp
  show ?case
    using 1 c r w by (subst skip_comments.simps) (auto simp: Let_def split: bool.split intro: le_trans)
qed

section \<open>Literals and the byte order mark\<close>

fun scan_literal_rest :: "bytes \<Rightarrow> token_type \<Rightarrow> Lexer \<Rightarrow> token_type \<times> Lexer" where
  "scan_literal_rest [] return_type s = (return_type, s)"
| "scan_literal_rest (c # cs) return_type s =
     (let s1 = get s
      in if current s1 \<noteq> Some c then (Parse_error, fail ''invalid literal'' s1)
         else scan_literal_rest cs return_type s1)"

definition scan_literal :: "bytes \<Rightarrow> token_type \<Rightarrow> Lexer \<Rightarrow> token_type \<times> Lexer" where
  "scan_literal literal_text return_type s = scan_literal_rest (tl literal_text) return_type s"

definition true_literal :: bytes where "true_literal = [116, 114, 117, 101]"
definition false_literal :: bytes where "false_literal = [102, 97, 108, 115, 101]"
definition null_literal :: bytes where "null_literal = [110, 117, 108, 108]"

lemma scan_literal_rest_rem: "rem (snd (scan_literal_rest cs t s)) \<le> rem s"
proof (induction cs arbitrary: s)
  case (Cons c cs)
  then show ?case
    using le_trans [OF Cons.IH get_facts(3) [of s]] get_facts(3) [of s] by (simp add: Let_def)
qed simp

definition skip_bom :: "Lexer \<Rightarrow> bool \<times> Lexer" where
  "skip_bom s =
     (let s1 = get s
      in if current s1 = Some 0xEF then
           (let s2 = get s1
            in if current s2 \<noteq> Some 0xBB then (False, s2)
               else let s3 = get s2 in (current s3 = Some 0xBF, s3))
         else (True, unget s1))"

lemma skip_bom_rem:
  "rem (snd (skip_bom s)) \<le> rem s"
  "\<not> fst (skip_bom s) \<Longrightarrow> rem (snd (skip_bom s)) < rem s"
proof -
  have "rem (get (get (get s))) \<le> rem (get s)" "rem (get (get s)) \<le> rem (get s)"
    using get_facts(3) [of "get (get s)"] get_facts(3) [of "get s"] by linarith+
  moreover have "current (get s) = Some c \<Longrightarrow> rem (get s) < rem s" for c by (rule get_facts(2))
  moreover note rem_unget_get [of s]
  ultimately show "rem (snd (skip_bom s)) \<le> rem s"
    "\<not> fst (skip_bom s) \<Longrightarrow> rem (snd (skip_bom s)) < rem s"
    by (auto simp: skip_bom_def Let_def split: if_splits)
qed

section \<open>The next token\<close>

text \<open>The switch on the first character of a token.\<close>

definition scan_token :: "Lexer \<Rightarrow> token_type \<times> Lexer" where
  "scan_token s =
     (case current s of
        None \<Rightarrow> (End_of_input, s)
      | Some c \<Rightarrow>
          if c = 91 then (Begin_array, s)
          else if c = 93 then (End_array, s)
          else if c = 123 then (Begin_object, s)
          else if c = 125 then (End_object, s)
          else if c = 58 then (Name_separator, s)
          else if c = 44 then (Value_separator, s)
          else if c = 116 then scan_literal true_literal Literal_true s
          else if c = 102 then scan_literal false_literal Literal_false s
          else if c = 110 then scan_literal null_literal Literal_null s
          else if c = 34 then scan_string s
          else if c = 45 \<or> is_digit c then scan_number s
          else if c = 0 then (End_of_input, s)
          else (Parse_error, fail ''invalid literal'' s))"

definition scan :: "Lexer \<Rightarrow> token_type \<times> Lexer" where
  "scan s =
     (let (bom_ok, s1) = (if chars_read_total (position s) = 0 then skip_bom s else (True, s))
      in if \<not> bom_ok
         then (Parse_error, fail ''invalid BOM; must be 0xEF 0xBB 0xBF if given'' s1)
         else
           let (ok, s2) = skip_comments (skip_whitespace s1)
           in if \<not> ok then (Parse_error, s2) else scan_token s2)"

text \<open>
  \<open>get_token_string\<close>: the token as read, for messages, with control characters escaped.
\<close>

definition escape_control :: "u8 \<Rightarrow> string" where
  "escape_control c =
     (if c \<le> 0x1F
      then ''<U+00'' @ [hex_digits ! (unat c div 16), hex_digits ! (unat c mod 16)] @ ''>''
      else [char_of (unat c)])"

definition get_token_string :: "Lexer \<Rightarrow> string" where
  "get_token_string s = concat (map escape_control (token_string s))"

lemma scan_token_rem: "rem (snd (scan_token s)) \<le> rem s"
  using scan_literal_rest_rem scan_string_rem [of s] scan_number_rem [of s]
  by (auto simp: scan_token_def scan_literal_def split: option.split)

text \<open>
  Progress: reading a token never lengthens what is pending, and shortens it unless the token is
  the end of the input.
\<close>

lemma scan_rem: "scan s = (t, s') \<Longrightarrow> rem s' \<le> rem s"
proof -
  assume sc: "scan s = (t, s')"
  obtain b s1 where b: "(if chars_read_total (position s) = 0 then skip_bom s else (True, s)) = (b, s1)"
    by fastforce
  then have r1: "rem s1 \<le> rem s" using skip_bom_rem(1) [of s] by (auto split: if_splits)
  obtain ok s2 where c: "skip_comments (skip_whitespace s1) = (ok, s2)" by fastforce
  then have r2: "rem s2 \<le> rem s1"
    using skip_comments_rem [of "skip_whitespace s1"] skip_whitespace_rem [of s1] by simp
  show ?thesis
    using sc r1 r2 scan_token_rem [of s2]
    by (auto simp: scan_def b c Let_def split: if_splits)
qed

lemma scan_strict:
  assumes "scan s = (t, s')" and "t \<noteq> End_of_input"
  shows "rem s' < rem s"
proof -
  obtain b s1 where b: "(if chars_read_total (position s) = 0 then skip_bom s else (True, s)) = (b, s1)"
    by fastforce
  then have r1: "rem s1 \<le> rem s" "\<not> b \<Longrightarrow> rem s1 < rem s"
    using skip_bom_rem [of s] by (auto split: if_splits)
  let ?w = "skip_whitespace s1"
  obtain ok s2 where c: "skip_comments ?w = (ok, s2)" by fastforce
  have r2: "rem s2 \<le> rem ?w" using skip_comments_rem [of ?w] c by simp
  show ?thesis
  proof (cases "current ?w")
    case None
    then have "ok" "s2 = ?w" using c by (simp_all add: skip_comments.simps [of ?w])
    then show ?thesis
      using assms r1 None by (cases b) (auto simp: scan_def b c Let_def scan_token_def)
  next
    case (Some d)
    then have "rem s2 < rem s1" using skip_whitespace_strict r2 by (meson le_less_trans)
    then show ?thesis
      using assms r1 scan_token_rem [of s2]
      by (auto simp: scan_def b c Let_def split: if_splits)
  qed
qed

end
