(* ===== verification/Json_Value.thy ===== *)
theory Json_Value
  imports Json_Lexer
begin

text \<open>
  JSON values and exceptions of \<open>engine/VortexEngine/json/json.hpp\<close>: \<open>basic_json\<close> with the
  types the reader produces, the object map (\<open>std::map\<close>, kept as a list sorted by key), the
  queries the configuration uses, and the texts of \<open>parse_error\<close> and \<open>out_of_range\<close>.
\<close>

section \<open>Values\<close>

text \<open>
  Integers are their 64-bit words; a float is the text \<open>strtod\<close> reads it from. Binary values, with
  their subtype, are never read from text; \<open>discarded\<close> is what a callback leaves of a value.
\<close>

datatype json =
    J_null
  | J_bool bool
  | J_string bytes
  | J_integer u64
  | J_unsigned u64
  | J_float bytes
  | J_array "json list"
  | J_object "(bytes \<times> json) list"
  | J_binary bytes "u64 option"
  | J_discarded

text \<open>\<open>std::less<std::string>\<close>: lexicographic, by unsigned bytes.\<close>

fun bytes_less :: "bytes \<Rightarrow> bytes \<Rightarrow> bool" where
  "bytes_less xs [] \<longleftrightarrow> False"
| "bytes_less [] (y # ys) \<longleftrightarrow> True"
| "bytes_less (x # xs) (y # ys) \<longleftrightarrow> x < y \<or> x = y \<and> bytes_less xs ys"

text \<open>Assigning \<open>map[k] = v\<close>, and the reference \<open>map[k]\<close>, which inserts null for a new key.\<close>

fun obj_set :: "bytes \<Rightarrow> json \<Rightarrow> (bytes \<times> json) list \<Rightarrow> (bytes \<times> json) list" where
  "obj_set k v [] = [(k, v)]"
| "obj_set k v ((k', v') # o1) =
     (if k = k' then (k, v) # o1
      else if bytes_less k k' then (k, v) # (k', v') # o1
      else (k', v') # obj_set k v o1)"

definition obj_touch :: "bytes \<Rightarrow> (bytes \<times> json) list \<Rightarrow> (bytes \<times> json) list" where
  "obj_touch k o1 = (if map_of o1 k = None then obj_set k J_null o1 else o1)"

lemma bytes_less_irrefl [simp]: "\<not> bytes_less k k"
  by (induction k) auto

lemma bytes_less_trans: "bytes_less a b \<Longrightarrow> bytes_less b c \<Longrightarrow> bytes_less a c"
proof (induction a b arbitrary: c rule: bytes_less.induct)
  case (2 y ys)
  then show ?case by (cases c) auto
next
  case (3 x xs y ys)
  then show ?case by (cases c) auto
qed simp

lemma bytes_less_linear: "a \<noteq> b \<Longrightarrow> \<not> bytes_less a b \<Longrightarrow> bytes_less b a"
proof (induction a b rule: bytes_less.induct)
  case (1 xs)
  then show ?case by (cases xs) auto
qed auto

definition obj_sorted :: "(bytes \<times> json) list \<Rightarrow> bool" where
  "obj_sorted o1 \<longleftrightarrow> sorted_wrt bytes_less (map fst o1)"

lemma obj_set_keys: "fst ` set (obj_set k v o1) = insert k (fst ` set o1)"
  by (induction k v o1 rule: obj_set.induct) auto

lemma obj_sorted_set: "obj_sorted o1 \<Longrightarrow> obj_sorted (obj_set k v o1)"
proof (induction o1)
  case (Cons a o1)
  obtain k' v' where a: "a = (k', v')" by fastforce
  have ih: "obj_sorted (obj_set k v o1)" using Cons by (simp add: obj_sorted_def)
  show ?case
  proof (cases "k = k' \<or> bytes_less k k'")
    case True
    then show ?thesis using Cons.prems bytes_less_trans by (fastforce simp: obj_sorted_def a)
  next
    case False
    then have "bytes_less k' k" using bytes_less_linear by blast
    then have "\<forall>x \<in> fst ` set (obj_set k v o1). bytes_less k' x"
      using Cons.prems by (auto simp: obj_set_keys obj_sorted_def a)
    with False ih show ?thesis by (simp add: obj_sorted_def a)
  qed
qed (simp add: obj_sorted_def)

lemma map_of_obj_set: "map_of (obj_set k v o1) = (map_of o1)(k \<mapsto> v)"
  by (induction k v o1 rule: obj_set.induct) (auto simp: fun_eq_iff)

section \<open>Queries\<close>

fun is_number_unsigned :: "json \<Rightarrow> bool" where
  "is_number_unsigned (J_unsigned n) = True"
| "is_number_unsigned _ = False"

fun is_number_integer :: "json \<Rightarrow> bool" where
  "is_number_integer (J_integer n) = True"
| "is_number_integer (J_unsigned n) = True"
| "is_number_integer _ = False"

fun is_object :: "json \<Rightarrow> bool" where
  "is_object (J_object o1) = True"
| "is_object _ = False"

fun is_array :: "json \<Rightarrow> bool" where
  "is_array (J_array xs) = True"
| "is_array _ = False"

fun contains :: "bytes \<Rightarrow> json \<Rightarrow> bool" where
  "contains key (J_object o1) \<longleftrightarrow> map_of o1 key \<noteq> None"
| "contains key _ \<longleftrightarrow> False"

fun type_name :: "json \<Rightarrow> string" where
  "type_name J_null = ''null''"
| "type_name (J_object o1) = ''object''"
| "type_name (J_array xs) = ''array''"
| "type_name (J_string s) = ''string''"
| "type_name (J_bool b) = ''boolean''"
| "type_name (J_binary bs st) = ''binary''"
| "type_name J_discarded = ''discarded''"
| "type_name _ = ''number''"

section \<open>Exceptions\<close>

datatype json_exception =
    Exn_parse_error nat size_t string
  | Exn_out_of_range nat string
  | Exn_type_error nat string

text \<open>Decimal digits, \<open>std::to_string\<close>.\<close>

definition nat_string :: "nat \<Rightarrow> string" where
  "nat_string n = map (\<lambda>b. char_of (unat b)) (dec_digits n)"

definition exception_name :: "string \<Rightarrow> nat \<Rightarrow> string" where
  "exception_name ename i = ''[json.exception.'' @ ename @ ''.'' @ nat_string i @ ''] ''"

definition position_string :: "position_t \<Rightarrow> string" where
  "position_string pos =
     '' at line '' @ nat_string (unat (lines_read pos + 1)) @
     '', column '' @ nat_string (unat (chars_read_current_line pos))"

definition parse_error_create :: "nat \<Rightarrow> position_t \<Rightarrow> string \<Rightarrow> json_exception" where
  "parse_error_create i pos what =
     Exn_parse_error i (chars_read_total pos)
       (exception_name ''parse_error'' i @ ''parse error'' @ position_string pos @ '': '' @ what)"

definition out_of_range_create :: "nat \<Rightarrow> string \<Rightarrow> json_exception" where
  "out_of_range_create i what = Exn_out_of_range i (exception_name ''out_of_range'' i @ what)"

definition type_error_create :: "nat \<Rightarrow> string \<Rightarrow> json_exception" where
  "type_error_create i what = Exn_type_error i (exception_name ''type_error'' i @ what)"

section \<open>Access\<close>

text \<open>
  \<open>j[key]\<close> with a key that may be new, on an object or on null, which becomes an object; on
  other values it throws.
\<close>

fun subscript :: "bytes \<Rightarrow> json \<Rightarrow> json_exception + (json \<times> json)" where
  "subscript key J_null = Inr (J_null, J_object [(key, J_null)])"
| "subscript key (J_object o1) =
     (case map_of o1 key of
        Some v \<Rightarrow> Inr (v, J_object o1)
      | None \<Rightarrow> Inr (J_null, J_object (obj_set key J_null o1)))"
| "subscript key j =
     Inl (type_error_create 305 (''cannot use operator[] with a string argument with '' @ type_name j))"

text \<open>
  \<open>get<size_t> ()\<close> and \<open>get<int> ()\<close>; the cast of a float to an integer is the parameter \<open>trunc\<close>.
\<close>

definition not_a_number :: "json \<Rightarrow> json_exception" where
  "not_a_number j = type_error_create 302 (''type must be number, but is '' @ type_name j)"

definition get_arithmetic_value :: "(bytes \<Rightarrow> u64) \<Rightarrow> json \<Rightarrow> json_exception + u64" where
  "get_arithmetic_value trunc j =
     (case j of
        J_unsigned n \<Rightarrow> Inr n
      | J_integer n \<Rightarrow> Inr n
      | J_float txt \<Rightarrow> Inr (trunc txt)
      | _ \<Rightarrow> Inl (not_a_number j))"

definition get_int :: "(bytes \<Rightarrow> 32 word) \<Rightarrow> json \<Rightarrow> json_exception + int" where
  "get_int trunc j =
     (case j of
        J_unsigned n \<Rightarrow> Inr (sint (ucast n :: 32 word))
      | J_integer n \<Rightarrow> Inr (sint (ucast n :: 32 word))
      | J_float txt \<Rightarrow> Inr (sint (trunc txt))
      | J_bool b \<Rightarrow> Inr (if b then 1 else 0)
      | _ \<Rightarrow> Inl (not_a_number j))"

section \<open>Floats\<close>

text \<open>
  \<open>std::isfinite\<close> of what \<open>strtod\<close> returns for the text of a number: rounding to nearest
  overflows from \<open>2 ^ 1024 - 2 ^ 970\<close> on. The text is its digits without the point, as a
  number, times a power of ten.
\<close>

definition unsign :: "bytes \<Rightarrow> bytes" where
  "unsign bs = (if bs \<noteq> [] \<and> (hd bs = 45 \<or> hd bs = 43) then tl bs else bs)"

definition float_parts :: "bytes \<Rightarrow> nat \<times> int" where
  "float_parts bs =
     (let m = takeWhile (\<lambda>c. \<not> is_exp c) (unsign bs);
          ex = tl (dropWhile (\<lambda>c. \<not> is_exp c) bs);
          frac = tl (dropWhile (\<lambda>c. c \<noteq> 46) m);
          e = (if ex \<noteq> [] \<and> hd ex = 45 then - int (dec_acc 0 (tl ex)) else int (dec_acc 0 (unsign ex)))
      in (dec_acc 0 (filter (\<lambda>c. c \<noteq> 46) m), e - int (length frac)))"

definition float_finite :: "bytes \<Rightarrow> bool" where
  "float_finite bs =
     (case float_parts bs of (m, e) \<Rightarrow>
        (if 0 \<le> e then m * 10 ^ nat e < 2 ^ 1024 - 2 ^ 970
         else m < (2 ^ 1024 - 2 ^ 970) * 10 ^ nat (- e)))"

end
