(* ===== verification/Json_Parser.thy ===== *)
theory Json_Parser
  imports Json_Value
begin

text \<open>
  \<open>detail::json_sax_dom_parser\<close> and \<open>detail::parser\<close> of
  \<open>engine/VortexEngine/json/json.hpp\<close>: the builder of the value, the event loop
  \<open>sax_parse_internal\<close> with its stack of open containers, and \<open>parse\<close>. An exception is the left
  value of a sum. Each round of the loop reads a token, which is why it ends.
\<close>

section \<open>The builder\<close>

text \<open>
  \<open>ref_stack\<close> points at the open containers, the innermost last in the code and first here, and
  \<open>object_element\<close> at the member of the innermost object that gets the next value. Here each
  entry holds the contents of its container so far, and an object the key of that member. The
  place of an open container in its parent is empty until the container is closed, and then gets
  its contents: what the code's pointer has been writing to.
\<close>

datatype container =
    Array_at "json list"
  | Object_at "(bytes \<times> json) list" "bytes option"

record Dom =
  root :: json
  ref_stack :: "container list"

definition Dom_ctor :: "json \<Rightarrow> Dom" where
  "Dom_ctor r = \<lparr>root = r, ref_stack = []\<rparr>"

fun container_value :: "container \<Rightarrow> json" where
  "container_value (Array_at xs) = J_array xs"
| "container_value (Object_at o1 k) = J_object o1"

text \<open>
  \<open>handle_value\<close>; without a key in an object the code's assertion fails, and the value is dropped.
\<close>

definition handle_value :: "json \<Rightarrow> Dom \<Rightarrow> Dom" where
  "handle_value v d =
     (case ref_stack d of
        [] \<Rightarrow> d\<lparr>root := v\<rparr>
      | Array_at xs # cs \<Rightarrow> d\<lparr>ref_stack := Array_at (xs @ [v]) # cs\<rparr>
      | Object_at o1 (Some k) # cs \<Rightarrow> d\<lparr>ref_stack := Object_at (obj_set k v o1) (Some k) # cs\<rparr>
      | Object_at o1 None # cs \<Rightarrow> d)"

text \<open>Write to the place that the last \<open>handle_value\<close> returned.\<close>

definition replace_value :: "json \<Rightarrow> Dom \<Rightarrow> Dom" where
  "replace_value v d =
     (case ref_stack d of
        [] \<Rightarrow> d\<lparr>root := v\<rparr>
      | Array_at xs # cs \<Rightarrow> d\<lparr>ref_stack := Array_at (butlast xs @ [v]) # cs\<rparr>
      | Object_at o1 (Some k) # cs \<Rightarrow> d\<lparr>ref_stack := Object_at (obj_set k v o1) (Some k) # cs\<rparr>
      | Object_at o1 None # cs \<Rightarrow> d)"

text \<open>The length passed is always -1, unknown, so the length checks never throw.\<close>

definition start_object :: "Dom \<Rightarrow> Dom" where
  "start_object d =
     (let d1 = handle_value (J_object []) d in d1\<lparr>ref_stack := Object_at [] None # ref_stack d1\<rparr>)"

definition start_array :: "Dom \<Rightarrow> Dom" where
  "start_array d =
     (let d1 = handle_value (J_array []) d in d1\<lparr>ref_stack := Array_at [] # ref_stack d1\<rparr>)"

definition object_key :: "bytes \<Rightarrow> Dom \<Rightarrow> Dom" where
  "object_key val d =
     (case ref_stack d of
        Object_at o1 k # cs \<Rightarrow> d\<lparr>ref_stack := Object_at (obj_touch val o1) (Some val) # cs\<rparr>
      | _ \<Rightarrow> d)"

text \<open>\<open>end_object\<close> and \<open>end_array\<close>: the container is complete.\<close>

definition end_container :: "Dom \<Rightarrow> Dom" where
  "end_container d =
     (case ref_stack d of
        c # cs \<Rightarrow> replace_value (container_value c) (d\<lparr>ref_stack := cs\<rparr>)
      | [] \<Rightarrow> d)"

section \<open>The parser's state and messages\<close>

record Parser =
  last_token :: token_type
  m_lexer :: Lexer

definition get_token :: "Parser \<Rightarrow> Parser" where
  "get_token p = (case scan (m_lexer p) of (t, s) \<Rightarrow> p\<lparr>last_token := t, m_lexer := s\<rparr>)"

text \<open>The constructor reads the first token.\<close>

definition Parser_ctor :: "bytes \<Rightarrow> bool \<Rightarrow> Parser" where
  "Parser_ctor adapter skip_comments_flag =
     get_token \<lparr>last_token = Uninitialized, m_lexer = Lexer_ctor adapter skip_comments_flag\<rparr>"

definition exception_message :: "token_type \<Rightarrow> string \<Rightarrow> Parser \<Rightarrow> string" where
  "exception_message expected ctxt p =
     ''syntax error '' @ (if ctxt \<noteq> [] then ''while parsing '' @ ctxt @ '' '' else []) @ ''- '' @
     (if last_token p = Parse_error
      then error_message (m_lexer p) @ ''; last read: '' @ quoted (get_token_string (m_lexer p))
      else ''unexpected '' @ token_type_name (last_token p)) @
     (if expected \<noteq> Uninitialized then ''; expected '' @ token_type_name expected else [])"

definition syntax_error :: "token_type \<Rightarrow> string \<Rightarrow> Parser \<Rightarrow> json_exception" where
  "syntax_error expected ctxt p =
     parse_error_create 101 (position (m_lexer p)) (exception_message expected ctxt p)"

definition number_overflow :: "Parser \<Rightarrow> json_exception" where
  "number_overflow p =
     out_of_range_create 406 (''number overflow parsing '' @ quoted (get_token_string (m_lexer p)))"

definition empty_input :: "Parser \<Rightarrow> json_exception" where
  "empty_input p =
     parse_error_create 101 (position (m_lexer p))
       ''attempting to parse an empty input; check that your input string or stream contains the expected JSON''"

section \<open>The loop\<close>

text \<open>A member's key and separator, with the key as last token; the value's first token is read.\<close>

definition parse_key :: "Parser \<Rightarrow> Dom \<Rightarrow> json_exception + (Parser \<times> Dom)" where
  "parse_key p d =
     (if last_token p \<noteq> Value_string then Inl (syntax_error Value_string ''object key'' p)
      else
        let d1 = object_key (token_buffer (m_lexer p)) d; p1 = get_token p
        in if last_token p1 \<noteq> Name_separator
           then Inl (syntax_error Name_separator ''object separator'' p1)
           else Inr (get_token p1, d1))"

text \<open>
  The switch on the last token. \<open>None\<close>: a value is complete; \<open>Some b\<close>: a container was opened
  that \<open>states\<close> remembers, an array for \<open>True\<close>, and the loop continues.
\<close>

definition value_step :: "Parser \<Rightarrow> Dom \<Rightarrow> json_exception + (bool option \<times> Parser \<times> Dom)" where
  "value_step p d =
     (case last_token p of
        Begin_object \<Rightarrow>
          (let d1 = start_object d; p1 = get_token p
           in if last_token p1 = End_object then Inr (None, p1, end_container d1)
              else case parse_key p1 d1 of
                     Inl e \<Rightarrow> Inl e
                   | Inr (p2, d2) \<Rightarrow> Inr (Some False, p2, d2))
      | Begin_array \<Rightarrow>
          (let d1 = start_array d; p1 = get_token p
           in if last_token p1 = End_array then Inr (None, p1, end_container d1)
              else Inr (Some True, p1, d1))
      | Value_float \<Rightarrow>
          (if \<not> float_finite (value_float (m_lexer p)) then Inl (number_overflow p)
           else Inr (None, p, handle_value (J_float (value_float (m_lexer p))) d))
      | Literal_false \<Rightarrow> Inr (None, p, handle_value (J_bool False) d)
      | Literal_null \<Rightarrow> Inr (None, p, handle_value J_null d)
      | Literal_true \<Rightarrow> Inr (None, p, handle_value (J_bool True) d)
      | Value_integer \<Rightarrow> Inr (None, p, handle_value (J_integer (value_integer (m_lexer p))) d)
      | Value_string \<Rightarrow> Inr (None, p, handle_value (J_string (token_buffer (m_lexer p))) d)
      | Value_unsigned \<Rightarrow> Inr (None, p, handle_value (J_unsigned (value_unsigned (m_lexer p))) d)
      | Parse_error \<Rightarrow> Inl (syntax_error Uninitialized ''value'' p)
      | End_of_input \<Rightarrow>
          (if chars_read_total (position (m_lexer p)) = 1 then Inl (empty_input p)
           else Inl (syntax_error Literal_or_value ''value'' p))
      | _ \<Rightarrow> Inl (syntax_error Literal_or_value ''value'' p))"

text \<open>
  The evaluation of the innermost open container, after a value in it is complete. \<open>True\<close>: it was
  closed and the state below is evaluated next; \<open>False\<close>: the next value follows.
\<close>

definition state_step :: "bool \<Rightarrow> Parser \<Rightarrow> Dom \<Rightarrow> json_exception + (bool \<times> Parser \<times> Dom)" where
  "state_step is_arr p d =
     (let p1 = get_token p
      in if is_arr then
           (if last_token p1 = Value_separator then Inr (False, get_token p1, d)
            else if last_token p1 = End_array then Inr (True, p1, end_container d)
            else Inl (syntax_error End_array ''array'' p1))
         else
           (if last_token p1 = Value_separator then
              (case parse_key (get_token p1) d of
                 Inl e \<Rightarrow> Inl e
               | Inr (p2, d2) \<Rightarrow> Inr (False, p2, d2))
            else if last_token p1 = End_object then Inr (True, p1, end_container d)
            else Inl (syntax_error End_object ''object'' p1)))"

text \<open>Each step reads on; the measure of the loop.\<close>

abbreviation prem :: "Parser \<Rightarrow> nat" where
  "prem p \<equiv> rem (m_lexer p)"

lemma get_token_rem: "prem (get_token p) \<le> prem p"
  using scan_rem [of "m_lexer p"] by (simp add: get_token_def split: prod.split)

lemma get_token_strict: "last_token (get_token p) \<noteq> End_of_input \<Longrightarrow> prem (get_token p) < prem p"
  using scan_strict [of "m_lexer p"] by (cases "scan (m_lexer p)") (simp add: get_token_def)

lemma parse_key_rem:
  assumes "parse_key p d = Inr (p', d')"
  shows "prem p' < prem p"
proof -
  have "last_token (get_token p) = Name_separator" "p' = get_token (get_token p)"
    using assms by (auto simp: parse_key_def Let_def split: if_splits)
  then show ?thesis
    using get_token_strict [of p] get_token_rem [of "get_token p"] by simp
qed

definition todo :: "bool \<Rightarrow> Parser \<Rightarrow> nat" where
  "todo skip p = 2 * prem p + (if skip \<or> last_token p = End_of_input then 0 else 1)"

lemma value_step_todo:
  assumes "value_step p d = Inr (Some b, p', d')"
  shows "todo False p' < todo False p"
proof (cases "last_token p = Begin_object")
  case True
  then have "parse_key (get_token p) (start_object d) = Inr (p', d')"
    using assms by (auto simp: value_step_def Let_def split: if_splits sum.splits prod.splits)
  from parse_key_rem [OF this] have "prem p' < prem p" using get_token_rem [of p] by simp
  then show ?thesis by (simp add: todo_def)
next
  case False
  then have "last_token p = Begin_array" "p' = get_token p"
    using assms by (auto simp: value_step_def Let_def split: if_splits sum.splits prod.splits token_type.splits)
  then show ?thesis
    using get_token_strict [of p] get_token_rem [of p] by (auto simp: todo_def)
qed

lemma value_step_rem:
  assumes "value_step p d = Inr (r, p', d')"
  shows "prem p' \<le> prem p"
proof (cases r)
  case None
  then have "p' = p \<or> p' = get_token p"
    using assms by (auto simp: value_step_def Let_def split: if_splits sum.splits prod.splits token_type.splits)
  then show ?thesis using get_token_rem [of p] by auto
next
  case (Some b)
  then show ?thesis using value_step_todo [of p d b p' d'] assms by (auto simp: todo_def split: if_splits)
qed

lemma state_step_rem:
  assumes "state_step b p d = Inr (c, p', d')"
  shows "prem p' < prem p"
proof -
  let ?p1 = "get_token p"
  have "last_token ?p1 \<noteq> End_of_input"
    using assms by (auto simp: state_step_def Let_def split: if_splits)
  then have s: "prem ?p1 < prem p" by (rule get_token_strict)
  have "prem p' \<le> prem ?p1"
    using assms get_token_rem [of ?p1] parse_key_rem [of "get_token ?p1" d]
    by (auto simp: state_step_def Let_def less_imp_le split: if_splits sum.splits)
  with s show ?thesis by simp
qed

lemma open_decreases:
  assumes "(if skip then Inr (None, p, d) else value_step p d) = Inr (Some b, p1, d1)"
  shows "todo False p1 < todo skip p"
  using assms value_step_todo [of p d b p1 d1] by (auto split: if_splits)

lemma state_decreases:
  assumes "(if skip then Inr (None, p, d) else value_step p d) = Inr (None, p1, d1)"
    and "state_step b p1 d1 = Inr (c, p2, d2)"
  shows "todo c p2 < todo skip p"
proof -
  have "prem p1 \<le> prem p" using assms(1) value_step_rem by (auto split: if_splits)
  with state_step_rem [OF assms(2)] show ?thesis by (simp add: todo_def)
qed

text \<open>\<open>sax_parse_internal\<close>; \<open>skip\<close> is \<open>skip_to_state_evaluation\<close>.\<close>

function sax_parse_internal ::
  "bool \<Rightarrow> bool list \<Rightarrow> Parser \<Rightarrow> Dom \<Rightarrow> json_exception + (Parser \<times> Dom)" where
  "sax_parse_internal skip states p d =
     (case (if skip then Inr (None, p, d) else value_step p d) of
        Inl e \<Rightarrow> Inl e
      | Inr (Some b, p1, d1) \<Rightarrow> sax_parse_internal False (b # states) p1 d1
      | Inr (None, p1, d1) \<Rightarrow>
          (case states of
             [] \<Rightarrow> Inr (p1, d1)
           | b # bs \<Rightarrow>
               (case state_step b p1 d1 of
                  Inl e \<Rightarrow> Inl e
                | Inr (closed, p2, d2) \<Rightarrow>
                    sax_parse_internal closed (if closed then bs else states) p2 d2)))"
  by pat_completeness auto
termination
  by (relation "measure (\<lambda>(skip, states, p, d). todo skip p)")
    (auto intro: open_decreases state_decreases)

declare sax_parse_internal.simps [simp del]

text \<open>\<open>parse\<close>; with \<open>strict\<close> nothing may follow the value.\<close>

definition parse :: "bool \<Rightarrow> Parser \<Rightarrow> json_exception + json" where
  "parse strict p =
     (case sax_parse_internal False [] p (Dom_ctor J_null) of
        Inl e \<Rightarrow> Inl e
      | Inr (p1, d1) \<Rightarrow>
          if strict \<and> last_token (get_token p1) \<noteq> End_of_input
          then Inl (syntax_error End_of_input ''value'' (get_token p1))
          else Inr (root d1))"

text \<open>\<open>operator>>\<close> on a stream with the given contents: comments are errors, and what follows the
  value is left unread.\<close>

definition stream_in :: "bytes \<Rightarrow> json_exception + json" where
  "stream_in contents = parse False (Parser_ctor contents False)"

text \<open>\<open>basic_json::parse\<close> on a text.\<close>

definition json_parse :: "bytes \<Rightarrow> bool \<Rightarrow> json_exception + json" where
  "json_parse contents skip_comments_flag = parse True (Parser_ctor contents skip_comments_flag)"

section \<open>Invariants of the loop\<close>

text \<open>
  What every step keeps holds of the result, and what every exception of a step has, the exception
  of the loop has.
\<close>

lemma sax_rule:
  assumes "\<And>p d e. I p d \<Longrightarrow> value_step p d = Inl e \<Longrightarrow> E e"
    and "\<And>p d b e. I p d \<Longrightarrow> state_step b p d = Inl e \<Longrightarrow> E e"
    and "\<And>p d r p' d'. I p d \<Longrightarrow> value_step p d = Inr (r, p', d') \<Longrightarrow> I p' d'"
    and "\<And>p d b c p' d'. I p d \<Longrightarrow> state_step b p d = Inr (c, p', d') \<Longrightarrow> I p' d'"
    and "I p d"
  shows "case sax_parse_internal skip states p d of Inl e \<Rightarrow> E e | Inr (p', d') \<Rightarrow> I p' d'"
  using assms(5)
proof (induction skip states p d rule: sax_parse_internal.induct)
  case (1 skip states p d)
  let ?v = "if skip then Inr (None, p, d) else value_step p d"
  show ?case
  proof (cases ?v)
    case (Inl e)
    then have "E e" using assms(1) "1.prems" by (auto split: if_splits)
    with Inl show ?thesis by (subst sax_parse_internal.simps) simp
  next
    case (Inr r)
    obtain ob p1 d1 where r: "r = (ob, p1, d1)" by (cases r)
    then have i: "I p1 d1" using Inr assms(3) "1.prems" by (auto split: if_splits)
    show ?thesis
    proof (cases ob)
      case (Some b)
      then have v: "?v = Inr (Some b, p1, d1)" using Inr r by simp
      from "1.IH"(2) [OF v refl refl refl i] v show ?thesis by (subst sax_parse_internal.simps) simp
    next
      case None
      then have v: "?v = Inr (None, p1, d1)" using Inr r by simp
      show ?thesis
      proof (cases states)
        case Nil
        with v i show ?thesis by (subst sax_parse_internal.simps) simp
      next
        case (Cons b bs)
        show ?thesis
        proof (cases "state_step b p1 d1")
          case (Inl e)
          with v Cons assms(2) [OF i Inl] show ?thesis by (subst sax_parse_internal.simps) simp
        next
          case (Inr z)
          obtain c p2 d2 where z: "z = (c, p2, d2)" by (cases z)
          then have "I p2 d2" using Inr assms(4) i by blast
          from "1.IH"(1) [OF v refl refl refl Cons Inr z [symmetric] refl this] v Cons Inr z
          show ?thesis by (subst sax_parse_internal.simps) simp
        qed
      qed
    qed
  qed
qed

section \<open>The exceptions\<close>

text \<open>The reader throws \<open>parse_error\<close> 101 and, for a number that is too large, \<open>out_of_range\<close> 406.\<close>

definition thrown :: "json_exception \<Rightarrow> bool" where
  "thrown e \<longleftrightarrow> (\<exists>at txt. e = Exn_parse_error 101 at txt) \<or> (\<exists>txt. e = Exn_out_of_range 406 txt)"

lemma thrown_intros [simp, intro]:
  "thrown (syntax_error t ctxt p)" "thrown (empty_input p)" "thrown (number_overflow p)"
  by (simp_all add: thrown_def syntax_error_def empty_input_def number_overflow_def
      parse_error_create_def out_of_range_create_def)

lemma parse_key_thrown: "parse_key p d = Inl e \<Longrightarrow> thrown e"
  by (auto simp: parse_key_def Let_def split: if_splits)

lemma value_step_thrown: "value_step p d = Inl e \<Longrightarrow> thrown e"
  using parse_key_thrown
  by (auto simp: value_step_def Let_def split: token_type.splits if_splits sum.splits)

lemma state_step_thrown: "state_step b p d = Inl e \<Longrightarrow> thrown e"
  using parse_key_thrown by (auto simp: state_step_def Let_def split: if_splits sum.splits)

lemma sax_thrown: "sax_parse_internal skip states p d = Inl e \<Longrightarrow> thrown e"
  using sax_rule [of "\<lambda>p d. True" thrown p d skip states] value_step_thrown state_step_thrown
  by (auto split: sum.splits)

lemma stream_in_thrown: "stream_in contents = Inl e \<Longrightarrow> thrown e"
  using sax_thrown by (auto simp: stream_in_def parse_def split: sum.splits)

end
