(* ===== verification/Magic_Ring.thy ===== *)
theory Magic_Ring
  imports Cpp_Text
begin

text \<open>
  \<open>Network::MagicRingBuffer\<close> (\<open>engine/Network\<close>): a ring whose memory is mapped twice in a
  row, so that any \<open>size\<close> bytes from any position are contiguous. The memory is the list of
  its \<open>size\<close> physical bytes; address \<open>base_ptr + i\<close>, for \<open>i\<close> below \<open>2 * size\<close>, is byte
  \<open>i mod size\<close>. The answers of the Windows calls are parameters and the calls are recorded.
\<close>

section \<open>State\<close>

record MagicRingBuffer =
  ring_hMapFile :: bool
  viewA :: bool
  viewB :: bool
  base_ptr :: bool
  ring_size :: size_t
  ring_head :: size_t
  ring_tail :: size_t
  memory :: bytes

definition get_write_ptr :: "MagicRingBuffer \<Rightarrow> size_t" where
  "get_write_ptr r = ring_head r AND (ring_size r - 1)"

definition get_write_space :: "MagicRingBuffer \<Rightarrow> size_t" where
  "get_write_space r = ring_size r - (ring_head r - ring_tail r)"

definition get_bytes_available :: "MagicRingBuffer \<Rightarrow> size_t" where
  "get_bytes_available r = ring_head r - ring_tail r"

definition commit_write :: "size_t \<Rightarrow> MagicRingBuffer \<Rightarrow> MagicRingBuffer" where
  "commit_write bytes_written r = r\<lparr>ring_head := ring_head r + bytes_written\<rparr>"

definition consume :: "size_t \<Rightarrow> MagicRingBuffer \<Rightarrow> MagicRingBuffer" where
  "consume bytes_consumed r = r\<lparr>ring_tail := ring_tail r + bytes_consumed\<rparr>"

definition reset :: "MagicRingBuffer \<Rightarrow> MagicRingBuffer" where
  "reset r = r\<lparr>ring_head := 0, ring_tail := 0\<rparr>"

text \<open>A read through the double mapping, and the bytes a \<open>string_view\<close> covers.\<close>

definition mirror :: "MagicRingBuffer \<Rightarrow> nat \<Rightarrow> u8" where
  "mirror r i = memory r ! (i mod unat (ring_size r))"

definition get_view :: "size_t \<Rightarrow> MagicRingBuffer \<Rightarrow> bytes" where
  "get_view len r =
     (let start = unat (ring_tail r AND (ring_size r - 1))
      in map (\<lambda>i. mirror r (start + i)) [0..<unat len])"

definition peek :: "u32 \<Rightarrow> MagicRingBuffer \<Rightarrow> u32" where
  "peek usize r =
     (let at = unat ((ring_tail r + ucast usize) AND (ring_size r - 1))
      in le32 (mirror r at) (mirror r (at + 1)) (mirror r (at + 2)) (mirror r (at + 3)))"

text \<open>
  What \<open>async_read_some\<close> does to the memory: the received bytes are stored from the write
  pointer on, through the double mapping.
\<close>

definition receive_bytes :: "bytes \<Rightarrow> MagicRingBuffer \<Rightarrow> MagicRingBuffer" where
  "receive_bytes data r =
     (let N = unat (ring_size r); start = unat (get_write_ptr r)
      in r\<lparr>memory := map (\<lambda>j. let i = (j + N - start) mod N
                             in if i < length data then data ! i else memory r ! j) [0..<N]\<rparr>)"

section \<open>The invariant and the content\<close>

definition ring_wf :: "MagicRingBuffer \<Rightarrow> bool" where
  "ring_wf r \<longleftrightarrow>
     (\<exists>n. 16 \<le> n \<and> n < 63 \<and> ring_size r = 2 ^ n) \<and> length (memory r) = unat (ring_size r) \<and>
     unat (get_bytes_available r) \<le> unat (ring_size r)"

definition stash :: "MagicRingBuffer \<Rightarrow> bytes" where
  "stash r = map (\<lambda>i. mirror r (unat (ring_tail r) + i)) [0..<unat (get_bytes_available r)]"

lemma length_stash [simp]: "length (stash r) = unat (get_bytes_available r)"
  by (simp add: stash_def)

lemma ring_wfE:
  assumes "ring_wf r"
  obtains n where "16 \<le> n" and "n < 63" and "ring_size r = 2 ^ n" and "unat (ring_size r) = 2 ^ n"
    and "length (memory r) = 2 ^ n" and "unat (get_bytes_available r) \<le> 2 ^ n"
  using assms by (auto simp: ring_wf_def unat_exp_word)

lemma unat_and_size:
  fixes x :: size_t
  assumes "ring_wf r"
  shows "unat (x AND (ring_size r - 1)) = unat x mod unat (ring_size r)"
proof -
  obtain n where "n < 63" "ring_size r = 2 ^ n" "unat (ring_size r) = 2 ^ n" using ring_wfE [OF assms] .
  then show ?thesis using unat_mask_and [of n x] by simp
qed

text \<open>Adding on the 64-bit counters, reduced to the ring: the wrap at 64 bits is invisible.\<close>

lemma unat_add_mod_size:
  fixes x y :: size_t
  assumes "ring_wf r"
  shows "unat (x + y) mod unat (ring_size r) = (unat x + unat y) mod unat (ring_size r)"
proof -
  obtain n where n: "n < 63" "unat (ring_size r) = 2 ^ n" using ring_wfE [OF assms] .
  have "unat (x + y) mod 2 ^ n = (unat x + unat y) mod 2 ^ 64 mod 2 ^ n"
    by (simp add: unat_word_ariths)
  also have "\<dots> = (unat x + unat y) mod 2 ^ n" using n(1) by (intro mod_exp_add_mod) simp
  finally show ?thesis by (simp add: n)
qed

lemma mirror_mod: "mirror r (i mod unat (ring_size r)) = mirror r i"
  by (simp add: mirror_def)

lemma mirror_add_mod: "mirror r (i mod unat (ring_size r) + k) = mirror r (i + k)"
  by (simp add: mirror_def mod_simps)

lemma mirror_word_add:
  fixes x y :: size_t
  assumes "ring_wf r"
  shows "mirror r (unat (x + y) + k) = mirror r (unat x + unat y + k)"
  by (metis mirror_add_mod unat_add_mod_size [OF assms])

lemma stash_nth:
  "i < unat (get_bytes_available r) \<Longrightarrow> stash r ! i = mirror r (unat (ring_tail r) + i)"
  by (simp add: stash_def)

section \<open>Reading\<close>

lemma get_view_stash:
  assumes wf: "ring_wf r" and n: "unat len \<le> length (stash r)"
  shows "get_view len r = take (unat len) (stash r)"
proof (rule nth_equalityI)
  show "length (get_view len r) = length (take (unat len) (stash r))"
    using n by (simp add: get_view_def)
  fix i assume "i < length (get_view len r)"
  then have "i < unat len" by (simp add: get_view_def)
  then show "get_view len r ! i = take (unat len) (stash r) ! i"
    using n by (simp add: get_view_def Let_def unat_and_size [OF wf] mirror_add_mod stash_nth)
qed

lemma peek_stash:
  assumes wf: "ring_wf r" and n: "unat u + 4 \<le> length (stash r)"
  shows "peek u r = le32 (stash r ! unat u) (stash r ! (unat u + 1))
     (stash r ! (unat u + 2)) (stash r ! (unat u + 3))"
proof -
  note u = unat_ucast_u32 [of u]
  have m: "mirror r (unat ((ring_tail r + ucast u) AND (ring_size r - 1)) + k) =
      mirror r (unat (ring_tail r) + (unat u + k))" for k
    using mirror_word_add [OF wf, of "ring_tail r" "ucast u" k]
    by (simp add: unat_and_size [OF wf] mirror_add_mod u add.assoc)
  show ?thesis
    using n m [of 0] m [of 1] m [of 2] m [of 3] by (simp add: peek_def Let_def stash_nth)
qed

section \<open>Consuming and receiving\<close>

lemma consume_stash:
  assumes wf: "ring_wf r" and n: "unat k \<le> length (stash r)"
  shows "ring_wf (consume k r)" and "stash (consume k r) = drop (unat k) (stash r)"
    and "unat (get_bytes_available (consume k r)) = unat (get_bytes_available r) - unat k"
proof -
  have "get_bytes_available (consume k r) = get_bytes_available r - k"
    by (simp add: get_bytes_available_def consume_def)
  then show av: "unat (get_bytes_available (consume k r)) = unat (get_bytes_available r) - unat k"
    using n by (simp add: unat_sub word_le_nat_alt)
  show "ring_wf (consume k r)"
    using wf av unfolding ring_wf_def by (auto simp: consume_def)
  have mir: "mirror (consume k r) = mirror r" by (simp add: fun_eq_iff mirror_def consume_def)
  show "stash (consume k r) = drop (unat k) (stash r)"
  proof (rule nth_equalityI)
    show "length (stash (consume k r)) = length (drop (unat k) (stash r))" by (simp add: av)
    fix i assume "i < length (stash (consume k r))"
    then have i: "i < unat (get_bytes_available r) - unat k" by (simp add: av)
    have "stash (consume k r) ! i = mirror r (unat (ring_tail r + k) + i)"
      using i av by (simp add: stash_nth mir) (simp add: consume_def)
    also have "\<dots> = mirror r (unat (ring_tail r) + (unat k + i))"
      by (simp add: mirror_word_add [OF wf] add.assoc)
    also have "\<dots> = drop (unat k) (stash r) ! i"
      using i n by (simp add: stash_nth)
    finally show "stash (consume k r) ! i = drop (unat k) (stash r) ! i" .
  qed
qed

lemma write_space_nat:
  assumes "ring_wf r"
  shows "unat (get_write_space r) = unat (ring_size r) - length (stash r)"
  using assms by (simp add: ring_wf_def get_write_space_def get_bytes_available_def unat_sub
      word_le_nat_alt)

text \<open>Distance along the ring from the write position to the place of content byte \<open>i\<close>.\<close>

lemma ring_distance:
  assumes "i < N" and "a \<le> N" and "0 < (N :: nat)"
  shows "((t + i) mod N + N - (t + a) mod N) mod N = (if i < a then i + N - a else i - a)"
proof -
  have "(t + a) mod N < N" using assms(3) by simp
  then have "int (((t + i) mod N + N - (t + a) mod N) mod N) =
      (int ((t + i) mod N) + int N - int ((t + a) mod N)) mod int N"
    by (simp add: zmod_int of_nat_diff)
  also have "\<dots> = (int (t + i) mod int N - int (t + a) mod int N + int N) mod int N"
    by (simp only: zmod_int diff_add_eq add.commute add_diff_eq)
  also have "\<dots> = (int i - int a) mod int N"
    by (simp add: mod_diff_eq)
  also have "\<dots> = int (if i < a then i + N - a else i - a)"
  proof (cases "i < a")
    case True
    have "(int i - int a) mod int N = (int i - int a + int N) mod int N" by simp
    also have "\<dots> = int i - int a + int N"
      using True assms by (intro mod_pos_pos_trivial) simp_all
    finally show ?thesis using True assms by (simp add: of_nat_diff)
  next
    case False
    then show ?thesis using assms by (simp add: of_nat_diff mod_pos_pos_trivial)
  qed
  finally show ?thesis by (simp only: of_nat_eq_iff)
qed

lemma receive_stash:
  assumes wf: "ring_wf r" and n: "length data \<le> unat (get_write_space r)"
  defines "r' \<equiv> commit_write (word_of_nat (length data)) (receive_bytes data r)"
  shows "ring_wf r'" and "stash r' = stash r @ data"
proof -
  let ?N = "unat (ring_size r)" and ?a = "unat (get_bytes_available r)"
  obtain m where m: "16 \<le> m" "m < 63" "ring_size r = 2 ^ m" "?N = 2 ^ m" using ring_wfE [OF wf] .
  have N: "0 < ?N" unfolding m(4) by simp
  have a: "?a \<le> ?N" using wf by (simp add: ring_wf_def)
  have d: "length data \<le> ?N - ?a" using n write_space_nat [OF wf] by simp
  have "?N < 2 ^ 63"
    unfolding m(4) using m(2) by (intro power_strict_increasing) simp_all
  then have small: "?a + length data < 2 ^ 64" using a d by simp
  have ld: "unat (word_of_nat (length data) :: size_t) = length data"
    using small by (intro unat_word_of_nat_small) simp
  have "get_bytes_available r' = get_bytes_available r + word_of_nat (length data)"
    by (simp add: r'_def get_bytes_available_def commit_write_def receive_bytes_def Let_def)
  then have av: "unat (get_bytes_available r') = ?a + length data"
    using small ld by (simp add: unat_add_small)
  have sz: "ring_size r' = ring_size r" by (simp add: r'_def commit_write_def receive_bytes_def Let_def)
  have lm: "length (memory r') = ?N"
    by (simp add: r'_def commit_write_def receive_bytes_def Let_def)
  show "ring_wf r'"
    unfolding ring_wf_def sz lm av using a d m by auto
  have "ring_head r = ring_tail r + get_bytes_available r" by (simp add: get_bytes_available_def)
  then have start: "unat (get_write_ptr r) = (unat (ring_tail r) + ?a) mod ?N"
    by (simp add: get_write_ptr_def unat_and_size [OF wf] unat_add_mod_size [OF wf])
  have byte: "mirror r' (unat (ring_tail r) + i) =
      (if i < ?a then mirror r (unat (ring_tail r) + i) else data ! (i - ?a))"
    if i: "i < ?a + length data" for i
  proof -
    have iN: "i < ?N" using i d a by linarith
    let ?j = "(unat (ring_tail r) + i) mod ?N"
    have j: "?j < ?N" using N by simp
    have "memory r' ! ?j =
        (let k = (?j + ?N - unat (get_write_ptr r)) mod ?N
         in if k < length data then data ! k else memory r ! ?j)"
      using j by (simp add: r'_def commit_write_def receive_bytes_def Let_def)
    also have "(?j + ?N - unat (get_write_ptr r)) mod ?N = (if i < ?a then i + ?N - ?a else i - ?a)"
      unfolding start by (rule ring_distance) (use iN a N in auto)
    finally show ?thesis
      using i d a iN by (auto simp: mirror_def sz Let_def)
  qed
  have t: "ring_tail r' = ring_tail r"
    by (simp add: r'_def commit_write_def receive_bytes_def Let_def)
  show "stash r' = stash r @ data"
  proof (rule nth_equalityI)
    show "length (stash r') = length (stash r @ data)" by (simp add: av)
    fix i assume "i < length (stash r')"
    then have i: "i < ?a + length data" by (simp add: av)
    then show "stash r' ! i = (stash r @ data) ! i"
      using byte [OF i] by (simp add: stash_nth av t nth_append)
  qed
qed

section \<open>The portal: mapping the memory twice\<close>

datatype portal_call =
    VirtualAlloc2
  | VirtualFreeEx_split
  | VirtualFreeEx_release
  | CreateFileMapping u32
  | MapViewOfFile3_A
  | MapViewOfFile3_B
  | UnmapViewOfFile2_A
  | UnmapViewOfFile2_B
  | CloseHandle_section

text \<open>
  The system's answers to the five calls of \<open>start_portal\<close>, in order: reserve, split, create
  the section, map it at the base, map it behind.
\<close>

record portal_answers =
  reserve_ok :: bool
  split_ok :: bool
  section_ok :: bool
  mapA_ok :: bool
  mapB_ok :: bool

definition start_portal ::
  "portal_answers \<Rightarrow> MagicRingBuffer \<Rightarrow> portal_call list \<times> (string + MagicRingBuffer)" where
  "start_portal w r =
     (if \<not> reserve_ok w
      then ([], Inl ''Could not reserve contiguous virtual addressing.'')
      else if \<not> split_ok w
      then ([VirtualAlloc2, VirtualFreeEx_release],
            Inl ''Critical failure: Could not subdivide the virtual memory region.'')
      else
        let c = [VirtualAlloc2, VirtualFreeEx_split]
        in if \<not> section_ok w
        then (c, Inl ''Failed to create file mapping for the physical section.'')
        else
          let c1 = c @ [CreateFileMapping (ucast (ring_size r))]
          in if \<not> mapA_ok w
          then (c1 @ [CloseHandle_section], Inl ''Failed to map Mirror Region A.'')
          else
            let c2 = c1 @ [MapViewOfFile3_A]
            in if \<not> mapB_ok w
            then (c2 @ [UnmapViewOfFile2_A, CloseHandle_section],
                  Inl ''Failed to map Mirror Region B.'')
            else (c2 @ [MapViewOfFile3_B],
                  Inr (r\<lparr>base_ptr := True, ring_hMapFile := True, viewA := True, viewB := True\<rparr>)))"

text \<open>
  The constructor: an exception for a size that is not a multiple of 64 KB, else the portal.
  The section's bytes are zero.
\<close>

definition MagicRingBuffer_ctor ::
  "portal_answers \<Rightarrow> size_t \<Rightarrow> portal_call list \<times> (string + MagicRingBuffer)" where
  "MagicRingBuffer_ctor w physical_size =
     (if physical_size = 0 \<or> physical_size mod (64 * 1024) \<noteq> 0
      then ([], Inl ''The buffer size must be a multiple of 64 KB.'')
      else start_portal w
        \<lparr>ring_hMapFile = False, viewA = False, viewB = False, base_ptr = False,
         ring_size = physical_size, ring_head = 0, ring_tail = 0,
         memory = replicate (unat physical_size) 0\<rparr>)"

definition MagicRingBuffer_move :: "MagicRingBuffer \<Rightarrow> MagicRingBuffer \<times> MagicRingBuffer" where
  "MagicRingBuffer_move other =
     (other, other\<lparr>base_ptr := False, ring_hMapFile := False, viewA := False, viewB := False,
        ring_head := 0, ring_tail := 0\<rparr>)"

definition free_portal :: "MagicRingBuffer \<Rightarrow> portal_call list" where
  "free_portal r =
     (if viewB r then [UnmapViewOfFile2_B] else []) @
     (if viewA r then [UnmapViewOfFile2_A] else []) @
     (if ring_hMapFile r then [CloseHandle_section] else [])"

section \<open>Properties\<close>

text \<open>
  C18. The stash is a byte FIFO through the double mapping, also when the 64-bit counters
  wrap: receiving at most \<open>get_write_space\<close> bytes appends them and keeps the invariant, a
  view of available bytes is a prefix of the content, and consuming drops a prefix.
\<close>

theorem ring_is_byte_fifo:
  assumes "ring_wf r"
  shows "(length data \<le> unat (get_write_space r) \<longrightarrow>
       (let r' = commit_write (word_of_nat (length data)) (receive_bytes data r)
        in ring_wf r' \<and> stash r' = stash r @ data)) \<and>
     (unat len \<le> length (stash r) \<longrightarrow>
       get_view len r = take (unat len) (stash r) \<and>
       ring_wf (consume len r) \<and> stash (consume len r) = drop (unat len) (stash r))"
  using receive_stash [OF assms, of data] get_view_stash [OF assms, of len]
    consume_stash [OF assms, of len]
  by (simp_all add: Let_def)

definition sample_ring :: MagicRingBuffer where
  "sample_ring =
     \<lparr>ring_hMapFile = True, viewA = True, viewB = True, base_ptr = True, ring_size = 65536,
      ring_head = 1, ring_tail = - 1, memory = replicate 65536 0\<rparr>"

lemma sample_ring_wf: "ring_wf sample_ring"
  unfolding ring_wf_def
proof (intro conjI exI [of _ 16])
  show "length (memory sample_ring) = unat (ring_size sample_ring)"
    unfolding sample_ring_def MagicRingBuffer.simps length_replicate by simp
qed (simp_all add: sample_ring_def get_bytes_available_def)

theorem ring_is_byte_fifo_witness:
  "stash (commit_write 3 (receive_bytes [65, 66, 67] sample_ring)) = stash sample_ring @ [65, 66, 67]"
proof -
  have "length [65, 66, 67 :: u8] \<le> unat (get_write_space sample_ring)"
    by (simp add: sample_ring_def get_write_space_def)
  then show ?thesis
    using ring_is_byte_fifo [OF sample_ring_wf, of "[65, 66, 67]"] by (simp add: Let_def)
qed



end
