(* ===== verification/Frames.thy ===== *)
theory Frames
  imports Magic_Ring
begin

text \<open>
  The wire protocol of \<open>NetworkSession::process_stash\<close>: a log arrives as a binary frame (the
  magic bytes DE AD BE EF, a big-endian length, the payload) or as a text line. This theory
  holds the decision the loop makes on the bytes in the stash, over an arbitrary byte
  stream (the locale \<open>byte_stream\<close>), its specification on byte lists, and the framing of a
  whole stream. \<open>Network_Session\<close> runs the loop.
\<close>

section \<open>The decision\<close>

definition MAGIC :: u32 where
  "MAGIC = 0xDEADBEEF"

definition NETWORKMAGIC :: u32 where
  "NETWORKMAGIC = byteswap32 MAGIC"

text \<open>
  What one round of the loop does: leave the loop and wait for more bytes, hand a payload to
  the parser and then consume some bytes, or disconnect. The sum \<open>8 + log_len\<close> is of 32 bits; it wraps
  only for lengths within 8 of \<open>2 ^ 32\<close>, where the payload of the code would end outside of the view.
  The size limit of a session, at most \<open>2 ^ 31\<close> for every ring its constructor builds from less than
  4096 megabytes, excludes them.
\<close>

datatype 'n item = Wait | Deliver bytes 'n | Reject string

definition scan_stash ::
  "('s \<Rightarrow> size_t) \<Rightarrow> (u32 \<Rightarrow> 's \<Rightarrow> u32) \<Rightarrow> (size_t \<Rightarrow> 's \<Rightarrow> bytes) \<Rightarrow> size_t \<Rightarrow> 's \<Rightarrow> size_t item" where
  "scan_stash available peek_at view max_log s =
     (if available s < 4 then Wait
      else if peek_at 0 s = NETWORKMAGIC then
        (if available s < 8 then Wait
         else
           let log_len = byteswap32 (peek_at 4 s)
           in if log_len = 0 \<or> max_log < ucast log_len
           then Reject ''The package exceeds the established size.''
           else if available s < ucast (8 + log_len) then Wait
           else Deliver (take (unat log_len) (drop 8 (view (ucast (8 + log_len)) s)))
                  (ucast (8 + log_len)))
      else
        let full_view = view (available s) s
        in case memchr 10 full_view of
             None \<Rightarrow>
               if max_log < available s
               then Reject ''Error: Text log exceeds max_log_size without delimiter''
               else Wait
           | Some len \<Rightarrow> Deliver (take len full_view) (word_of_nat (len + 1)))"

section \<open>The specification on byte lists\<close>

definition magic_bytes :: bytes where
  "magic_bytes = [0xDE, 0xAD, 0xBE, 0xEF]"

definition frame_length :: "bytes \<Rightarrow> nat" where
  "frame_length bs = be_value4 (bs ! 4) (bs ! 5) (bs ! 6) (bs ! 7)"

definition next_item :: "nat \<Rightarrow> bytes \<Rightarrow> nat item" where
  "next_item max_log bs =
     (if length bs < 4 then Wait
      else if take 4 bs = magic_bytes then
        (if length bs < 8 then Wait
         else if frame_length bs = 0 \<or> max_log < frame_length bs
         then Reject ''The package exceeds the established size.''
         else if length bs < 8 + frame_length bs then Wait
         else Deliver (take (frame_length bs) (drop 8 bs)) (8 + frame_length bs))
      else case memchr 10 bs of
             None \<Rightarrow>
               if max_log < length bs
               then Reject ''Error: Text log exceeds max_log_size without delimiter''
               else Wait
           | Some len \<Rightarrow> Deliver (take len bs) (len + 1))"

fun item_nat :: "size_t item \<Rightarrow> nat item" where
  "item_nat Wait = Wait"
| "item_nat (Deliver p k) = Deliver p (unat k)"
| "item_nat (Reject e) = Reject e"

lemma NETWORKMAGIC_bytes: "NETWORKMAGIC = le32 0xDE 0xAD 0xBE 0xEF"
  by (simp add: NETWORKMAGIC_def MAGIC_def byteswap32_def byte_of_def le32_def Let_def)

lemma le_value_inject:
  "length xs = length ys \<Longrightarrow> le_value xs = le_value ys \<Longrightarrow> xs = ys"
  by (metis le_bytes_le_value)

lemma le32_inject: "le32 a b c d = le32 a' b' c' d' \<longleftrightarrow> [a, b, c, d] = [a', b', c', d']"
proof
  assume "le32 a b c d = le32 a' b' c' d'"
  then have "le_value [a, b, c, d] = le_value [a', b', c', d']"
    by (simp only: unat_le32 [symmetric])
  then show "[a, b, c, d] = [a', b', c', d']" by (intro le_value_inject) simp_all
qed simp

lemma take4: "4 \<le> length bs \<Longrightarrow> take 4 bs = [bs ! 0, bs ! 1, bs ! 2, bs ! 3]"
  by (auto simp: numeral_eq_Suc Suc_le_length_iff)

lemma next_item_consumes:
  assumes "next_item m bs = Deliver p k"
  shows "0 < k" and "k \<le> length bs"
  using assms memchr_SomeD(1) [of 10 bs]
  by (auto simp: next_item_def split: if_splits option.splits)

section \<open>The byte stream interface\<close>

text \<open>
  What the loop relies on: the available count, four-byte reads, views and consumption all
  agree with one list of bytes. The bound keeps the code's arithmetic from wrapping.
\<close>

locale byte_stream =
  fixes available :: "'s \<Rightarrow> size_t"
    and peek_at :: "u32 \<Rightarrow> 's \<Rightarrow> u32"
    and view :: "size_t \<Rightarrow> 's \<Rightarrow> bytes"
    and drop_front :: "size_t \<Rightarrow> 's \<Rightarrow> 's"
    and content :: "'s \<Rightarrow> bytes"
    and inv :: "'s \<Rightarrow> bool"
  assumes available_content: "inv s \<Longrightarrow> unat (available s) = length (content s)"
    and content_bound: "inv s \<Longrightarrow> length (content s) < 2 ^ 63"
    and peek_content: "inv s \<Longrightarrow> unat u + 4 \<le> length (content s) \<Longrightarrow>
      peek_at u s = le32 (content s ! unat u) (content s ! (unat u + 1))
        (content s ! (unat u + 2)) (content s ! (unat u + 3))"
    and view_content: "inv s \<Longrightarrow> unat n \<le> length (content s) \<Longrightarrow>
      view n s = take (unat n) (content s)"
    and drop_content: "inv s \<Longrightarrow> unat n \<le> length (content s) \<Longrightarrow>
      inv (drop_front n s) \<and> content (drop_front n s) = drop (unat n) (content s)"
begin

lemma magic_iff:
  assumes "inv s" and "4 \<le> length (content s)"
  shows "peek_at 0 s = NETWORKMAGIC \<longleftrightarrow> take 4 (content s) = magic_bytes"
proof -
  have "peek_at 0 s = le32 (content s ! 0) (content s ! 1) (content s ! 2) (content s ! 3)"
    using peek_content [of s 0] assms by (simp add: numeral_2_eq_2)
  then show ?thesis
    using assms(2) by (simp only: NETWORKMAGIC_bytes le32_inject take4 magic_bytes_def)
qed

lemma length_field:
  assumes "inv s" and "8 \<le> length (content s)"
  shows "unat (byteswap32 (peek_at 4 s)) = frame_length (content s)"
proof -
  have "peek_at 4 s = le32 (content s ! 4) (content s ! 5) (content s ! 6) (content s ! 7)"
    using peek_content [of s 4] assms by simp
  then show ?thesis by (simp add: byteswap32_le32 frame_length_def)
qed

text \<open>The loop's decision is the specification's, for limits below \<open>2 ^ 32 - 8\<close>.\<close>

lemma scan_refines:
  assumes inv: "inv s" and m: "unat max_log < 2 ^ 32 - 8"
  shows "item_nat (scan_stash available peek_at view max_log s) =
    next_item (unat max_log) (content s)"
proof -
  let ?bs = "content s"
  note av = available_content [OF inv]
  have av4: "available s < 4 \<longleftrightarrow> length ?bs < 4" and av8: "available s < 8 \<longleftrightarrow> length ?bs < 8"
    by (simp_all add: word_less_nat_alt av)
  show ?thesis
  proof (cases "length ?bs < 4")
    case True
    then show ?thesis by (simp add: scan_stash_def next_item_def av4)
  next
    case False
    note mg = magic_iff [OF inv]
    show ?thesis
    proof (cases "take 4 ?bs = magic_bytes")
      case magic: True
      show ?thesis
      proof (cases "length ?bs < 8")
        case True
        with magic False mg show ?thesis
          by (simp add: scan_stash_def next_item_def av4 av8)
      next
        case l8: False
        define log_len where "log_len = byteswap32 (peek_at 4 s)"
        have ll: "unat log_len = frame_length ?bs"
          unfolding log_len_def using length_field [OF inv] l8 by simp
        have z: "log_len = 0 \<longleftrightarrow> frame_length ?bs = 0"
          by (metis ll unat_0 unat_eq_zero)
        have big: "max_log < ucast log_len \<longleftrightarrow> unat max_log < frame_length ?bs"
          by (simp add: word_less_nat_alt unat_ucast_u32 ll)
        have sum: "unat (ucast (8 + log_len) :: size_t) = 8 + frame_length ?bs"
          if "\<not> unat max_log < frame_length ?bs"
        proof -
          have "unat (8 + log_len) = 8 + frame_length ?bs"
            using that m ll by (subst unat_add_small) simp_all
          then show ?thesis by (simp only: unat_ucast_u32)
        qed
        have payload: "take (unat log_len) (drop 8 (view (ucast (8 + log_len)) s)) =
            take (frame_length ?bs) (drop 8 ?bs)"
          if "\<not> unat max_log < frame_length ?bs" "\<not> length ?bs < 8 + frame_length ?bs"
          using that view_content [OF inv, of "ucast (8 + log_len)"] sum ll
          by (simp add: drop_take)
        have wt: "available s < ucast (8 + log_len) \<longleftrightarrow> length ?bs < 8 + frame_length ?bs"
          if "\<not> unat max_log < frame_length ?bs"
          using sum that by (simp add: word_less_nat_alt av)
        have sc: "scan_stash available peek_at view max_log s =
           (if log_len = 0 \<or> max_log < ucast log_len
            then Reject ''The package exceeds the established size.''
            else if available s < ucast (8 + log_len) then Wait
            else Deliver (take (unat log_len) (drop 8 (view (ucast (8 + log_len)) s)))
                   (ucast (8 + log_len)))"
          using False magic mg l8 by (simp add: scan_stash_def av4 av8 log_len_def Let_def)
        show ?thesis
          using False magic l8 z big wt payload sum unfolding sc by (simp add: next_item_def)
      qed
    next
      case line: False
      have full: "view (available s) s = ?bs"
        using view_content [OF inv, of "available s"] by (simp add: av)
      have big: "max_log < available s \<longleftrightarrow> unat max_log < length ?bs"
        by (simp add: word_less_nat_alt av)
      have sc: "scan_stash available peek_at view max_log s =
         (case memchr 10 ?bs of
             None \<Rightarrow>
               if max_log < available s
               then Reject ''Error: Text log exceeds max_log_size without delimiter''
               else Wait
           | Some len \<Rightarrow> Deliver (take len ?bs) (word_of_nat (len + 1)))"
        using False line mg by (simp add: scan_stash_def av4 full Let_def)
      have "unat (word_of_nat (len + 1) :: size_t) = len + 1" if "memchr 10 ?bs = Some len" for len
        using memchr_SomeD(1) [OF that] content_bound [OF inv]
        by (intro unat_word_of_nat_small) simp
      then show ?thesis
        using False line big unfolding sc by (auto simp: next_item_def split: option.split)
    qed
  qed
qed

end

text \<open>The magic ring provides the interface.\<close>

interpretation ring: byte_stream get_bytes_available peek get_view consume stash ring_wf
proof
  fix s u n
  assume wf: "ring_wf s"
  show "unat (get_bytes_available s) = length (stash s)" by simp
  obtain m where m: "m < 63" "unat (get_bytes_available s) \<le> 2 ^ m" using ring_wfE [OF wf] .
  have "(2 :: nat) ^ m < 2 ^ 63" using m(1) by (intro power_strict_increasing) simp_all
  with m(2) show "length (stash s) < 2 ^ 63" by (metis le_less_trans length_stash)
  show "peek u s = le32 (stash s ! unat u) (stash s ! (unat u + 1)) (stash s ! (unat u + 2))
      (stash s ! (unat u + 3))" if "unat u + 4 \<le> length (stash s)"
    using wf that by (rule peek_stash)
  show "get_view n s = take (unat n) (stash s)" if "unat n \<le> length (stash s)"
    using wf that by (rule get_view_stash)
  show "ring_wf (consume n s) \<and> stash (consume n s) = drop (unat n) (stash s)"
    if "unat n \<le> length (stash s)"
    using consume_stash [OF wf that] by simp
qed

section \<open>A whole stream\<close>

text \<open>
  The payloads a byte list holds, the bytes left over, and the reason of a disconnection if
  there is one: what the loop does when it runs to its end.
\<close>

function deframe :: "nat \<Rightarrow> bytes \<Rightarrow> bytes list \<times> bytes \<times> string option" where
  "deframe m bs =
     (case next_item m bs of
        Wait \<Rightarrow> ([], bs, None)
      | Reject e \<Rightarrow> ([], bs, Some e)
      | Deliver p k \<Rightarrow> (let (ps, r, d) = deframe m (drop k bs) in (p # ps, r, d)))"
  by pat_completeness auto
termination
proof (relation "measure (\<lambda>(m, bs). length bs)")
  fix m bs p k
  assume "next_item m bs = Deliver p k"
  from next_item_consumes [OF this] show "((m, drop k bs), (m, bs)) \<in> measure (\<lambda>(m, bs). length bs)"
    by simp
qed simp

declare deframe.simps [simp del]

lemma deframe_Wait: "next_item m bs = Wait \<Longrightarrow> deframe m bs = ([], bs, None)"
  by (subst deframe.simps) simp

lemma deframe_Reject: "next_item m bs = Reject e \<Longrightarrow> deframe m bs = ([], bs, Some e)"
  by (subst deframe.simps) simp

lemma deframe_Deliver:
  "next_item m bs = Deliver p k \<Longrightarrow> deframe m (drop k bs) = (ps, r, d) \<Longrightarrow>
   deframe m bs = (p # ps, r, d)"
  by (subst deframe.simps) simp

lemma deframe_DeliverD:
  assumes "next_item m bs = Deliver p k" and "deframe m bs = (ps, r, d)"
  shows "\<exists>ps1. deframe m (drop k bs) = (ps1, r, d) \<and> ps = p # ps1"
proof -
  obtain ps1 r1 d1 where df: "deframe m (drop k bs) = (ps1, r1, d1)" by (metis prod_cases3)
  from deframe_Deliver [OF assms(1) this] df assms(2) show ?thesis by simp
qed

text \<open>More bytes do not change a payload that is complete.\<close>

lemma next_item_append:
  assumes "next_item m bs = Deliver p k"
  shows "next_item m (bs @ ys) = Deliver p k"
proof (cases "take 4 bs = magic_bytes")
  case True
  with assms have l: "8 \<le> length bs" and f: "frame_length bs \<noteq> 0" "frame_length bs \<le> m"
    and k: "k = 8 + frame_length bs" "k \<le> length bs"
    and p: "p = take (frame_length bs) (drop 8 bs)"
    by (auto simp: next_item_def not_less split: if_splits)
  have "frame_length (bs @ ys) = frame_length bs"
    using l by (simp add: frame_length_def nth_append)
  with True l f k p show ?thesis by (simp add: next_item_def)
next
  case False
  with assms have l: "4 \<le> length bs"
    by (auto simp: next_item_def split: if_splits)
  with False assms obtain len where "memchr 10 bs = Some len" "p = take len bs" "k = len + 1"
    by (auto simp: next_item_def split: if_splits option.splits)
  with False l memchr_SomeD(1) [of 10 bs len] show ?thesis
    by (simp add: next_item_def memchr_append)
qed

lemma deframe_append:
  "deframe m xs = (ps, r, None) \<Longrightarrow> deframe m (r @ ys) = (qs, r', d) \<Longrightarrow>
   deframe m (xs @ ys) = (ps @ qs, r', d)"
proof (induction m xs arbitrary: ps rule: deframe.induct)
  case (1 m xs)
  show ?case
  proof (cases "next_item m xs")
    case Wait
    with 1 show ?thesis by (simp add: deframe_Wait)
  next
    case (Reject e)
    with 1 show ?thesis by (simp add: deframe_Reject)
  next
    case (Deliver p k)
    obtain ps1 where p: "deframe m (drop k xs) = (ps1, r, None)" and ps: "ps = p # ps1"
      using deframe_DeliverD [OF Deliver "1.prems"(1)] by blast
    have "k \<le> length xs" using next_item_consumes(2) [OF Deliver] .
    then have "deframe m (drop k (xs @ ys)) = (ps1 @ qs, r', d)"
      using "1.IH" [OF Deliver p "1.prems"(2)] by simp
    from deframe_Deliver [OF next_item_append [OF Deliver] this] show ?thesis
      by (simp add: ps)
  qed
qed

lemma deframe_rest_idle:
  "deframe m xs = (ps, r, None) \<Longrightarrow> next_item m r = Wait"
proof (induction m xs arbitrary: ps rule: deframe.induct)
  case (1 m xs)
  show ?case
  proof (cases "next_item m xs")
    case (Deliver p k)
    obtain ps1 where "deframe m (drop k xs) = (ps1, r, None)"
      using deframe_DeliverD [OF Deliver "1.prems"] by blast
    with "1.IH" [OF Deliver] show ?thesis .
  qed (use "1.prems" in \<open>auto simp: deframe_Wait deframe_Reject\<close>)
qed

lemma deframe_suffix:
  "deframe m xs = (ps, r, d) \<Longrightarrow> \<exists>k \<le> length xs. r = drop k xs"
proof (induction m xs arbitrary: ps rule: deframe.induct)
  case (1 m xs)
  show ?case
  proof (cases "next_item m xs")
    case (Deliver p k)
    obtain ps1 where "deframe m (drop k xs) = (ps1, r, d)"
      using deframe_DeliverD [OF Deliver "1.prems"] by blast
    with "1.IH" [OF Deliver] obtain j where "j \<le> length (drop k xs)" "r = drop j (drop k xs)"
      by blast
    with next_item_consumes(2) [OF Deliver] show ?thesis
      by (intro exI [of _ "j + k"]) simp
  qed (use "1.prems" in \<open>auto simp: deframe_Wait deframe_Reject intro: exI [of _ 0]\<close>)
qed

text \<open>Feeding a stream chunk by chunk, keeping what is left between chunks.\<close>

fun feed :: "nat \<Rightarrow> bytes \<Rightarrow> bytes list \<Rightarrow> bytes list \<times> bytes \<times> string option" where
  "feed m r [] = deframe m r"
| "feed m r (c # cs) =
     (case deframe m (r @ c) of
        (ps, r1, Some e) \<Rightarrow> (ps, r1, Some e)
      | (ps, r1, None) \<Rightarrow> (let (qs, r2, d) = feed m r1 cs in (ps @ qs, r2, d)))"

lemma feed_concat:
  "feed m r cs = (ps, r', None) \<Longrightarrow> deframe m (r @ concat cs) = (ps, r', None)"
proof (induction cs arbitrary: r ps)
  case Nil
  then show ?case by simp
next
  case (Cons c cs)
  obtain qs r1 d where c: "deframe m (r @ c) = (qs, r1, d)" by (metis prod_cases3)
  with Cons.prems have "d = None" by (cases d) auto
  with Cons.prems c obtain ss where f: "feed m r1 cs = (ss, r', None)" and ps: "ps = qs @ ss"
    by (auto split: prod.splits)
  from deframe_append [of m "r @ c" qs r1 "concat cs"] c \<open>d = None\<close> Cons.IH [OF f] ps
  show ?case by simp
qed

section \<open>Senders\<close>

text \<open>How a client writes a log: as a binary frame or as a line.\<close>

datatype wire = Binary bytes | Line bytes

fun encode :: "wire \<Rightarrow> bytes" where
  "encode (Binary p) = magic_bytes @ rev (le_bytes 4 (length p)) @ p"
| "encode (Line p) = p @ [10]"

fun payload_of :: "wire \<Rightarrow> bytes" where
  "payload_of (Binary p) = p"
| "payload_of (Line p) = p"

fun wire_ok :: "nat \<Rightarrow> wire \<Rightarrow> bool" where
  "wire_ok m (Binary p) \<longleftrightarrow> p \<noteq> [] \<and> length p \<le> m"
| "wire_ok m (Line p) \<longleftrightarrow> 3 \<le> length p \<and> 10 \<notin> set p \<and> take 4 p \<noteq> magic_bytes"

lemma be_length:
  assumes "n < 2 ^ 32"
  shows "frame_length (magic_bytes @ rev (le_bytes 4 n) @ rest) = n"
proof -
  have "length (le_bytes 4 n) = Suc (Suc (Suc (Suc 0)))" by simp
  then obtain a b c d where l: "le_bytes 4 n = [a, b, c, d]"
    unfolding length_Suc_conv length_0_conv by blast
  then have "le_value [a, b, c, d] = n mod 256 ^ 4" by (metis le_value_le_bytes)
  then have v: "le_value [a, b, c, d] = n" using assms by simp
  have "frame_length (magic_bytes @ rev (le_bytes 4 n) @ rest) = be_value4 d c b a"
    by (simp add: l frame_length_def magic_bytes_def)
  then show ?thesis using v by (simp only: be_value4_def)
qed

lemma next_item_encode:
  assumes ok: "wire_ok m w" and m: "m < 2 ^ 32"
  shows "next_item m (encode w @ rest) = Deliver (payload_of w) (length (encode w))"
proof (cases w)
  case (Binary p)
  with ok have p: "p \<noteq> []" "length p \<le> m" by simp_all
  have f: "frame_length (magic_bytes @ rev (le_bytes 4 (length p)) @ p @ rest) = length p"
    using p m by (intro be_length) simp
  have "take 4 (magic_bytes @ xs) = magic_bytes" for xs by (simp add: magic_bytes_def)
  moreover have "length magic_bytes = 4" by (simp add: magic_bytes_def)
  ultimately show ?thesis
    using p f by (simp add: Binary next_item_def)
next
  case (Line p)
  with ok have p: "3 \<le> length p" "10 \<notin> set p" "take 4 p \<noteq> magic_bytes" by simp_all
  have "take 4 (p @ 10 # rest) \<noteq> magic_bytes"
  proof (cases "4 \<le> length p")
    case True
    with p(3) show ?thesis by simp
  next
    case False
    with p(1) have "length p = 3" by simp
    then have "take 4 (p @ 10 # rest) ! 3 = 10" by (simp add: nth_append)
    then show ?thesis by (auto simp: magic_bytes_def)
  qed
  with p show ?thesis
    by (simp add: Line next_item_def memchr_first)
qed

lemma deframe_encoded:
  assumes "m < 2 ^ 32" and "\<forall>w \<in> set ws. wire_ok m w"
  shows "deframe m (concat (map encode ws) @ rest) =
    (case deframe m rest of (ps, r, d) \<Rightarrow> (map payload_of ws @ ps, r, d))"
  using assms(2)
proof (induction ws)
  case Nil
  then show ?case by (simp split: prod.split)
next
  case (Cons w ws)
  obtain ps r d where r: "deframe m rest = (ps, r, d)" by (metis prod_cases3)
  have ok: "wire_ok m w" using Cons.prems by simp
  note n = next_item_encode [OF ok assms(1), of "concat (map encode ws) @ rest"]
  have "deframe m (drop (length (encode w)) (encode w @ concat (map encode ws) @ rest)) =
      (map payload_of ws @ ps, r, d)"
    using Cons r by simp
  from deframe_Deliver [OF n this] show ?case by (simp add: r)
qed

section \<open>Properties\<close>

text \<open>
  C17. The loop's decision on the ring's memory is the specification's decision on the bytes
  received and not yet consumed, for every position of the ring and of its counters: the
  magic test, the length read with \<open>ntohl\<close>, the size limits, the search for the newline and
  the number of bytes consumed.
\<close>

theorem stash_scan_refines_spec:
  assumes "ring_wf r" and "unat max_log < 2 ^ 32 - 8"
  shows "item_nat (scan_stash get_bytes_available peek get_view max_log r) =
     next_item (unat max_log) (stash r)"
  using assms by (rule ring.scan_refines)

theorem stash_scan_refines_spec_witness:
  "item_nat (scan_stash get_bytes_available peek get_view 65504 sample_ring) =
     next_item 65504 (stash sample_ring)"
  using stash_scan_refines_spec [OF sample_ring_wf, of 65504] by simp

text \<open>
  Framing does not depend on how TCP splits the stream: if feeding the chunks one by one
  ends without a disconnection, the payloads and the left-over bytes are those of the
  whole stream at once.
\<close>

theorem framing_ignores_segmentation:
  assumes "feed m [] chunks = (ps, r, None)"
  shows "deframe m (concat chunks) = (ps, r, None)"
  using feed_concat [OF assms] by simp

theorem framing_ignores_segmentation_witness:
  "deframe 100 (concat [[0x31, 0x20, 0x31], [0x20, 0x31, 0x0A, 0x41]]) =
     ([[0x31, 0x20, 0x31, 0x20, 0x31]], [0x41], None)"
proof -
  have "feed 100 [] [[0x31, 0x20, 0x31], [0x20, 0x31, 0x0A, 0x41]] =
      ([[0x31, 0x20, 0x31, 0x20, 0x31]], [0x41], None)"
    by (simp add: deframe.simps next_item_def magic_bytes_def memchr_def)
  then show ?thesis by (rule framing_ignores_segmentation)
qed



text \<open>
  A text line longer than the limit is accepted or refused depending on how it arrives:
  in one piece with its newline it is delivered, while its bytes alone, before the newline,
  make the session disconnect.
\<close>

theorem long_line_depends_on_arrival:
  assumes "10 \<notin> set line" and "4 \<le> length line" and "take 4 line \<noteq> magic_bytes" and "m < length line"
  shows "next_item m (line @ [10]) = Deliver line (length line + 1) \<and>
     next_item m line = Reject ''Error: Text log exceeds max_log_size without delimiter''"
  using assms memchr_first [of 10 line "[]"] by (simp add: next_item_def memchr_def)

theorem long_line_depends_on_arrival_witness:
  "next_item 4 ([65, 66, 67, 68, 69] @ [10]) = Deliver [65, 66, 67, 68, 69] (5 + 1) \<and>
   next_item 4 [65, 66, 67, 68, 69] = Reject ''Error: Text log exceeds max_log_size without delimiter''"
  using long_line_depends_on_arrival [of "[65, 66, 67, 68, 69]" 4] by (simp add: magic_bytes_def)

end
