(* ===== verification/Log_Parser.thy ===== *)
theory Log_Parser
  imports Log_Queue
begin

text \<open>
  \<open>Network::CheckLogEntry\<close> and the two parsers of \<open>NetworkSession\<close>: the scalar
  \<open>parse_and_push\<close>, the AVX2 \<open>parse_and_push_simd\<close>, and the part they share, which stores the
  entry in shared memory and pushes its descriptor. \<open>now\<close> is the value of the cached clock
  when the parser reads it; the reason of a \<open>disconnect\<close> is returned to the session.
\<close>

section \<open>Field validation\<close>

definition validateTimestamp :: "u64 \<Rightarrow> u64 \<Rightarrow> bool" where
  "validateTimestamp now stamp =
     (let MinAllowedTime = now - 5; MaxAllowedTime = 5
      in if stamp < MinAllowedTime \<or> now + MaxAllowedTime < stamp then False else True)"

definition validateID :: "u32 \<Rightarrow> bool" where
  "validateID i = (if i < 1 \<or> 4294967295 < i then False else True)"

definition validate_level :: "size_t \<Rightarrow> bool" where
  "validate_level l =
     (if word_of_nat (level_value Critical) < l \<or> l < word_of_nat (level_value Debug)
      then False else True)"

lemma validateID_iff: "validateID i \<longleftrightarrow> i \<noteq> 0"
proof -
  have "\<not> 4294967295 < i"
    using unat_lt2p [of i] by (simp add: word_less_nat_alt)
  then show ?thesis by (auto simp: validateID_def word_less_nat_alt unat_eq_0)
qed

lemma validate_level_iff: "validate_level l \<longleftrightarrow> unat l \<le> 4"
  by (simp add: validate_level_def word_less_nat_alt)

lemma validateTimestamp_window:
  assumes "unat now < 2 ^ 64 - 5"
  shows "validateTimestamp now s \<longleftrightarrow>
     5 \<le> unat now \<and> unat now - 5 \<le> unat s \<and> unat s \<le> unat now + 5"
proof -
  have hi: "unat (now + 5) = unat now + 5" using assms by (simp add: unat_add_small)
  show ?thesis
  proof (cases "5 \<le> unat now")
    case True
    then have "unat (now - 5) = unat now - 5" by (simp add: unat_sub word_le_nat_alt)
    with True hi show ?thesis
      by (auto simp: validateTimestamp_def Let_def word_less_nat_alt)
  next
    case False
    then have "unat (now - 5) = 2 ^ 64 + unat now - 5"
      by (simp add: unat_sub_if' word_le_nat_alt)
    with False hi assms show ?thesis
      by (auto simp: validateTimestamp_def Let_def word_less_nat_alt)
  qed
qed

section \<open>The header\<close>

datatype header_result =
    Header u64 size_t u32 bytes
  | Reason string
  | Bad_range

text \<open>
  The scalar parser. A pointer is the list of bytes from it to \<open>end\<close>; \<open>ptr == end\<close> is an
  empty list and \<open>*ptr != ' '\<close> compares its head with 32.
\<close>

definition parse_header :: "u64 \<Rightarrow> bytes \<Rightarrow> header_result" where
  "parse_header now raw_data =
     (let (k1, time, ec1) = from_chars 64 raw_data; ptr1 = drop k1 raw_data
      in if ec1 \<noteq> Errc_ok \<or> ptr1 = [] \<or> hd ptr1 \<noteq> 32 then Reason ''Malformed or Invalid Time''
      else if \<not> validateTimestamp now (word_of_nat time) then Reason ''Invalid Time''
      else
        let p1 = tl ptr1; (k2, lev, ec2) = from_chars 64 p1; ptr2 = drop k2 p1
        in if ec2 \<noteq> Errc_ok \<or> ptr2 = [] \<or> hd ptr2 \<noteq> 32
           then Reason ''Malformed or Invalid Level''
        else if \<not> validate_level (word_of_nat lev) then Reason ''Invalid Level''
        else
          let p2 = tl ptr2; (k3, ident, ec3) = from_chars 32 p2; ptr3 = drop k3 p2
          in if ec3 \<noteq> Errc_ok \<or> ptr3 = [] \<or> hd ptr3 \<noteq> 32
             then Reason ''Malformed or Invalid ID''
          else if \<not> validateID (word_of_nat ident) then Reason ''Invalid ID''
          else Header (word_of_nat time) (word_of_nat lev) (word_of_nat ident) (tl ptr3))"

text \<open>
  A level that passed the validation is one of the five, so the case \<open>None\<close> of \<open>level_of\<close>
  in \<open>store_and_push\<close> below is never reached from the parsers.

  \<open>std::from_chars (data + a, data + b, v)\<close>: the two pointers must be a range, a call with
  the second before the first is undefined (\<open>None\<close>).
\<close>

definition from_chars_range :: "nat \<Rightarrow> bytes \<Rightarrow> nat \<Rightarrow> nat \<Rightarrow> (nat \<times> nat \<times> errc) option" where
  "from_chars_range w bs a b =
     (if b < a then None else Some (from_chars w (take (b - a) (drop a bs))))"

text \<open>The test that sends a payload to the scalar parser; \<open>addr\<close> is the payload's address.\<close>

definition delimiter_mask :: "bytes \<Rightarrow> u32" where
  "delimiter_mask raw_data = movemask_eq 32 raw_data"

definition simd_falls_back :: "u64 \<Rightarrow> bytes \<Rightarrow> bool" where
  "simd_falls_back addr raw_data \<longleftrightarrow>
     length raw_data < 64 \<or> 4096 < (addr AND 0xFFF) + 64 \<or> popcnt32 (delimiter_mask raw_data) < 3"

definition parse_header_simd :: "u64 \<Rightarrow> bytes \<Rightarrow> header_result" where
  "parse_header_simd now raw_data =
     (let m = delimiter_mask raw_data;
          p1 = tzcnt32 m;
          p2 = tzcnt32 (m AND (m - 1));
          p3 = tzcnt32 ((m AND (m - 1)) AND (m - 2))
      in case from_chars_range 64 raw_data 0 p1 of
           None \<Rightarrow> Bad_range
         | Some (_, time, ec1) \<Rightarrow>
             if ec1 \<noteq> Errc_ok then Reason ''Invalid Time Format''
             else if \<not> validateTimestamp now (word_of_nat time) then Reason ''Invalid Time''
             else case from_chars_range 64 raw_data (p1 + 1) p2 of
               None \<Rightarrow> Bad_range
             | Some (_, lev, ec2) \<Rightarrow>
                 if ec2 \<noteq> Errc_ok then Reason ''Invalid Level Format''
                 else if \<not> validate_level (word_of_nat lev) then Reason ''Invalid Level''
                 else case from_chars_range 32 raw_data (p2 + 1) p3 of
                   None \<Rightarrow> Bad_range
                 | Some (_, ident, ec3) \<Rightarrow>
                     if ec3 \<noteq> Errc_ok then Reason ''Invalid ID Format''
                     else if \<not> validateID (word_of_nat ident) then Reason ''Invalid ID''
                     else Header (word_of_nat time) (word_of_nat lev) (word_of_nat ident)
                            (drop (p3 + 1) raw_data))"

section \<open>Storing and pushing\<close>

definition shared_header ::
  "u64 \<Rightarrow> size_t \<Rightarrow> u32 \<Rightarrow> nat \<Rightarrow> u32 \<Rightarrow> SharedLogEntryHeader" where
  "shared_header time lev ident msize rel =
     \<lparr>h_timestamp = time, h_log_id = ident, h_message_len = word_of_nat msize,
      h_message_offset = ucast (ucast rel + word_of_nat sizeof_SharedLogEntryHeader :: size_t),
      h_relative_offset = ucast rel + word_of_nat sizeof_SharedLogEntryHeader,
      h_level = ucast lev\<rparr>"

definition queue_entry :: "u64 \<Rightarrow> LogLevel \<Rightarrow> u32 \<Rightarrow> nat \<Rightarrow> u32 \<Rightarrow> LogEntry" where
  "queue_entry time lev ident msize rel =
     \<lparr>timestamp = time, log_id = ident,
      message_lenght = word_of_nat (sizeof_SharedLogEntryHeader + msize),
      message_offset = ucast (ucast rel + word_of_nat sizeof_SharedLogEntryHeader :: size_t),
      relative_offset = ucast rel, level = lev\<rparr>"

definition store_and_push ::
  "u64 \<Rightarrow> size_t \<Rightarrow> u32 \<Rightarrow> bytes \<Rightarrow> LogQueue \<Rightarrow> Telemetry \<Rightarrow>
   (string option \<times> LogQueue \<times> Telemetry) outcome" where
  "store_and_push time lev ident message q t =
     (case get_next_slab (word_of_nat (length message)) (slab_pool q) of
        (None, pool) \<Rightarrow> Done (Some ''Message too big for slab'', q\<lparr>slab_pool := pool\<rparr>, t)
      | (Some (destination, rel), pool) \<Rightarrow>
          bind_out (write_entry destination (shared_header time lev ident (length message) rel)
                      message pool)
            (\<lambda>pool1. case level_of (unat lev) of None \<Rightarrow> Undef
               | Some l \<Rightarrow>
                   bind_out (push (queue_entry time l ident (length message) rel)
                               (q\<lparr>slab_pool := pool1\<rparr>) t)
                     (\<lambda>(q1, t1). Done (None, q1, t1))))"

definition finish_parse ::
  "header_result \<Rightarrow> LogQueue \<Rightarrow> Telemetry \<Rightarrow> (string option \<times> LogQueue \<times> Telemetry) outcome" where
  "finish_parse h q t =
     (case h of Reason r \<Rightarrow> Done (Some r, q, t)
      | Bad_range \<Rightarrow> Undef
      | Header time lev ident message \<Rightarrow> store_and_push time lev ident message q t)"

definition parse_and_push ::
  "u64 \<Rightarrow> bytes \<Rightarrow> LogQueue \<Rightarrow> Telemetry \<Rightarrow> (string option \<times> LogQueue \<times> Telemetry) outcome" where
  "parse_and_push now raw_data q t = finish_parse (parse_header now raw_data) q t"

definition parse_and_push_simd ::
  "u64 \<Rightarrow> u64 \<Rightarrow> bytes \<Rightarrow> LogQueue \<Rightarrow> Telemetry \<Rightarrow>
   (string option \<times> LogQueue \<times> Telemetry) outcome" where
  "parse_and_push_simd now addr raw_data q t =
     (if simd_falls_back addr raw_data then parse_and_push now raw_data q t
      else finish_parse (parse_header_simd now raw_data) q t)"

end
