(* ===== verification/Log_Parser_Spec.thy ===== *)
theory Log_Parser_Spec
  imports Log_Parser Log_Queue_Spec
begin

text \<open>
  What the parsers promise: the language of headers the scalar parser accepts, the round
  trip with a sender's line, the effect of an accepted log on the shared memory and the
  queue, and what the AVX2 path does with a header.
\<close>

section \<open>The language of the scalar parser\<close>

text \<open>A field: a non-empty run of digits whose value fits the width.\<close>

definition number_field :: "nat \<Rightarrow> bytes \<Rightarrow> bool" where
  "number_field w ds \<longleftrightarrow> ds \<noteq> [] \<and> (\<forall>c \<in> set ds. is_digit c) \<and> dec_acc 0 ds < 2 ^ w"

definition log_line :: "u64 \<Rightarrow> size_t \<Rightarrow> u32 \<Rightarrow> bytes \<Rightarrow> bytes" where
  "log_line time lev ident message =
     dec_digits (unat time) @ 32 # dec_digits (unat lev) @ 32 # dec_digits (unat ident) @ 32 # message"

lemma space_no_digit [simp]: "\<not> is_digit 32"
  by (simp add: is_digit_def)

lemma from_chars_field:
  assumes "number_field w ds"
  shows "from_chars w (ds @ 32 # rest) = (length ds, dec_acc 0 ds, Errc_ok)"
proof -
  have "takeWhile is_digit (ds @ 32 # rest) = ds"
    using assms by (intro takeWhile_digits) (auto simp: number_field_def)
  with assms show ?thesis by (auto simp: from_chars_def number_field_def)
qed

lemma from_chars_fieldD:
  assumes "from_chars w bs = (k, v, e)" and "e = Errc_ok" and "drop k bs \<noteq> []"
    and "hd (drop k bs) = 32"
  shows "\<exists>ds. number_field w ds \<and> v = dec_acc 0 ds \<and> bs = ds @ 32 # tl (drop k bs)"
proof -
  note ok = from_chars_okD [OF assms(1) [unfolded assms(2)]]
  have "\<forall>c \<in> set (take k bs). is_digit c"
    unfolding ok(1) [symmetric] by (auto dest: set_takeWhileD)
  moreover have "take k bs \<noteq> []" using ok(2,3) by auto
  ultimately have "number_field w (take k bs)"
    using ok(4,5) by (simp add: number_field_def)
  moreover have "bs = take k bs @ 32 # tl (drop k bs)"
    using assms(3,4) by (metis append_take_drop_id list.collapse)
  ultimately show ?thesis using ok(4) by blast
qed

lemma number_field_dec_digits: "n < 2 ^ w \<Longrightarrow> number_field w (dec_digits n)"
  by (auto simp: number_field_def dec_acc_dec_digits intro: dec_digits_digit)

lemma parse_header_fields:
  assumes "number_field 64 ds1" and "number_field 64 ds2" and "number_field 32 ds3"
  shows "parse_header now (ds1 @ 32 # ds2 @ 32 # ds3 @ 32 # message) =
     (if \<not> validateTimestamp now (word_of_nat (dec_acc 0 ds1)) then Reason ''Invalid Time''
      else if \<not> validate_level (word_of_nat (dec_acc 0 ds2)) then Reason ''Invalid Level''
      else if \<not> validateID (word_of_nat (dec_acc 0 ds3)) then Reason ''Invalid ID''
      else Header (word_of_nat (dec_acc 0 ds1)) (word_of_nat (dec_acc 0 ds2))
             (word_of_nat (dec_acc 0 ds3)) message)"
  by (simp add: parse_header_def from_chars_field [OF assms(1)] from_chars_field [OF assms(2)]
      from_chars_field [OF assms(3)] Let_def)

lemma if_Reason_Header:
  "(if b then Reason r else h) = Header a l i m \<longleftrightarrow> \<not> b \<and> h = Header a l i m"
  by simp

lemma parse_header_HeaderD:
  assumes "parse_header now raw = Header time lev ident message"
  obtains ds1 ds2 ds3 where "raw = ds1 @ 32 # ds2 @ 32 # ds3 @ 32 # message"
    and "number_field 64 ds1" and "number_field 64 ds2" and "number_field 32 ds3"
    and "time = word_of_nat (dec_acc 0 ds1)" and "lev = word_of_nat (dec_acc 0 ds2)"
    and "ident = word_of_nat (dec_acc 0 ds3)"
    and "validateTimestamp now time" and "validate_level lev" and "validateID ident"
proof -
  obtain k1 v1 e1 where f1: "from_chars 64 raw = (k1, v1, e1)" by (metis prod_cases3)
  define p1 where "p1 = tl (drop k1 raw)"
  obtain k2 v2 e2 where f2: "from_chars 64 p1 = (k2, v2, e2)" by (metis prod_cases3)
  define p2 where "p2 = tl (drop k2 p1)"
  obtain k3 v3 e3 where f3: "from_chars 32 p2 = (k3, v3, e3)" by (metis prod_cases3)
  have c1: "e1 = Errc_ok" "drop k1 raw \<noteq> []" "hd (drop k1 raw) = 32"
    and c2: "e2 = Errc_ok" "drop k2 p1 \<noteq> []" "hd (drop k2 p1) = 32"
    and c3: "e3 = Errc_ok" "drop k3 p2 \<noteq> []" "hd (drop k3 p2) = 32"
    and ok: "validateTimestamp now (word_of_nat v1)" "validate_level (word_of_nat v2)"
      "validateID (word_of_nat v3)"
    and eqs: "word_of_nat v1 = time" "word_of_nat v2 = lev" "word_of_nat v3 = ident"
      "tl (drop k3 p2) = message"
    using assms
    unfolding parse_header_def f1 prod.case Let_def p1_def [symmetric] f2 p2_def [symmetric] f3
    unfolding if_Reason_Header header_result.inject de_Morgan_disj not_not
    by - (elim conjE, assumption)+
  obtain ds1 where d1: "number_field 64 ds1" "v1 = dec_acc 0 ds1" "raw = ds1 @ 32 # p1"
    using from_chars_fieldD [OF f1 c1] unfolding p1_def [symmetric] by (elim exE conjE)
  obtain ds2 where d2: "number_field 64 ds2" "v2 = dec_acc 0 ds2" "p1 = ds2 @ 32 # p2"
    using from_chars_fieldD [OF f2 c2] unfolding p2_def [symmetric] by (elim exE conjE)
  obtain ds3 where d3: "number_field 32 ds3" "v3 = dec_acc 0 ds3" "p2 = ds3 @ 32 # message"
    using from_chars_fieldD [OF f3 c3] unfolding eqs by (elim exE conjE)
  show ?thesis
    by (rule that [of ds1 ds2 ds3]) (use d1 d2 d3 ok eqs in simp_all)
qed

lemma parse_header_no_Bad_range: "parse_header now raw \<noteq> Bad_range"
  by (auto simp: parse_header_def Let_def split: prod.splits if_splits)

lemma parse_header_log_line:
  assumes "validateTimestamp now time" and "validate_level lev" and "validateID ident"
  shows "parse_header now (log_line time lev ident message) = Header time lev ident message"
proof -
  have f: "number_field 64 (dec_digits (unat time))" "number_field 64 (dec_digits (unat lev))"
    "number_field 32 (dec_digits (unat ident))"
    using unat_lt2p [of time] unat_lt2p [of lev] unat_lt2p [of ident]
    by (simp_all add: number_field_dec_digits)
  show ?thesis
    using parse_header_fields [OF f, of now message] assms
    by (simp add: log_line_def dec_acc_dec_digits)
qed

section \<open>The AVX2 parser\<close>

lemma length_dec_digits: "n < 10 ^ Suc k \<Longrightarrow> length (dec_digits n) \<le> Suc k"
proof (induction k arbitrary: n)
  case 0
  then show ?case by (subst dec_digits.simps) simp
next
  case (Suc k)
  then have "n div 10 < 10 ^ Suc k" by simp
  with Suc.IH have "length (dec_digits (n div 10)) \<le> Suc k" .
  then show ?case by (subst dec_digits.simps) simp
qed

lemma length_dec_digits_u64: "length (dec_digits (unat (x :: u64))) \<le> 20"
  using length_dec_digits [of "unat x" 19] unat_lt2p [of x] by simp

text \<open>The positions of the delimiter in the first bytes, field by field.\<close>

definition spaces_from :: "nat \<Rightarrow> bytes \<Rightarrow> nat list" where
  "spaces_from a bs = filter (\<lambda>i. i < length bs \<and> bs ! i = 32) [a..<32]"

lemma spaces_from_field:
  assumes "length pre = a" and "\<forall>c \<in> set ds. is_digit c" and "a + length ds < 32"
  shows "spaces_from a (pre @ ds @ 32 # rest) =
     (a + length ds) # spaces_from (a + length ds + 1) (pre @ ds @ 32 # rest)"
proof -
  let ?bs = "pre @ ds @ 32 # rest" and ?P = "\<lambda>i. i < length (pre @ ds @ 32 # rest) \<and> (pre @ ds @ 32 # rest) ! i = 32"
  have "[a..<32] = [a..<a + length ds] @ (a + length ds) # [a + length ds + 1..<32]"
    using assms(3) upt_add_eq_append [of a "a + length ds" "32 - (a + length ds)"]
      upt_conv_Cons [of "a + length ds" 32] by simp
  moreover have "filter ?P [a..<a + length ds] = []"
  proof -
    have "?bs ! i \<noteq> 32" if "a \<le> i" "i < a + length ds" for i
    proof -
      have j: "i - a < length ds" using that by linarith
      then have "?bs ! i = ds ! (i - a)" using that assms(1) by (simp add: nth_append)
      moreover have "is_digit (ds ! (i - a))" using j assms(2) by simp
      ultimately show ?thesis by auto
    qed
    then show ?thesis by (auto simp: filter_empty_conv)
  qed
  moreover have "?P (a + length ds)" using assms(1) by (simp add: nth_append)
  ultimately show ?thesis by (simp add: spaces_from_def)
qed

lemma set_bits_of_delimiter: "set_bits_of (delimiter_mask bs) = spaces_from 0 bs"
  by (simp add: delimiter_mask_def set_bits_of_movemask spaces_from_def)

text \<open>Bit 0 of the mask: the payload starts with a space.\<close>

lemma delimiter_bit0: "bit (delimiter_mask bs) 0 \<longleftrightarrow> bs \<noteq> [] \<and> bs ! 0 = 32"
  by (auto simp: delimiter_mask_def bit_movemask_eq)

lemma simd_third_range:
  assumes "\<not> bit (delimiter_mask bs) 0"
  defines "m \<equiv> delimiter_mask bs"
  shows "from_chars_range w bs (tzcnt32 (m AND (m - 1)) + 1) (tzcnt32 ((m AND (m - 1)) AND (m - 2))) = None"
  using and_minus_two [OF assms(1)] by (simp add: from_chars_range_def m_def)

lemma simd_never_Header: "parse_header_simd now raw \<noteq> Header time lev ident message"
proof (cases "bit (delimiter_mask raw) 0")
  case False
  then show ?thesis
    by (simp add: parse_header_simd_def Let_def simd_third_range [OF False, simplified]
        split: option.split prod.split)
next
  case True
  then have "set_bits_of (delimiter_mask raw) = 0 # filter (bit (delimiter_mask raw)) [1..<32]"
    by (simp add: set_bits_of_def upt_rec)
  then have "tzcnt32 (delimiter_mask raw) = 0" by (simp add: tzcnt32_def)
  then show ?thesis
    by (simp add: parse_header_simd_def Let_def from_chars_range_def from_chars_def)
qed

text \<open>A line with a valid time and level always gets as far as the third range.\<close>

lemma simd_well_formed:
  assumes t: "validateTimestamp now time" and l: "validate_level lev"
  shows "parse_header_simd now (log_line time lev ident message) = Bad_range"
proof -
  let ?dt = "dec_digits (unat time)" and ?dl = "dec_digits (unat lev)"
  define rest where "rest = dec_digits (unat ident) @ 32 # message"
  define raw where "raw = ?dt @ 32 # ?dl @ 32 # rest"
  have raw: "log_line time lev ident message = raw" by (simp add: log_line_def raw_def rest_def)
  define m where "m = delimiter_mask raw"
  have lt: "length ?dt \<le> 20" by (rule length_dec_digits_u64)
  have ll: "length ?dl \<le> 1"
    using length_dec_digits [of "unat lev" 0] l by (simp add: validate_level_iff)
  have dg: "\<forall>c \<in> set (dec_digits n). is_digit c" for n by (auto intro: dec_digits_digit)
  have "spaces_from 0 raw = length ?dt # spaces_from (length ?dt + 1) raw"
    using spaces_from_field [of "[]" 0 ?dt "?dl @ 32 # rest"] dg lt by (simp add: raw_def)
  moreover have "spaces_from (length ?dt + 1) raw =
      (length ?dt + 1 + length ?dl) # spaces_from (length ?dt + 1 + length ?dl + 1) raw"
    using spaces_from_field [of "?dt @ [32]" "length ?dt + 1" ?dl rest] dg lt ll
    by (simp add: raw_def)
  ultimately have bits: "set_bits_of m = length ?dt # (length ?dt + 1 + length ?dl) #
      spaces_from (length ?dt + 1 + length ?dl + 1) raw"
    by (simp add: m_def set_bits_of_delimiter)
  have p1: "tzcnt32 m = length ?dt" by (simp add: tzcnt32_def bits)
  have p2: "tzcnt32 (m AND (m - 1)) = length ?dt + 1 + length ?dl"
    by (simp add: tzcnt32_def clear_lowest_bit [OF bits])
  have f1: "from_chars_range 64 raw 0 (length ?dt) = Some (length ?dt, unat time, Errc_ok)"
    using from_chars_digits [of "unat time" 64 "[]"] unat_lt2p [of time]
    by (simp add: from_chars_range_def raw_def)
  have f2: "from_chars_range 64 raw (length ?dt + 1) (length ?dt + 1 + length ?dl) =
      Some (length ?dl, unat lev, Errc_ok)"
    using from_chars_digits [of "unat lev" 64 "[]"] unat_lt2p [of lev]
    by (simp add: from_chars_range_def raw_def)
  have "raw ! 0 = ?dt ! 0" by (simp add: raw_def nth_append)
  moreover have "?dt ! 0 \<in> set ?dt" by (rule nth_mem) simp
  then have "is_digit (?dt ! 0)" using dg by blast
  ultimately have "\<not> bit m 0" by (auto simp: m_def delimiter_bit0)
  then have f3: "from_chars_range 32 raw (length ?dt + 1 + length ?dl + 1)
      (tzcnt32 ((m AND (m - 1)) AND (m - 2))) = None"
    using simd_third_range [of raw 32] by (simp add: m_def [symmetric] p2)
  show ?thesis
    unfolding raw parse_header_simd_def Let_def m_def [symmetric] p1 p2 f1 option.case prod.case
    using t l f2 f3 by simp
qed

section \<open>Storing an accepted log\<close>

lemma slab_pool_update_simps [simp]:
  "queue_wf (q\<lparr>slab_pool := p\<rparr>) = queue_wf q" "entries (q\<lparr>slab_pool := p\<rparr>) = entries q"
  "capacity (q\<lparr>slab_pool := p\<rparr>) = capacity q" "full (q\<lparr>slab_pool := p\<rparr>) = full q"
  by (simp_all add: queue_wf_def ring_ok_def entries_def capacity_def full_def split: option.split)

text \<open>The conditions under which a log reaches the consumer.\<close>

definition channel_ready :: "LogQueue \<Rightarrow> bool" where
  "channel_ready q \<longleftrightarrow>
     queue_wf q \<and> log_array q \<noteq> None \<and> is_running q \<and>
     slab_wf (slab_pool q) \<and> shared_memory_base_ptr (slab_pool q) \<noteq> None \<and>
     channel_size (slab_pool q) < 2 ^ 32"

definition accepts_log :: "LogQueue \<Rightarrow> nat \<Rightarrow> bool" where
  "accepts_log q n \<longleftrightarrow>
     channel_ready q \<and> \<not> full q \<and> block_need n \<le> unat (slab_size (slab_pool q))"

text \<open>
  A queue whose memory and channel could be had is ready: at most 4095 MB of slabs, so that
  offsets fit 32 bits.
\<close>

lemma LogQueue_ctor_ready:
  fixes u :: size_t and mem0 :: SharedMemory and i :: u32
  assumes shm: "shm_ok handle mapped" and ram: "1 \<le> unat (usable_ram cfg)" "unat (usable_ram cfg) \<le> 2 ^ 40"
    and slabs: "1 \<le> unat (cfg_max_slabs cfg)" "unat (slabs_size cfg) * unat (cfg_max_slabs cfg) < 4096"
  defines "q \<equiv> snd (LogQueue_ctor u handle mapped mem0 cfg i)"
  shows "channel_ready q" and "unat (slab_size (slab_pool q)) = unat (slabs_size cfg) * 1048576"
proof -
  let ?p = "SlabPool_ctor (cfg_max_slabs cfg) (slabs_size cfg)"
  have "unat (slabs_size cfg) * 1 \<le> unat (slabs_size cfg) * unat (cfg_max_slabs cfg)"
    using slabs(1) by (rule mult_le_mono2)
  then have "unat (slabs_size cfg) < 4096" using slabs(2) by linarith
  then have "unat (slabs_size cfg * 1048576) = unat (slabs_size cfg) * 1048576"
    by (simp add: unat_word_ariths)
  then have sz: "unat (slabs_size cfg * 1024 * 1024) = unat (slabs_size cfg) * 1048576"
    by (simp add: mult.assoc)
  have tot: "unat (slabs_size cfg) * 1048576 * unat (cfg_max_slabs cfg) < 2 ^ 32"
    using slabs(2) by (simp add: mult.commute)
  have "slab_wf ?p" using slabs(1) sz tot \<open>unat (slabs_size cfg) < 4096\<close>
    by (intro slab_wf_ctor) auto
  moreover obtain c where p: "slab_pool q = ?p\<lparr>hMapFile := handle, shared_memory_base_ptr := Some c\<rparr>"
    using shm unfolding q_def
    by (simp add: LogQueue_ctor_def InitializeSharedMemory_def shm_ok_def Let_def GetMaxRamUsage_def)
  moreover have "channel_size ?p < 2 ^ 32" "unat (slab_size ?p) = unat (slabs_size cfg) * 1048576"
    using tot sz by (simp_all add: channel_size_def SlabPool_ctor_def)
  moreover have "slab_wf (slab_pool q) = slab_wf ?p" "channel_size (slab_pool q) = channel_size ?p"
    using p by (simp_all add: slab_wf_def channel_size_def)
  ultimately show "channel_ready q" "unat (slab_size (slab_pool q)) = unat (slabs_size cfg) * 1048576"
    using LogQueue_ctor_ok(1,3,6) [OF shm ram, of u mem0 i] by (simp_all add: channel_ready_def q_def)
qed

text \<open>What storing a log leaves as it was.\<close>

definition same_shape :: "LogQueue \<Rightarrow> LogQueue \<Rightarrow> bool" where
  "same_shape q q' \<longleftrightarrow>
     capacity q' = capacity q \<and> slab_size (slab_pool q') = slab_size (slab_pool q) \<and>
     max_slabs (slab_pool q') = max_slabs (slab_pool q)"

text \<open>What a reader of the channel finds behind a queue entry.\<close>

definition read_back :: "LogQueue \<Rightarrow> u32 \<Rightarrow> (SharedLogEntryHeader \<times> bytes) option" where
  "read_back q rel =
     map_option (\<lambda>mem. read_entry (unat rel) (cells mem)) (shared_memory_base_ptr (slab_pool q))"

text \<open>
  A message that fits a slab is written to the channel whether or not the queue has room; then
  its entry is pushed.
\<close>

lemma store_and_push_writes:
  assumes ready: "channel_ready q" and fits: "block_need (length message) \<le> unat (slab_size (slab_pool q))"
    and lev: "level_of (unat lev) = Some l"
  obtains pool rel where
    "store_and_push time lev ident message q t =
       bind_out (push (queue_entry time l ident (length message) rel) (q\<lparr>slab_pool := pool\<rparr>) t)
         (\<lambda>(q1, t1). Done (None, q1, t1))"
    and "channel_ready (q\<lparr>slab_pool := pool\<rparr>)" and "same_shape q (q\<lparr>slab_pool := pool\<rparr>)"
    and "read_back (q\<lparr>slab_pool := pool\<rparr>) rel =
       Some (shared_header time lev ident (length message) rel, message)"
proof -
  let ?p = "slab_pool q" and ?n = "length message"
  have sw: "slab_wf ?p" and C: "channel_size ?p < 2 ^ 32"
    using ready by (simp_all add: channel_ready_def)
  obtain mem where base: "shared_memory_base_ptr ?p = Some mem"
    using ready by (auto simp: channel_ready_def)
  obtain pos rel pool where get: "get_next_slab (word_of_nat ?n) ?p = (Some (pos, rel), pool)"
    using get_next_slab_fits [OF sw fits refl] by blast
  note fr = get_next_slab_frame [OF get] and at = get_next_slab_position [OF sw fits get]
  have swp: "slab_wf pool" by (rule get_next_slab_wf [OF sw fits get])
  have posb: "unat pos + block_need ?n < 2 ^ 32" using at(2) C by linarith
  then have rel: "unat rel = unat pos"
    by (simp add: at(3) unat_ucast_trunc)
  define mem' where "mem' = mem\<lparr>cells := store_bytes (unat pos + 29) message
     (store_bytes (unat pos) (header_bytes (shared_header time lev ident ?n rel)) (cells mem))\<rparr>"
  define pool1 where "pool1 = pool\<lparr>shared_memory_base_ptr := Some mem'\<rparr>"
  have w: "write_entry pos (shared_header time lev ident ?n rel) message pool = Done pool1"
    using write_entry_ok [OF swp, of mem pos message] fr base at(2)
    by (simp add: channel_size_def pool1_def mem'_def)
  have "slab_wf pool1" "channel_size pool1 = channel_size ?p"
    using swp fr by (simp_all add: pool1_def slab_wf_def channel_size_def)
  then have "channel_ready (q\<lparr>slab_pool := pool1\<rparr>)" "same_shape q (q\<lparr>slab_pool := pool1\<rparr>)"
    using ready C fr by (simp_all add: channel_ready_def same_shape_def pool1_def)
  moreover have "unat (h_message_len (shared_header time lev ident ?n rel)) = ?n"
    using posb by (simp add: shared_header_def block_need_def unat_word_of_nat_small)
  then have "read_back (q\<lparr>slab_pool := pool1\<rparr>) rel =
      Some (shared_header time lev ident ?n rel, message)"
    using rel by (simp add: read_back_def pool1_def mem'_def read_entry_written)
  moreover have "store_and_push time lev ident message q t =
      bind_out (push (queue_entry time l ident ?n rel) (q\<lparr>slab_pool := pool1\<rparr>) t)
        (\<lambda>(q1, t1). Done (None, q1, t1))"
    by (simp add: store_and_push_def get w lev)
  ultimately show ?thesis using that by blast
qed

text \<open>What a push leaves as it was carries readiness and the contents of the channel over.\<close>

lemma push_ready:
  assumes "channel_ready q" and "push e q t = Done (q', t')"
  shows "channel_ready q'" and "same_shape q q'" and "read_back q' = read_back q"
proof -
  have wf: "queue_wf q" using assms(1) by (simp add: channel_ready_def)
  note fr = push_frame [OF wf assms(2)]
  have "queue_wf q'" using push_returns [OF wf, of e t] assms(2) by auto
  then show "channel_ready q'" using assms(1) fr by (simp add: channel_ready_def)
  show "same_shape q q'" using fr by (simp add: same_shape_def)
  show "read_back q' = read_back q" using fr by (intro ext) (simp add: read_back_def)
qed

lemma same_shape_trans: "same_shape q q1 \<Longrightarrow> same_shape q1 q2 \<Longrightarrow> same_shape q q2"
  by (simp add: same_shape_def)

lemma store_and_push_accepts:
  assumes acc: "accepts_log q (length message)" and lev: "level_of (unat lev) = Some l"
  shows "\<exists>q' rel. store_and_push time lev ident message q t = Done (None, q', RegisterPushed t) \<and>
     entries q' = entries q @ [queue_entry time l ident (length message) rel] \<and>
     read_back q' rel = Some (shared_header time lev ident (length message) rel, message) \<and>
     channel_ready q' \<and> same_shape q q'"
proof -
  have ready: "channel_ready q" and nf: "\<not> full q"
    and fits: "block_need (length message) \<le> unat (slab_size (slab_pool q))"
    using acc by (simp_all add: accepts_log_def)
  obtain pool rel where w: "store_and_push time lev ident message q t =
       bind_out (push (queue_entry time l ident (length message) rel) (q\<lparr>slab_pool := pool\<rparr>) t)
         (\<lambda>(q1, t1). Done (None, q1, t1))"
    and r: "channel_ready (q\<lparr>slab_pool := pool\<rparr>)" and sh: "same_shape q (q\<lparr>slab_pool := pool\<rparr>)"
    and b: "read_back (q\<lparr>slab_pool := pool\<rparr>) rel =
       Some (shared_header time lev ident (length message) rel, message)"
    using store_and_push_writes [OF ready fits lev, of time ident t] .
  let ?q = "q\<lparr>slab_pool := pool\<rparr>"
  have q: "queue_wf ?q" "log_array ?q \<noteq> None" "is_running ?q" using r by (simp_all add: channel_ready_def)
  obtain q' t' where p: "push (queue_entry time l ident (length message) rel) ?q t = Done (q', t')"
    using push_returns [OF q(1)] by blast
  have "\<not> full ?q" using nf by (simp add: full_def)
  then have "entries q' = entries q @ [queue_entry time l ident (length message) rel]" "t' = RegisterPushed t"
    using entries_push [OF q p] by simp_all
  then show ?thesis
    using w p b push_ready [OF r p] same_shape_trans [OF sh] by auto
qed

text \<open>On a full queue that drops, the log is written to the channel but no entry points to it.\<close>

lemma store_and_push_drops:
  assumes ready: "channel_ready q" and "full q" and drop: "overflow q = DropAll"
    and fits: "block_need (length message) \<le> unat (slab_size (slab_pool q))"
    and lev: "level_of (unat lev) = Some l"
  shows "\<exists>q'. store_and_push time lev ident message q t = Done (None, q', t) \<and>
     entries q' = entries q \<and> channel_ready q' \<and> same_shape q q'"
proof -
  obtain pool rel where w: "store_and_push time lev ident message q t =
       bind_out (push (queue_entry time l ident (length message) rel) (q\<lparr>slab_pool := pool\<rparr>) t)
         (\<lambda>(q1, t1). Done (None, q1, t1))"
    and r: "channel_ready (q\<lparr>slab_pool := pool\<rparr>)" and sh: "same_shape q (q\<lparr>slab_pool := pool\<rparr>)"
    using store_and_push_writes [OF ready fits lev, of time ident t] .
  let ?q = "q\<lparr>slab_pool := pool\<rparr>"
  have "full ?q" using assms(2) by (simp add: full_def)
  then have "push e ?q t = Done (?q, t)" for e
    using push_cases [of ?q e t] r drop by (simp add: channel_ready_def)
  then show ?thesis using w r sh by simp
qed

section \<open>Properties\<close>

text \<open>
  C19. Sound and complete: the scalar parser accepts exactly the payloads made of three
  decimal fields, each followed by one space, whose values fit their widths and pass the three
  validations (leading zeros are allowed), and what follows the third space is the message.
\<close>

theorem parse_header_language:
  "parse_header now raw = Header time lev ident message \<longleftrightarrow>
     (\<exists>ds1 ds2 ds3. raw = ds1 @ 32 # ds2 @ 32 # ds3 @ 32 # message \<and>
        number_field 64 ds1 \<and> number_field 64 ds2 \<and> number_field 32 ds3 \<and>
        time = word_of_nat (dec_acc 0 ds1) \<and> lev = word_of_nat (dec_acc 0 ds2) \<and>
        ident = word_of_nat (dec_acc 0 ds3) \<and>
        validateTimestamp now time \<and> validate_level lev \<and> validateID ident)"
    (is "?L \<longleftrightarrow> ?R")
proof
  assume ?L
  then show ?R using parse_header_HeaderD [of now raw time lev ident message] by metis
next
  assume ?R
  then show ?L using parse_header_fields by auto
qed

text \<open>
  A sender that writes a valid timestamp, level and identifier in decimal, with any message,
  is read back exactly.
\<close>

theorem parse_log_line:
  assumes "validateTimestamp now time" and "validate_level lev" and "validateID ident"
  shows "parse_header now (log_line time lev ident message) = Header time lev ident message"
  using assms by (rule parse_header_log_line)

theorem parse_log_line_witness:
  "parse_header 1000 (log_line 998 3 7 [72, 105]) = Header 998 3 7 [72, 105]"
  by (rule parse_log_line) (simp_all add: validateTimestamp_def validate_level_def validateID_def)

text \<open>
  The timestamp check is a window of five seconds on both sides of the cached clock. A
  clock below five, as before its first update when it reads 0, makes the lower bound wrap,
  and every timestamp is refused.
\<close>

theorem timestamp_window:
  assumes "unat now < 2 ^ 64 - 5"
  shows "validateTimestamp now s \<longleftrightarrow>
     5 \<le> unat now \<and> unat now - 5 \<le> unat s \<and> unat s \<le> unat now + 5"
  using assms by (rule validateTimestamp_window)

theorem timestamp_window_witness: "\<not> validateTimestamp (unix_time Time_init) 0"
  using timestamp_window [of "unix_time Time_init" 0] by (simp add: Time_init_def)

text \<open>
  C4. An accepted log that finds room reaches the consumer: the parser returns without a
  disconnection, the queue holds one more entry, last, which describes the log, and a reader
  of the shared memory that follows the entry's offset finds the header with the log's fields
  and the message, byte for byte. The invariants of the queue and the slab pool are kept.
\<close>

theorem parsed_log_is_stored:
  assumes "parse_header now raw = Header time lev ident message"
    and "accepts_log q (length message)" and "level_of (unat lev) = Some l"
  shows "\<exists>q' rel. parse_and_push now raw q t = Done (None, q', RegisterPushed t) \<and>
     entries q' = entries q @ [queue_entry time l ident (length message) rel] \<and>
     read_back q' rel = Some (shared_header time lev ident (length message) rel, message) \<and>
     channel_ready q' \<and> same_shape q q'"
  using store_and_push_accepts [OF assms(2,3)]
  by (simp add: parse_and_push_def finish_parse_def assms(1))

definition blank_memory :: SharedMemory where
  "blank_memory =
     \<lparr>control = \<lparr>magic_number = 0, ctl_slab_size = 0, ctl_max_slabs = 0, header_size = 0,
        write_offset = 0, read_offset = 0\<rparr>, cells = (\<lambda>i. 0)\<rparr>"

definition ready_queue :: LogQueue where
  "ready_queue = (small_queue DropAll 1)\<lparr>slab_pool :=
     (SlabPool_ctor 4 1)\<lparr>hMapFile := 1, shared_memory_base_ptr := Some blank_memory\<rparr>\<rparr>"

lemma ready_queue_facts:
  "channel_ready ready_queue" "entries ready_queue = [entry_no 1 Info]" "capacity ready_queue = 3"
  "slab_size (slab_pool ready_queue) = 1048576"
proof -
  have "entries (small_queue DropAll 1) = [entry_no 1 Info]" "capacity (small_queue DropAll 1) = 3"
    by (simp_all add: entries_def small_queue_def capacity_def ring_list_def ring_count_def)
  moreover have "is_running (small_queue DropAll 1)" "log_array (small_queue DropAll 1) \<noteq> None"
    by (simp_all add: small_queue_def)
  ultimately show "channel_ready ready_queue" "entries ready_queue = [entry_no 1 Info]"
    "capacity ready_queue = 3" "slab_size (slab_pool ready_queue) = 1048576"
    using small_queue_wf [of 1 DropAll]
    by (simp_all add: channel_ready_def ready_queue_def slab_wf_def SlabPool_ctor_def channel_size_def)
qed

lemma ready_queue_accepts: "n < 1000 \<Longrightarrow> accepts_log ready_queue n"
  by (simp add: accepts_log_def full_def ready_queue_facts block_need_def)

theorem parsed_log_is_stored_witness:
  "\<exists>q' rel. parse_and_push 1000 (log_line 998 3 7 [72, 105]) ready_queue Telemetry_init =
       Done (None, q', RegisterPushed Telemetry_init) \<and>
     entries q' = entries ready_queue @ [queue_entry 998 Error 7 2 rel] \<and>
     read_back q' rel = Some (shared_header 998 3 7 2 rel, [72, 105]) \<and>
     channel_ready q' \<and> same_shape ready_queue q'"
proof -
  have "parse_header 1000 (log_line 998 3 7 [72, 105]) = Header 998 3 7 [72, 105]"
    by (rule parse_header_log_line)
      (simp_all add: validateTimestamp_def validate_level_def validateID_def)
  moreover have "accepts_log ready_queue (length [72, 105 :: u8])"
    by (rule ready_queue_accepts) simp
  moreover have "level_of (unat (3 :: size_t)) = Some Error" by (simp add: level_of_def)
  ultimately show ?thesis
    using parsed_log_is_stored [of 1000 "log_line 998 3 7 [72, 105]" 998 3 7 "[72, 105]" ready_queue
        Error Telemetry_init]
    by (simp add: numeral_2_eq_2)
qed

text \<open>
  C37. When the shared memory could not be mapped the constructor's failure is not looked at
  again: the first accepted log whose message fits a slab makes the parser write through the
  null base.
\<close>

theorem unmapped_channel_is_written:
  assumes "parse_header now raw = Header time lev ident message"
    and "\<not> shm_ok handle mapped"
    and "block_need (length message) \<le> unat (slabs_size cfg * 1024 * 1024)"
  shows "parse_and_push now raw (snd (LogQueue_ctor u handle mapped mem0 cfg i)) t = Undef"
proof -
  let ?q = "snd (LogQueue_ctor u handle mapped mem0 cfg i)"
  let ?S = "slabs_size cfg * 1024 * 1024"
  have base: "shared_memory_base_ptr (slab_pool ?q) = None"
    by (rule LogQueue_ctor_failed(3)) fact
  have sz: "slab_size (slab_pool ?q) = ?S"
    using assms(2)
    by (auto simp: LogQueue_ctor_def InitializeSharedMemory_def shm_ok_def Let_def SlabPool_ctor_def)
  have need: "29 + word_of_nat (length message) = (word_of_nat (block_need (length message)) :: size_t)"
    by (simp add: block_need_def)
  have "unat (word_of_nat (block_need (length message)) :: size_t) = block_need (length message)"
    using assms(3) unat_lt2p [of ?S] by (intro unat_word_of_nat_small) simp
  then have nb: "\<not> ?S < word_of_nat (block_need (length message))"
    using assms(3) by (simp add: word_less_nat_alt)
  obtain r pool where g: "get_next_slab (word_of_nat (length message)) (slab_pool ?q) = (Some r, pool)"
    using nb by (simp add: get_next_slab_def sz need Let_def)
  then have "shared_memory_base_ptr pool = None"
    using get_next_slab_frame(4) [OF g] base by simp
  then have "write_entry d h message pool = Undef" for d h by (simp add: write_entry_def)
  then show ?thesis
    by (cases r) (simp add: parse_and_push_def finish_parse_def assms(1) store_and_push_def g)
qed

theorem unmapped_channel_is_written_witness:
  "parse_and_push 1000 (log_line 998 3 7 [72, 105])
     (snd (LogQueue_ctor 0 0 True blank_memory default_config 0)) Telemetry_init = Undef"
proof -
  have "parse_header 1000 (log_line 998 3 7 [72, 105]) = Header 998 3 7 [72, 105]"
    by (rule parse_header_log_line)
      (simp_all add: validateTimestamp_def validate_level_def validateID_def)
  from unmapped_channel_is_written [OF this, of 0 True default_config] show ?thesis
    by (simp add: shm_ok_def block_need_def default_config_def)
qed

text \<open>
  C26. On a processor with AVX2, every well-formed line that the SIMD parser takes itself
  (64 bytes or more, not at the end of a page, three spaces among its first 32 bytes) reaches a
  call of \<open>from_chars\<close> whose end lies before its start: the mask for the third delimiter,
  \<open>mask & (mask - 1) & (mask - 2)\<close>, still has the second delimiter as its lowest bit.
\<close>

theorem simd_line_is_undefined:
  assumes "\<not> simd_falls_back addr (log_line time lev ident message)"
    and "validateTimestamp now time" and "validate_level lev"
  shows "parse_and_push_simd now addr (log_line time lev ident message) q t = Undef"
  using assms simd_well_formed [OF assms(2,3)]
  by (simp add: parse_and_push_simd_def finish_parse_def)

theorem simd_line_is_undefined_witness:
  "parse_and_push_simd 1000 0 (log_line 998 3 7 (replicate 60 65)) ready_queue Telemetry_init = Undef"
proof (rule simd_line_is_undefined)
  have d: "dec_digits 998 = [57, 57, 56]" "dec_digits 3 = [51]" "dec_digits 7 = [55]"
    by (simp_all add: dec_digits.simps)
  have "popcnt32 (delimiter_mask (log_line 998 3 7 (replicate 60 65))) = 3"
    by code_simp
  then show "\<not> simd_falls_back 0 (log_line 998 3 7 (replicate 60 65))"
    by (simp add: simd_falls_back_def log_line_def d)
qed (simp_all add: validateTimestamp_def validate_level_def)

text \<open>
  Whatever the payload, the SIMD path by itself never delivers a log: it falls back to the
  scalar parser, disconnects, or is undefined.
\<close>

theorem simd_never_delivers:
  "parse_header_simd now raw \<noteq> Header time lev ident message"
  by (rule simd_never_Header)

end
