(* ===== verification/Network_Session.thy ===== *)
theory Network_Session
  imports Frames Log_Parser_Spec
begin

text \<open>
  \<open>Network::NetworkSession\<close> (\<open>engine/Network\<close>): one client connection. The socket's bytes
  arrive in the magic ring, \<open>process_stash\<close> hands every complete log to the parser, and
  \<open>read_header\<close> asks for the next read. The operations the session starts on its socket and
  the actions it posts are part of its state.
\<close>

section \<open>State\<close>

datatype posted = Close | Cancel_shutdown_close

record Session =
  stash_buffer :: MagicRingBuffer
  max_log_size :: size_t
  is_closing :: bool
  simd_parser :: bool
  base_address :: u64
  messages :: "string list"
  posted_actions :: "posted list"

text \<open>
  What the session shares with the rest of the engine: its queue, the telemetry, and the
  number of times its parser has run, which indexes the readings of the cached clock.
\<close>

record Shared =
  assigned_queue :: LogQueue
  telemetry :: Telemetry
  parses :: nat

text \<open>\<open>GetBestParser\<close> and the constructor, which is \<open>noexcept\<close>: an exception of the ring's
  constructor ends the program.\<close>

definition GetBestParser :: "bool \<Rightarrow> bool" where
  "GetBestParser avx2_available = (if avx2_available then True else False)"

definition NetworkSession_ctor ::
  "portal_answers \<Rightarrow> bool \<Rightarrow> u64 \<Rightarrow> size_t \<Rightarrow> portal_call list \<times> Session outcome" where
  "NetworkSession_ctor w avx2 address max_size =
     (let physical = bit_floor (max_size * 1024 * 1024);
          (calls, built) = MagicRingBuffer_ctor w physical
      in (calls, case built of Inl e \<Rightarrow> Terminates
            | Inr ring \<Rightarrow> Done
                \<lparr>stash_buffer = ring, max_log_size = physical - 32, is_closing = False,
                 simd_parser = GetBestParser avx2, base_address = address, messages = [],
                 posted_actions = []\<rparr>))"

section \<open>Closing\<close>

definition disconnect :: "string \<Rightarrow> Session \<Rightarrow> Session" where
  "disconnect reason s =
     (if is_closing s then s
      else s\<lparr>is_closing := True, messages := messages s @ [reason],
             posted_actions := posted_actions s @ [Cancel_shutdown_close]\<rparr>)"

definition handle_error :: "string \<Rightarrow> Session \<Rightarrow> Session" where
  "handle_error ec s =
     (if is_closing s then s
      else s\<lparr>is_closing := True, messages := messages s @ [ec],
             posted_actions := posted_actions s @ [Close]\<rparr>)"

lemma disconnect_frame [simp]:
  "stash_buffer (disconnect r s) = stash_buffer s" "max_log_size (disconnect r s) = max_log_size s"
  "simd_parser (disconnect r s) = simd_parser s" "base_address (disconnect r s) = base_address s"
  "is_closing (disconnect r s)"
  by (simp_all add: disconnect_def)

section \<open>Parsing what has arrived\<close>

text \<open>The address of the payload the loop is about to parse, which the SIMD parser tests.\<close>

definition payload_address :: "Session \<Rightarrow> u64" where
  "payload_address s =
     (let r = stash_buffer s; start = base_address s + (ring_tail r AND (ring_size r - 1))
      in if peek 0 r = NETWORKMAGIC then start + 8 else start)"

text \<open>One call of \<open>CurrentParser\<close>, with the disconnection it may ask for.\<close>

definition call_parser ::
  "(nat \<Rightarrow> u64) \<Rightarrow> bytes \<Rightarrow> Session \<times> Shared \<Rightarrow> (Session \<times> Shared) outcome" where
  "call_parser clock payload = (\<lambda>(s, c).
     bind_out
       (if simd_parser s
        then parse_and_push_simd (clock (parses c)) (payload_address s) payload
               (assigned_queue c) (telemetry c)
        else parse_and_push (clock (parses c)) payload (assigned_queue c) (telemetry c))
       (\<lambda>(reason, q, t). Done
          (case reason of None \<Rightarrow> s | Some r \<Rightarrow> disconnect r s,
           c\<lparr>assigned_queue := q, telemetry := t, parses := parses c + 1\<rparr>)))"

definition session_scan :: "Session \<Rightarrow> size_t item" where
  "session_scan s = scan_stash get_bytes_available peek get_view (max_log_size s) (stash_buffer s)"

lemma call_parser_session:
  assumes "call_parser clock p (s, c) = Done (s', c')"
  shows "stash_buffer s' = stash_buffer s" and "max_log_size s' = max_log_size s"
    and "simd_parser s' = simd_parser s"
  using assms
  by (auto simp: call_parser_def bind_out_Done_iff split: option.splits)

text \<open>A delivery never consumes more than what is available.\<close>

lemma length_get_view: "length (get_view n r) = unat n"
  by (simp add: get_view_def Let_def)

lemma session_scan_consumes:
  assumes "session_scan s = Deliver p k"
  shows "unat k \<le> unat (get_bytes_available (stash_buffer s))"
proof (cases "peek 0 (stash_buffer s) = NETWORKMAGIC")
  case True
  with assms show ?thesis
    by (auto simp: session_scan_def scan_stash_def Let_def word_less_nat_alt split: if_splits)
next
  case False
  let ?r = "stash_buffer s"
  obtain len where len: "memchr 10 (get_view (get_bytes_available ?r) ?r) = Some len"
    and k: "k = word_of_nat (len + 1)"
    using assms False
    by (auto simp: session_scan_def scan_stash_def Let_def split: if_splits option.splits)
  have "len + 1 \<le> unat (get_bytes_available ?r)"
    using memchr_SomeD(1) [OF len] by (simp add: length_get_view)
  moreover from this have "unat k = len + 1"
    unfolding k using unat_lt2p [of "get_bytes_available ?r"] by (intro unat_word_of_nat_small) simp
  ultimately show ?thesis by simp
qed

text \<open>
  The loop. A delivery that consumes nothing (a frame length that makes \<open>8 + log_len\<close> wrap
  to zero) leaves the stash as it was, and the loop parses the same payload for ever.
\<close>

function process_stash ::
  "(nat \<Rightarrow> u64) \<Rightarrow> Session \<times> Shared \<Rightarrow> (Session \<times> Shared) outcome" where
  "process_stash clock (s, c) =
     (case session_scan s of
        Wait \<Rightarrow> Done (s, c)
      | Reject reason \<Rightarrow> Done (disconnect reason s, c)
      | Deliver payload k \<Rightarrow>
          (case call_parser clock payload (s, c) of
             Done (s1, c1) \<Rightarrow>
               if k = 0 then Spins
               else process_stash clock (s1\<lparr>stash_buffer := consume k (stash_buffer s1)\<rparr>, c1)
           | Spins \<Rightarrow> Spins | Undef \<Rightarrow> Undef | Terminates \<Rightarrow> Terminates))"
  by pat_completeness auto
termination
proof (relation "measure (\<lambda>(clock, s, c). unat (get_bytes_available (stash_buffer s)))")
  fix clock s c payload k x s1 c1
  assume d: "session_scan s = Deliver payload k"
    and p: "call_parser clock payload (s, c) = Done x" "(s1, c1) = x" and k: "k \<noteq> 0"
  have st: "stash_buffer s1 = stash_buffer s"
    using call_parser_session(1) [of clock payload s c s1 c1] p by simp
  have "get_bytes_available (consume k r) = get_bytes_available r - k" for r
    by (simp add: get_bytes_available_def consume_def)
  moreover have "0 < unat k" using k by (simp add: unat_gt_0)
  moreover note session_scan_consumes [OF d]
  ultimately have "unat (get_bytes_available (consume k (stash_buffer s))) <
      unat (get_bytes_available (stash_buffer s))"
    by (simp add: unat_sub word_le_nat_alt)
  then show "((clock, s1\<lparr>stash_buffer := consume k (stash_buffer s1)\<rparr>, c1), clock, s, c)
      \<in> measure (\<lambda>(clock, s, c). unat (get_bytes_available (stash_buffer s)))"
    by (simp add: st)
qed simp

declare process_stash.simps [simp del]

section \<open>Reading from the socket\<close>

text \<open>
  \<open>read_header\<close> ends with a pending \<open>async_read_some\<close> of at most the returned number of
  bytes, or with none when the session disconnects.
\<close>

definition read_header ::
  "(nat \<Rightarrow> u64) \<Rightarrow> Session \<times> Shared \<Rightarrow> ((Session \<times> Shared) \<times> size_t option) outcome" where
  "read_header clock = (\<lambda>(s, c).
     (let space = get_write_space (stash_buffer s)
      in if space < 1024 then
           bind_out (process_stash clock (s, c)) (\<lambda>(s1, c1).
             let space1 = get_write_space (stash_buffer s1)
             in if space1 < 1024
                then Done ((disconnect ''The package exceeds the size limit.'' s1, c1), None)
                else Done ((s1, c1), Some space1))
         else Done ((s, c), Some space)))"

text \<open>The completion handler of the read: the received bytes, or an error.\<close>

definition on_read ::
  "(nat \<Rightarrow> u64) \<Rightarrow> string + bytes \<Rightarrow> Session \<times> Shared \<Rightarrow>
   ((Session \<times> Shared) \<times> size_t option) outcome" where
  "on_read clock res = (\<lambda>(s, c).
     (case res of
        Inl ec \<Rightarrow> Done ((handle_error ec s, c), None)
      | Inr data \<Rightarrow>
          let s1 = s\<lparr>stash_buffer := commit_write (word_of_nat (length data))
                                       (receive_bytes data (stash_buffer s))\<rparr>
          in bind_out (process_stash clock (s1, c)) (read_header clock)))"

definition start_session ::
  "(nat \<Rightarrow> u64) \<Rightarrow> Session \<times> Shared \<Rightarrow> ((Session \<times> Shared) \<times> size_t option) outcome" where
  "start_session clock sc = read_header clock sc"

text \<open>\<open>count_trailing_zeros\<close>: the index \<open>_BitScanForward\<close> finds, 0 for an empty mask.\<close>

definition count_trailing_zeros :: "u32 \<Rightarrow> u32" where
  "count_trailing_zeros m = (if m = 0 then 0 else word_of_nat (tzcnt32 m))"

section \<open>The loop against its specification\<close>

text \<open>The parser run over a list of payloads, as the loop runs it.\<close>

fun deliver_all ::
  "(nat \<Rightarrow> u64) \<Rightarrow> bytes list \<Rightarrow> Shared \<Rightarrow> (string list \<times> Shared) outcome" where
  "deliver_all clock [] c = Done ([], c)"
| "deliver_all clock (p # ps) c =
     bind_out (parse_and_push (clock (parses c)) p (assigned_queue c) (telemetry c))
       (\<lambda>(reason, q, t).
          bind_out (deliver_all clock ps
              (c\<lparr>assigned_queue := q, telemetry := t, parses := parses c + 1\<rparr>))
            (\<lambda>(rs, c1). Done ((case reason of None \<Rightarrow> [] | Some r \<Rightarrow> [r]) @ rs, c1)))"

text \<open>The session's state invariant: a sound ring, and a limit that leaves room for a frame header.\<close>

definition session_wf :: "Session \<Rightarrow> bool" where
  "session_wf s \<longleftrightarrow> ring_wf (stash_buffer s) \<and> unat (max_log_size s) < 2 ^ 32 - 8"

text \<open>Closing with the first of some reasons.\<close>

definition close_with :: "string list \<Rightarrow> Session \<Rightarrow> Session" where
  "close_with rs s = fold disconnect rs s"

lemma disconnect_stash_update:
  "disconnect r (s\<lparr>stash_buffer := b\<rparr>) = (disconnect r s)\<lparr>stash_buffer := b\<rparr>"
  by (simp add: disconnect_def)

lemma close_with_frame [simp]:
  "stash_buffer (close_with rs s) = stash_buffer s"
  "max_log_size (close_with rs s) = max_log_size s"
  "simd_parser (close_with rs s) = simd_parser s"
  by (induction rs arbitrary: s) (simp_all add: close_with_def)

lemma close_with_stash_update:
  "close_with rs (s\<lparr>stash_buffer := b\<rparr>) = (close_with rs s)\<lparr>stash_buffer := b\<rparr>"
  by (induction rs arbitrary: s) (simp_all add: close_with_def disconnect_stash_update)

lemma close_with_append: "close_with (rs @ rs') s = close_with rs' (close_with rs s)"
  by (simp add: close_with_def)

lemma close_with_closed: "is_closing s \<Longrightarrow> close_with rs s = s"
  by (induction rs) (simp_all add: close_with_def disconnect_def)

lemma close_with_first:
  "close_with rs s = (case rs of [] \<Rightarrow> s | r # rs' \<Rightarrow> disconnect r s)"
proof (cases rs)
  case (Cons r rs')
  have "close_with rs' (disconnect r s) = disconnect r s" by (rule close_with_closed) simp
  then show ?thesis by (simp add: Cons close_with_def)
qed (simp add: close_with_def)

lemma session_scan_spec:
  "session_wf s \<Longrightarrow>
   item_nat (session_scan s) = next_item (unat (max_log_size s)) (stash (stash_buffer s))"
  unfolding session_scan_def session_wf_def by (intro ring.scan_refines) simp_all

lemma item_nat_cases:
  "item_nat i = Wait \<longleftrightarrow> i = Wait"
  "item_nat i = Reject e \<longleftrightarrow> i = Reject e"
  "item_nat i = Deliver p n \<longleftrightarrow> (\<exists>k. i = Deliver p k \<and> unat k = n)"
  by (cases i; auto)+

text \<open>What the loop leaves in the ring: the bytes the specification leaves over.\<close>

definition skip_to :: "bytes \<Rightarrow> MagicRingBuffer \<Rightarrow> MagicRingBuffer" where
  "skip_to r b = consume (word_of_nat (length (stash b) - length r)) b"

lemma skip_to_stash:
  assumes wf: "ring_wf b" and df: "deframe m (stash b) = (ps, r, d)"
  shows "ring_wf (skip_to r b)" and "stash (skip_to r b) = r"
    and "ring_size (skip_to r b) = ring_size b"
proof -
  obtain j where j: "j \<le> length (stash b)" "r = drop j (stash b)"
    using deframe_suffix [OF df] by blast
  then have "length (stash b) - length r = j" by simp
  moreover have "unat (word_of_nat j :: size_t) = j"
    using j(1) unat_lt2p [of "get_bytes_available b"] by (intro unat_word_of_nat_small) simp
  ultimately show "ring_wf (skip_to r b)" and "stash (skip_to r b) = r"
    using consume_stash(1,2) [OF wf, of "word_of_nat j"] j by (simp_all add: skip_to_def)
  show "ring_size (skip_to r b) = ring_size b" by (simp add: skip_to_def consume_def)
qed

lemma skip_to_same: "skip_to (stash b) b = b"
  by (simp add: skip_to_def consume_def)

lemma skip_to_consume:
  assumes wf: "ring_wf b" and k: "unat k \<le> length (stash b)"
    and r: "length r \<le> length (stash b) - unat k"
  shows "skip_to r (consume k b) = skip_to r b"
proof -
  have "stash (consume k b) = drop (unat k) (stash b)" by (rule consume_stash(2) [OF wf k])
  then have "length (stash b) - length r = unat k + (length (stash (consume k b)) - length r)"
    using k r by simp
  then have "word_of_nat (length (stash b) - length r) =
      k + (word_of_nat (length (stash (consume k b)) - length r) :: size_t)"
    by (simp del: of_nat_diff)
  then show ?thesis by (simp add: skip_to_def consume_def add.assoc)
qed

definition reasons_of :: "string option \<Rightarrow> string list" where
  "reasons_of d = (case d of None \<Rightarrow> [] | Some e \<Rightarrow> [e])"

lemma deliver_all_Cons_Done:
  assumes "parse_and_push (clock (parses c)) p (assigned_queue c) (telemetry c) = Done (x, q, t)"
  shows "deliver_all clock (p # ps) c =
     bind_out (deliver_all clock ps (c\<lparr>assigned_queue := q, telemetry := t, parses := parses c + 1\<rparr>))
       (\<lambda>(rs, c1). Done (reasons_of x @ rs, c1))"
  by (simp add: assms reasons_of_def)

text \<open>Payloads the scalar parser gets: all of them, or those of less than 64 bytes when AVX2 is used.\<close>

definition scalar_payloads :: "Session \<Rightarrow> bytes list \<Rightarrow> bool" where
  "scalar_payloads s ps \<longleftrightarrow> (simd_parser s \<longrightarrow> (\<forall>p \<in> set ps. length p < 64))"

lemma scalar_payloads_Cons: "scalar_payloads s (p # ps) \<longleftrightarrow> scalar_payloads s [p] \<and> scalar_payloads s ps"
  by (auto simp: scalar_payloads_def)

lemma scalar_payloads_simps [simp]:
  "scalar_payloads s (ps @ qs) \<longleftrightarrow> scalar_payloads s ps \<and> scalar_payloads s qs"
  "scalar_payloads (s\<lparr>stash_buffer := b\<rparr>) ps = scalar_payloads s ps"
  "scalar_payloads (close_with rs s) ps = scalar_payloads s ps"
  by (auto simp: scalar_payloads_def)

lemma call_parser_scalar:
  assumes "scalar_payloads s [p]"
  shows "call_parser clock p (s, c) =
     bind_out (parse_and_push (clock (parses c)) p (assigned_queue c) (telemetry c))
       (\<lambda>(reason, q, t). Done
          (case reason of None \<Rightarrow> s | Some r \<Rightarrow> disconnect r s,
           c\<lparr>assigned_queue := q, telemetry := t, parses := parses c + 1\<rparr>))"
proof (cases "simd_parser s")
  case True
  then have "simd_falls_back a p" for a using assms by (simp add: scalar_payloads_def simd_falls_back_def)
  then show ?thesis by (simp add: call_parser_def parse_and_push_simd_def)
qed (simp add: call_parser_def)

lemma process_stash_Deliver:
  assumes "session_scan s = Deliver p k" and "k \<noteq> 0" and scalar: "scalar_payloads s [p]"
  shows "process_stash clock (s, c) =
     bind_out (parse_and_push (clock (parses c)) p (assigned_queue c) (telemetry c))
       (\<lambda>(x, q, t). process_stash clock
          ((close_with (reasons_of x) s)\<lparr>stash_buffer := consume k (stash_buffer s)\<rparr>,
           c\<lparr>assigned_queue := q, telemetry := t, parses := parses c + 1\<rparr>))"
proof (cases "parse_and_push (clock (parses c)) p (assigned_queue c) (telemetry c)")
  case (Done y)
  obtain x q t where "y = (x, q, t)" by (metis prod_cases3)
  with Done assms show ?thesis
    by (cases x) (simp_all add: process_stash.simps [of clock s c] call_parser_scalar reasons_of_def
        close_with_def)
qed (use assms in \<open>simp_all add: process_stash.simps [of clock s c] call_parser_scalar\<close>)

lemma process_stash_spec:
  assumes "session_wf s" and "scalar_payloads s ps"
    and "deframe (unat (max_log_size s)) (stash (stash_buffer s)) = (ps, r, d)"
  shows "process_stash clock (s, c) =
     bind_out (deliver_all clock ps c) (\<lambda>(rs, c1). Done
       ((close_with (rs @ reasons_of d) s)\<lparr>stash_buffer := skip_to r (stash_buffer s)\<rparr>, c1))"
  using assms
proof (induction "length (stash (stash_buffer s))" arbitrary: s c ps rule: less_induct)
  case less
  note wf = less.prems(1) and scalar = less.prems(2) and df = less.prems(3)
  let ?m = "unat (max_log_size s)" and ?bs = "stash (stash_buffer s)"
  have rw: "ring_wf (stash_buffer s)" using wf by (simp add: session_wf_def)
  note sc = session_scan_spec [OF wf]
  show ?case
  proof (cases "next_item ?m ?bs")
    case Wait
    then have "session_scan s = Wait" using sc item_nat_cases(1) by metis
    moreover have "ps = []" "r = ?bs" "d = None" using df deframe_Wait [OF Wait] by simp_all
    ultimately show ?thesis
      by (simp add: process_stash.simps [of clock s c] close_with_def skip_to_same reasons_of_def)
  next
    case (Reject e)
    then have "session_scan s = Reject e" using sc item_nat_cases(2) by metis
    moreover have "ps = []" "r = ?bs" "d = Some e" using df deframe_Reject [OF Reject] by simp_all
    ultimately show ?thesis
      by (simp add: process_stash.simps [of clock s c] close_with_def skip_to_same reasons_of_def
          disconnect_def)
  next
    case (Deliver p n)
    then obtain k where scan: "session_scan s = Deliver p k" and k: "unat k = n"
      using sc item_nat_cases(3) by metis
    note cons = next_item_consumes [OF Deliver]
    have kne: "k \<noteq> 0" using cons(1) k by auto
    obtain ps1 where df1: "deframe ?m (drop n ?bs) = (ps1, r, d)" and ps: "ps = p # ps1"
      using deframe_DeliverD [OF Deliver df] by blast
    have sp: "scalar_payloads s [p]" "scalar_payloads s ps1" using scalar unfolding ps scalar_payloads_Cons [of s p ps1] by blast+
    let ?b = "consume k (stash_buffer s)"
    have b: "ring_wf ?b" "stash ?b = drop n ?bs"
      using consume_stash(1,2) [OF rw, of k] cons(2) k by simp_all
    have "length r \<le> length ?bs - n"
      using deframe_suffix [OF df1] by auto
    then have sk: "skip_to r ?b = skip_to r (stash_buffer s)"
      using skip_to_consume [OF rw, of k r] cons(2) k by simp
    show ?thesis
    proof (cases "parse_and_push (clock (parses c)) p (assigned_queue c) (telemetry c)")
      case (Done y)
      obtain x q t where "y = (x, q, t)" by (metis prod_cases3)
      with Done have pp: "parse_and_push (clock (parses c)) p (assigned_queue c) (telemetry c) =
          Done (x, q, t)" by simp
      define s1 where "s1 = (close_with (reasons_of x) s)\<lparr>stash_buffer := ?b\<rparr>"
      define c1 where "c1 = c\<lparr>assigned_queue := q, telemetry := t, parses := parses c + 1\<rparr>"
      have s1: "stash_buffer s1 = ?b" "max_log_size s1 = max_log_size s" "scalar_payloads s1 ps1"
        using sp(2) by (simp_all add: s1_def)
      have wf1: "session_wf s1" using wf b(1) by (simp add: session_wf_def s1)
      have lt: "length (stash (stash_buffer s1)) < length ?bs"
        using b(2) cons by (simp add: s1)
      have df1': "deframe (unat (max_log_size s1)) (stash (stash_buffer s1)) = (ps1, r, d)"
        using df1 b(2) by (simp add: s1)
      have "process_stash clock (s, c) = process_stash clock (s1, c1)"
        by (simp add: process_stash_Deliver [OF scan kne sp(1)] pp s1_def c1_def)
      also have "\<dots> = bind_out (deliver_all clock ps1 c1) (\<lambda>(rs, c1). Done
          ((close_with (rs @ reasons_of d) s1)\<lparr>stash_buffer := skip_to r ?b\<rparr>, c1))"
        unfolding less.hyps [OF lt wf1 s1(3) df1'] s1(1) ..
      also have "\<dots> = bind_out (deliver_all clock ps c) (\<lambda>(rs, c1). Done
          ((close_with (rs @ reasons_of d) s)\<lparr>stash_buffer := skip_to r (stash_buffer s)\<rparr>, c1))"
        unfolding ps deliver_all_Cons_Done [of clock c p x q t ps1, OF pp] c1_def [symmetric]
        by (cases "deliver_all clock ps1 c1")
          (auto simp: s1_def close_with_stash_update close_with_append sk)
      finally show ?thesis .
    qed (simp_all add: process_stash_Deliver [OF scan kne sp(1)] ps)
  qed
qed

end
