(* ===== verification/Session_Spec.thy ===== *)
theory Session_Spec
  imports Network_Session
begin

text \<open>
  A session over its lifetime: construction, the sequence of reads that a client's stream
  arrives in, and closing.
\<close>

section \<open>Reads in sequence\<close>

text \<open>
  The completion handlers of a session, one after the other: while a read is pending, the next
  chunk completes it; chunks that arrive when none is pending are not read.
\<close>

fun run_reads ::
  "(nat \<Rightarrow> u64) \<Rightarrow> bytes list \<Rightarrow> (Session \<times> Shared) \<times> size_t option \<Rightarrow>
   ((Session \<times> Shared) \<times> size_t option) outcome" where
  "run_reads clock [] st = Done st"
| "run_reads clock (chunk # chunks) (sc, None) = Done (sc, None)"
| "run_reads clock (chunk # chunks) (sc, Some n) =
     bind_out (on_read clock (Inr chunk) sc) (run_reads clock chunks)"

lemma deliver_all_append:
  "deliver_all clock (ps @ qs) c =
     bind_out (deliver_all clock ps c) (\<lambda>(rs, c1).
       bind_out (deliver_all clock qs c1) (\<lambda>(rs', c2). Done (rs @ rs', c2)))"
proof (induction ps arbitrary: c)
  case Nil
  show ?case by (cases "deliver_all clock qs c") auto
next
  case (Cons p ps)
  show ?case
  proof (cases "parse_and_push (clock (parses c)) p (assigned_queue c) (telemetry c)")
    case (Done y)
    obtain x q t where y: "y = (x, q, t)" by (metis prod_cases3)
    define c1 where "c1 = c\<lparr>assigned_queue := q, telemetry := t, parses := parses c + 1\<rparr>"
    have step: "deliver_all clock (p # zs) c =
        bind_out (deliver_all clock zs c1) (\<lambda>(rs, c2). Done (reasons_of x @ rs, c2))" for zs
      unfolding c1_def using Done y by (intro deliver_all_Cons_Done) simp
    show ?thesis
    proof (cases "deliver_all clock ps c1")
      case D: (Done z)
      obtain rs c2 where "z = (rs, c2)" by fastforce
      with D show ?thesis
        by (cases "deliver_all clock qs c2") (auto simp: step Cons.IH simp del: deliver_all.simps)
    qed (simp_all add: step Cons.IH del: deliver_all.simps)
  qed simp_all
qed

section \<open>Prefixes of a stream of encoded logs\<close>

text \<open>A log that the session can always take: it fits the ring with 1024 bytes to spare.\<close>

definition wire_fits :: "nat \<Rightarrow> nat \<Rightarrow> wire \<Rightarrow> bool" where
  "wire_fits m sz w \<longleftrightarrow> wire_ok m w \<and> length (encode w) + 1024 \<le> sz"

lemma encode_nonempty [simp]: "encode w \<noteq> []"
  by (cases w) (simp_all add: magic_bytes_def)

lemma incomplete_frame_waits:
  assumes m: "m < 2 ^ 32" and ok: "wire_ok m (Binary p)" and j: "j < length (encode (Binary p))"
  shows "next_item m (take j (encode (Binary p))) = Wait"
proof -
  let ?w = "encode (Binary p)"
  have len: "length ?w = 8 + length p" by (simp add: magic_bytes_def)
  have t4: "take 4 (take j ?w) = magic_bytes" if "4 \<le> j"
  proof -
    have "take 4 (take j ?w) = take 4 ?w" using that by (simp add: min_absorb1 del: encode.simps)
    then show ?thesis by (simp add: magic_bytes_def)
  qed
  have "frame_length (take j ?w) = frame_length ?w" if "8 \<le> j"
    using that by (simp add: frame_length_def del: encode.simps)
  moreover have "frame_length ?w = length p"
    using be_length [of "length p" p] ok m by simp
  ultimately show ?thesis
    using t4 j len ok by (cases "j < 4"; cases "j < 8") (simp_all add: next_item_def)
qed

lemma incomplete_line_waits:
  assumes ok: "wire_ok m (Line p)" and j: "j < length (encode (Line p))" and "j \<le> m"
  shows "next_item m (take j (encode (Line p))) = Wait"
proof -
  have t: "take j (encode (Line p)) = take j p" using j by simp
  have "10 \<notin> set (take j p)" using ok by (auto dest: in_set_takeD)
  moreover have "take 4 (take j p) \<noteq> magic_bytes" if "4 \<le> j"
    using that ok by (simp add: min_absorb1)
  ultimately show ?thesis
    unfolding t using assms(3) j by (auto simp: next_item_def memchr_def)
qed

lemma incomplete_wire_waits:
  assumes "m < 2 ^ 32" and "wire_ok m w" and "j < length (encode w)" and "j \<le> m"
  shows "next_item m (take j (encode w)) = Wait"
  using assms incomplete_frame_waits incomplete_line_waits by (cases w) simp_all

text \<open>Cutting a stream of logs anywhere leaves whole logs and one incomplete log.\<close>

fun incomplete :: "bytes \<Rightarrow> wire list \<Rightarrow> bool" where
  "incomplete p [] \<longleftrightarrow> p = []"
| "incomplete p (w # ws) \<longleftrightarrow> (\<exists>j < length (encode w). p = take j (encode w))"

lemma cut_stream:
  "xs @ ys = concat (map encode ws) \<Longrightarrow>
   \<exists>ws1 ws2 p. ws = ws1 @ ws2 \<and> xs = concat (map encode ws1) @ p \<and> incomplete p ws2"
proof (induction ws arbitrary: xs)
  case Nil
  then show ?case by (intro exI [of _ "[]"]) simp
next
  case (Cons w ws)
  show ?case
  proof (cases "length xs < length (encode w)")
    case True
    have "xs = take (length xs) (xs @ ys)" by simp
    also have "\<dots> = take (length xs) (encode w)" using True by (simp add: Cons.prems)
    finally have "incomplete xs (w # ws)" using True by auto
    then show ?thesis by (intro exI [of _ "[]"] exI [of _ "w # ws"] exI [of _ xs]) simp
  next
    case False
    have "take (length (encode w)) xs = take (length (encode w)) (xs @ ys)" using False by simp
    also have "\<dots> = encode w" by (simp add: Cons.prems)
    finally have xs: "xs = encode w @ drop (length (encode w)) xs"
      by (metis append_take_drop_id)
    then have "drop (length (encode w)) xs @ ys = concat (map encode ws)"
      using Cons.prems by (metis append.assoc concat.simps(2) list.simps(9) same_append_eq)
    from Cons.IH [OF this] obtain ws1 ws2 p where "ws = ws1 @ ws2"
      "drop (length (encode w)) xs = concat (map encode ws1) @ p" "incomplete p ws2" by blast
    with xs show ?thesis by (intro exI [of _ "w # ws1"] exI [of _ ws2]) auto
  qed
qed

lemma incomplete_waits:
  assumes "m < 2 ^ 32" and "sz \<le> m + 1024" and "\<forall>w \<in> set ws. wire_fits m sz w" and "incomplete p ws"
  shows "next_item m p = Wait" and "p \<noteq> [] \<Longrightarrow> length p + 1024 \<le> sz"
proof -
  have "next_item m p = Wait \<and> (p \<noteq> [] \<longrightarrow> length p + 1024 \<le> sz)"
  proof (cases ws)
    case Nil
    with assms(4) show ?thesis by (simp add: next_item_def)
  next
    case (Cons w ws')
    with assms(3,4) obtain j where j: "j < length (encode w)" "p = take j (encode w)"
      and ok: "wire_ok m w" "length (encode w) + 1024 \<le> sz"
      by (auto simp: wire_fits_def)
    then have "j \<le> m" using assms(2) by simp
    with j ok assms(1) show ?thesis by (simp add: incomplete_wire_waits)
  qed
  then show "next_item m p = Wait" and "p \<noteq> [] \<Longrightarrow> length p + 1024 \<le> sz" by simp_all
qed

section \<open>The session on a stream\<close>

text \<open>
  One read: the handler parses the logs that are complete and asks for the next read.
\<close>

lemma on_read_spec:
  assumes wf: "session_wf s" and sc: "scalar_payloads s ps"
    and room: "length chunk \<le> unat (get_write_space (stash_buffer s))"
    and df: "deframe (unat (max_log_size s)) (stash (stash_buffer s) @ chunk) = (ps, r, None)"
    and left: "length r + 1024 \<le> unat (ring_size (stash_buffer s))"
  shows "\<exists>b. ring_wf b \<and> stash b = r \<and> ring_size b = ring_size (stash_buffer s) \<and>
     on_read clock (Inr chunk) (s, c) =
       bind_out (deliver_all clock ps c) (\<lambda>(rs, c1).
         Done (((close_with rs s)\<lparr>stash_buffer := b\<rparr>, c1), Some (get_write_space b)))"
proof -
  have rw: "ring_wf (stash_buffer s)" using wf by (simp add: session_wf_def)
  define b0 where "b0 = commit_write (word_of_nat (length chunk)) (receive_bytes chunk (stash_buffer s))"
  have b0: "ring_wf b0" "stash b0 = stash (stash_buffer s) @ chunk"
    using receive_stash [OF rw room] by (simp_all add: b0_def)
  have b0s: "ring_size b0 = ring_size (stash_buffer s)"
    by (simp add: b0_def commit_write_def receive_bytes_def Let_def)
  define s0 where "s0 = s\<lparr>stash_buffer := b0\<rparr>"
  have wf0: "session_wf s0" and sc0: "scalar_payloads s0 ps"
    and df0: "deframe (unat (max_log_size s0)) (stash (stash_buffer s0)) = (ps, r, None)"
    using wf sc df b0 by (simp_all add: s0_def session_wf_def)
  define b where "b = skip_to r b0"
  have b: "ring_wf b" "stash b = r" "ring_size b = ring_size (stash_buffer s)"
    using skip_to_stash [OF b0(1), of "unat (max_log_size s)" ps r None] df b0(2) b0s
    by (simp_all add: b_def)
  have "unat (get_write_space b) = unat (ring_size (stash_buffer s)) - length r"
    using write_space_nat [OF b(1)] b by simp
  then have "\<not> get_write_space b < 1024" using left by (simp add: word_less_nat_alt)
  then have rh: "read_header clock (s1\<lparr>stash_buffer := b\<rparr>, c1) =
      Done ((s1\<lparr>stash_buffer := b\<rparr>, c1), Some (get_write_space b))" for s1 c1
    by (simp add: read_header_def Let_def)
  have "on_read clock (Inr chunk) (s, c) = bind_out (process_stash clock (s0, c)) (read_header clock)"
    by (simp add: on_read_def Let_def s0_def b0_def)
  also have "\<dots> = bind_out (deliver_all clock ps c) (\<lambda>(rs, c1).
      Done (((close_with rs s)\<lparr>stash_buffer := b\<rparr>, c1), Some (get_write_space b)))"
    unfolding process_stash_spec [OF wf0 sc0 df0]
    by (cases "deliver_all clock ps c")
      (auto simp: s0_def close_with_stash_update b_def [symmetric] rh reasons_of_def)
  finally show ?thesis using b by blast
qed

lemma drained_ring:
  assumes "ring_wf b"
  shows "\<exists>b'. ring_wf b' \<and> stash b' = [] \<and> ring_size b' = ring_size b"
  using consume_stash(1,2) [OF assms, of "get_bytes_available b"]
  by (intro exI [of _ "consume (get_bytes_available b) b"]) (simp add: consume_def)

lemma run_reads_spec:
  assumes "session_wf s" and "scalar_payloads s (map payload_of ws)"
    and "unat (ring_size (stash_buffer s)) \<le> unat (max_log_size s) + 1024"
    and "\<forall>w \<in> set ws. wire_fits (unat (max_log_size s)) (unat (ring_size (stash_buffer s))) w"
    and "\<forall>k \<in> set chunks. length k \<le> 1024"
    and "stash (stash_buffer s) @ concat chunks = concat (map encode ws)"
    and "incomplete (stash (stash_buffer s)) ws"
  shows "\<exists>b n'. ring_wf b \<and> stash b = [] \<and> ring_size b = ring_size (stash_buffer s) \<and>
     run_reads clock chunks ((s, c), Some n) =
       bind_out (deliver_all clock (map payload_of ws) c) (\<lambda>(rs, c1).
         Done (((close_with rs s)\<lparr>stash_buffer := b\<rparr>, c1), Some n'))"
  using assms
proof (induction chunks arbitrary: s c ws n)
  case Nil
  have "ws = []"
  proof (cases ws)
    case (Cons w ws')
    with Nil.prems(7) obtain j where "j < length (encode w)"
      "stash (stash_buffer s) = take j (encode w)" by auto
    with Nil.prems(6) Cons have "length (take j (encode w)) = length (encode w @ concat (map encode ws'))"
      by simp
    with \<open>j < length (encode w)\<close> show ?thesis by simp
  qed simp
  with Nil.prems show ?case
    by (intro exI [of _ "stash_buffer s"] exI [of _ n]) (simp add: session_wf_def close_with_def)
next
  case (Cons k ks)
  let ?m = "unat (max_log_size s)" and ?N = "unat (ring_size (stash_buffer s))"
    and ?st = "stash (stash_buffer s)"
  have rw: "ring_wf (stash_buffer s)" and m: "?m < 2 ^ 32"
    using Cons.prems(1) by (simp_all add: session_wf_def)
  obtain a where a: "16 \<le> a" "?N = 2 ^ a" using ring_wfE [OF rw] by metis
  then have N: "1024 \<le> ?N" using power_increasing [of 10 a "2 :: nat"] by simp
  note fits = Cons.prems(4)
  have st: "?st \<noteq> [] \<Longrightarrow> length ?st + 1024 \<le> ?N"
    using incomplete_waits(2) [OF m Cons.prems(3,4,7)] .
  have room: "length k \<le> unat (get_write_space (stash_buffer s))"
  proof -
    have "length k \<le> 1024" using Cons.prems(5) by simp
    moreover have "length ?st + 1024 \<le> ?N" using st N by (cases "?st = []") simp_all
    ultimately show ?thesis using write_space_nat [OF rw] by linarith
  qed
  have whole: "(?st @ k) @ concat ks = concat (map encode ws)" using Cons.prems(6) by simp
  from cut_stream [OF whole] obtain ws1 ws2 p where
    ws: "ws = ws1 @ ws2" and cut: "?st @ k = concat (map encode ws1) @ p" and inc: "incomplete p ws2"
    by blast
  have fits2: "\<forall>w \<in> set ws2. wire_fits ?m ?N w" using fits ws by simp
  have "deframe ?m p = ([], p, None)"
    using incomplete_waits(1) [OF m Cons.prems(3) fits2 inc] by (rule deframe_Wait)
  moreover have "\<forall>w \<in> set ws1. wire_ok ?m w" using fits ws by (simp add: wire_fits_def)
  ultimately have df: "deframe ?m (?st @ k) = (map payload_of ws1, p, None)"
    using deframe_encoded [OF m, of ws1 p] by (simp add: cut)
  have left: "length p + 1024 \<le> ?N"
    using incomplete_waits(2) [OF m Cons.prems(3) fits2 inc] N by (cases "p = []") simp_all
  obtain b where b: "ring_wf b" "stash b = p" "ring_size b = ring_size (stash_buffer s)"
    and step: "on_read clock (Inr k) (s, c) =
       bind_out (deliver_all clock (map payload_of ws1) c) (\<lambda>(rs, c1).
         Done (((close_with rs s)\<lparr>stash_buffer := b\<rparr>, c1), Some (get_write_space b)))"
    using on_read_spec [OF Cons.prems(1) _ room df left] Cons.prems(2) ws by auto
  show ?case
  proof (cases "deliver_all clock (map payload_of ws1) c")
    case (Done y)
    obtain rs c1 where "y = (rs, c1)" by fastforce
    with Done have dn: "deliver_all clock (map payload_of ws1) c = Done (rs, c1)" by simp
    let ?s1 = "(close_with rs s)\<lparr>stash_buffer := b\<rparr>"
    have "session_wf ?s1" using Cons.prems(1) b by (simp add: session_wf_def)
    moreover have "scalar_payloads ?s1 (map payload_of ws2)" using Cons.prems(2) ws by simp
    moreover have "unat (ring_size (stash_buffer ?s1)) \<le> unat (max_log_size ?s1) + 1024"
      using Cons.prems(3) b by simp
    moreover have "\<forall>w \<in> set ws2. wire_fits (unat (max_log_size ?s1)) (unat (ring_size (stash_buffer ?s1))) w"
      using fits2 b by simp
    moreover have "\<forall>k \<in> set ks. length k \<le> 1024" using Cons.prems(5) by simp
    moreover have "stash (stash_buffer ?s1) @ concat ks = concat (map encode ws2)"
      using whole b(2) by (simp add: cut ws)
    moreover have "incomplete (stash (stash_buffer ?s1)) ws2" using inc b by simp
    ultimately obtain b' n' where b': "ring_wf b'" "stash b' = []"
        "ring_size b' = ring_size (stash_buffer ?s1)"
      and rest: "run_reads clock ks ((?s1, c1), Some (get_write_space b)) =
       bind_out (deliver_all clock (map payload_of ws2) c1) (\<lambda>(rs', c2).
         Done (((close_with rs' ?s1)\<lparr>stash_buffer := b'\<rparr>, c2), Some n'))"
      using Cons.IH [of ?s1 ws2 c1 "get_write_space b"] by blast
    have "run_reads clock (k # ks) ((s, c), Some n) =
       bind_out (deliver_all clock (map payload_of ws2) c1) (\<lambda>(rs', c2).
         Done (((close_with rs' ?s1)\<lparr>stash_buffer := b'\<rparr>, c2), Some n'))"
      by (simp add: step dn rest)
    also have "\<dots> = bind_out (deliver_all clock (map payload_of ws) c) (\<lambda>(rs, c1).
         Done (((close_with rs s)\<lparr>stash_buffer := b'\<rparr>, c1), Some n'))"
      unfolding ws map_append deliver_all_append dn
      by (cases "deliver_all clock (map payload_of ws2) c1")
        (auto simp: close_with_append close_with_stash_update)
    finally show ?thesis using b b' by auto
  qed (use drained_ring [OF b(1)] b(3) in
      \<open>auto simp: step ws deliver_all_append\<close>)
qed

section \<open>Logs\<close>

text \<open>
  A client's log is its timestamp, level, identifier and message; \<open>line_of\<close> is how it is
  written, \<open>describes\<close> the queue entry it leads to.
\<close>

type_synonym client_log = "u64 \<times> LogLevel \<times> u32 \<times> bytes"

fun line_of :: "client_log \<Rightarrow> bytes" where
  "line_of (time, l, ident, message) = log_line time (word_of_nat (level_value l)) ident message"

fun log_ok :: "(nat \<Rightarrow> u64) \<Rightarrow> nat \<Rightarrow> client_log \<Rightarrow> bool" where
  "log_ok clock room (time, l, ident, message) \<longleftrightarrow>
     (\<forall>k. validateTimestamp (clock k) time) \<and> ident \<noteq> 0 \<and> block_need (length message) \<le> room"

fun describes :: "LogEntry \<Rightarrow> client_log \<Rightarrow> bool" where
  "describes e (time, l, ident, message) \<longleftrightarrow> (\<exists>rel. e = queue_entry time l ident (length message) rel)"

lemma level_word: "unat (word_of_nat (level_value l) :: size_t) = level_value l"
  by (cases l) simp_all

lemma parse_log_stores:
  assumes "log_ok clock room (time, l, ident, message)"
  shows "parse_and_push (clock k) (line_of (time, l, ident, message)) q t =
     store_and_push time (word_of_nat (level_value l)) ident message q t"
    and "level_of (unat (word_of_nat (level_value l) :: size_t)) = Some l"
    and "block_need (length message) \<le> room"
proof -
  have ok: "validateTimestamp (clock k) time" "validateID ident"
    using assms by (simp_all add: validateID_iff)
  have lv: "validate_level (word_of_nat (level_value l))" by (simp add: validate_level_iff level_word)
  show "parse_and_push (clock k) (line_of (time, l, ident, message)) q t =
      store_and_push time (word_of_nat (level_value l)) ident message q t"
    using parse_header_log_line [OF ok(1) lv ok(2)] by (simp add: parse_and_push_def finish_parse_def)
  show "level_of (unat (word_of_nat (level_value l) :: size_t)) = Some l" by (simp add: level_word)
  show "block_need (length message) \<le> room" using assms by simp
qed

lemma parse_accepts_log:
  assumes "channel_ready q" and "length (entries q) < capacity q"
    and "log_ok clock (unat (slab_size (slab_pool q))) x"
  shows "\<exists>q' e. parse_and_push (clock k) (line_of x) q t = Done (None, q', RegisterPushed t) \<and>
     entries q' = entries q @ [e] \<and> describes e x \<and> channel_ready q' \<and> same_shape q q'"
proof -
  obtain time l ident message where x: "x = (time, l, ident, message)" by (metis prod_cases4)
  note st = parse_log_stores [OF assms(3) [unfolded x]]
  have acc: "accepts_log q (length message)"
    using assms(1,2) st(3) by (simp add: accepts_log_def full_def)
  from store_and_push_accepts [OF acc st(2), of time ident t] show ?thesis
    unfolding x st(1) by fastforce
qed

text \<open>A log that finds the queue full is dropped when the profile says so.\<close>

lemma parse_drops_log:
  assumes "channel_ready q" and "full q" and "overflow q = DropAll"
    and "log_ok clock (unat (slab_size (slab_pool q))) x"
  shows "\<exists>q'. parse_and_push (clock k) (line_of x) q t = Done (None, q', t) \<and>
     entries q' = entries q \<and> channel_ready q' \<and> same_shape q q'"
proof -
  obtain time l ident message where x: "x = (time, l, ident, message)" by (metis prod_cases4)
  note st = parse_log_stores [OF assms(4) [unfolded x]]
  from store_and_push_drops [OF assms(1-3) st(3,2), of time ident t] show ?thesis
    unfolding x st(1) .
qed

text \<open>
  What arrives: logs, and payloads the parser refuses with a reason. All the logs are stored, also
  those behind a refused payload.
\<close>

type_synonym arrival = "(bytes \<times> string) + client_log"

fun payload_in :: "arrival \<Rightarrow> bytes" where
  "payload_in (Inl (p, e)) = p"
| "payload_in (Inr l) = line_of l"

fun logs_in :: "arrival list \<Rightarrow> client_log list" where
  "logs_in [] = []"
| "logs_in (Inl r # xs) = logs_in xs"
| "logs_in (Inr l # xs) = l # logs_in xs"

fun refusals_in :: "arrival list \<Rightarrow> string list" where
  "refusals_in [] = []"
| "refusals_in (Inl r # xs) = snd r # refusals_in xs"
| "refusals_in (Inr l # xs) = refusals_in xs"

fun arrival_ok :: "(nat \<Rightarrow> u64) \<Rightarrow> nat \<Rightarrow> arrival \<Rightarrow> bool" where
  "arrival_ok clock room (Inl (p, e)) \<longleftrightarrow> (\<forall>k. parse_header (clock k) p = Reason e)"
| "arrival_ok clock room (Inr l) \<longleftrightarrow> log_ok clock room l"

lemma deliver_arrivals:
  assumes "channel_ready q" and "length (entries q) + length (logs_in xs) \<le> capacity q"
    and "\<forall>x \<in> set xs. arrival_ok clock (unat (slab_size (slab_pool q))) x"
    and "assigned_queue c = q"
  shows "\<exists>c' es. deliver_all clock (map payload_in xs) c = Done (refusals_in xs, c') \<and>
     entries (assigned_queue c') = entries q @ es \<and> list_all2 describes es (logs_in xs) \<and>
     channel_ready (assigned_queue c') \<and>
     pushed_logs (telemetry c') = pushed_logs (telemetry c) + word_of_nat (length (logs_in xs))"
  using assms
proof (induction xs arbitrary: q c)
  case Nil
  then show ?case by simp
next
  case (Cons x xs)
  show ?case
  proof (cases x)
    case (Inl r)
    obtain p e where r: "r = (p, e)" by fastforce
    then have "parse_and_push (clock (parses c)) p (assigned_queue c) (telemetry c) =
        Done (Some e, assigned_queue c, telemetry c)"
      using Cons.prems(3) Inl by (simp add: parse_and_push_def finish_parse_def)
    note step = deliver_all_Cons_Done [of clock c p "Some e" "assigned_queue c" "telemetry c" "map payload_in xs", OF this]
    define c1 where "c1 = c\<lparr>assigned_queue := assigned_queue c, telemetry := telemetry c, parses := parses c + 1\<rparr>"
    have "assigned_queue c1 = q" "telemetry c1 = telemetry c" using Cons.prems(4) by (simp_all add: c1_def)
    then show ?thesis
      using Cons.IH [OF Cons.prems(1), of c1] Cons.prems(2,3) step [folded c1_def] Inl r
      by (auto simp: reasons_of_def simp del: deliver_all.simps)
  next
    case (Inr l)
    obtain q' e where pp: "parse_and_push (clock (parses c)) (line_of l) q (telemetry c) =
          Done (None, q', RegisterPushed (telemetry c))"
      and en: "entries q' = entries q @ [e]" "describes e l"
      and rq: "channel_ready q'" "same_shape q q'"
      using parse_accepts_log [OF Cons.prems(1), of clock l "parses c" "telemetry c"] Cons.prems(2,3) Inr by auto
    define c1 where "c1 = c\<lparr>assigned_queue := q', telemetry := RegisterPushed (telemetry c), parses := parses c + 1\<rparr>"
    have "parse_and_push (clock (parses c)) (line_of l) (assigned_queue c) (telemetry c) =
        Done (None, q', RegisterPushed (telemetry c))" using pp Cons.prems(4) by simp
    note step = deliver_all_Cons_Done [of clock c "line_of l" None q' _ "map payload_in xs", OF this, folded c1_def]
    have sh: "capacity q' = capacity q" "slab_size (slab_pool q') = slab_size (slab_pool q)"
      using rq(2) by (simp_all add: same_shape_def)
    have "length (entries q') + length (logs_in xs) \<le> capacity q'"
      using Cons.prems(2) Inr by (simp add: en sh)
    moreover have "\<forall>x \<in> set xs. arrival_ok clock (unat (slab_size (slab_pool q'))) x"
      using Cons.prems(3) by (simp add: sh)
    moreover have "assigned_queue c1 = q'" by (simp add: c1_def)
    ultimately obtain c' es where rec: "deliver_all clock (map payload_in xs) c1 = Done (refusals_in xs, c')"
      "entries (assigned_queue c') = entries q' @ es" "list_all2 describes es (logs_in xs)"
      "channel_ready (assigned_queue c')"
      "pushed_logs (telemetry c') = pushed_logs (telemetry c1) + word_of_nat (length (logs_in xs))"
      using Cons.IH [OF rq(1)] by blast
    have "list_all2 describes (e # es) (logs_in (x # xs))" using rec(3) en(2) Inr by simp
    moreover have "deliver_all clock (map payload_in (x # xs)) c = Done (refusals_in (x # xs), c')"
      using step rec(1) Inr by (simp add: reasons_of_def del: deliver_all.simps)
    ultimately show ?thesis
      using rec(2,4,5) en(1) Inr by (intro exI [of _ c'] exI [of _ "e # es"]) (simp add: c1_def)
  qed
qed

lemma arrived_logs [simp]:
  "map payload_in (map Inr logs) = map line_of logs" "logs_in (map Inr logs) = logs" "refusals_in (map Inr logs) = []"
  by (induction logs) simp_all

lemma deliver_all_accepts:
  assumes "channel_ready q" and "length (entries q) + length logs \<le> capacity q"
    and "\<forall>x \<in> set logs. log_ok clock (unat (slab_size (slab_pool q))) x"
    and "assigned_queue c = q"
  shows "\<exists>c' es. deliver_all clock (map line_of logs) c = Done ([], c') \<and>
     entries (assigned_queue c') = entries q @ es \<and> list_all2 describes es logs \<and>
     channel_ready (assigned_queue c') \<and>
     pushed_logs (telemetry c') = pushed_logs (telemetry c) + word_of_nat (length logs)"
  using deliver_arrivals [OF assms(1), of "map Inr logs" clock c] assms(2-4)
  unfolding arrived_logs by simp

section \<open>Properties\<close>

text \<open>A fresh session, as the constructor builds it, for the examples.\<close>

definition fresh_ring :: MagicRingBuffer where
  "fresh_ring =
     \<lparr>ring_hMapFile = True, viewA = True, viewB = True, base_ptr = True, ring_size = 65536,
      ring_head = 0, ring_tail = 0, memory = replicate 65536 0\<rparr>"

definition fresh_session :: Session where
  "fresh_session =
     \<lparr>stash_buffer = fresh_ring, max_log_size = 65504, is_closing = False, simd_parser = False,
      base_address = 0, messages = [], posted_actions = []\<rparr>"

definition fresh_shared :: Shared where
  "fresh_shared = \<lparr>assigned_queue = ready_queue, telemetry = Telemetry_init, parses = 0\<rparr>"

lemma fresh_ring_wf: "ring_wf fresh_ring" "stash fresh_ring = []" "ring_size fresh_ring = 65536"
proof -
  show "ring_wf fresh_ring"
    unfolding ring_wf_def
  proof (intro conjI exI [of _ 16])
    show "length (memory fresh_ring) = unat (ring_size fresh_ring)"
      unfolding fresh_ring_def MagicRingBuffer.simps length_replicate by simp
  qed (simp_all add: fresh_ring_def get_bytes_available_def)
  show "stash fresh_ring = []"
    unfolding stash_def by (simp add: fresh_ring_def get_bytes_available_def)
qed (simp add: fresh_ring_def)

lemma fresh_session_wf:
  "session_wf fresh_session" "\<not> simd_parser fresh_session"
  "stash (stash_buffer fresh_session) = []" "ring_size (stash_buffer fresh_session) = 65536"
  "unat (max_log_size fresh_session) = 65504"
  by (simp_all add: session_wf_def fresh_session_def fresh_ring_wf)

text \<open>
  C3. \<open>process_stash\<close> implements the framing specification: it runs the parser over exactly the
  payloads \<open>deframe\<close> finds in the stash, in order, leaves in the ring exactly the bytes
  \<open>deframe\<close> leaves over, and closes the session with the first reason, of the parser or of the
  framing. The parser goes on after a refused log. The parser is the scalar one: with AVX2 the
  payloads have to be shorter than 64 bytes, since those are handed to it (\<open>scalar_payloads\<close>); longer
  well-formed lines are undefined behaviour there, C26.
\<close>

theorem process_stash_refines_deframe:
  assumes "session_wf s" and "scalar_payloads s ps"
    and "deframe (unat (max_log_size s)) (stash (stash_buffer s)) = (ps, r, d)"
  shows "ring_wf (skip_to r (stash_buffer s)) \<and> stash (skip_to r (stash_buffer s)) = r \<and>
     process_stash clock (s, c) =
       bind_out (deliver_all clock ps c) (\<lambda>(rs, c1). Done
         ((close_with (rs @ reasons_of d) s)\<lparr>stash_buffer := skip_to r (stash_buffer s)\<rparr>, c1))"
  using process_stash_spec [OF assms] skip_to_stash(1,2) [OF _ assms(3)] assms(1)
  by (simp add: session_wf_def)

text \<open>A session whose stash holds a malformed line and then a good log.\<close>

definition two_lines :: "bytes" where
  "two_lines = [65, 66, 67, 10] @ log_line 998 3 7 [72, 105] @ [10]"

definition busy_session :: Session where
  "busy_session = fresh_session\<lparr>stash_buffer :=
     commit_write (word_of_nat (length two_lines)) (receive_bytes two_lines fresh_ring)\<rparr>"

lemma two_lines_bytes:
  "two_lines = [65, 66, 67, 10, 57, 57, 56, 32, 51, 32, 55, 32, 72, 105, 10]"
  by (simp add: two_lines_def log_line_def dec_digits.simps)

lemma busy_session_wf:
  "session_wf busy_session" "\<not> simd_parser busy_session"
  "stash (stash_buffer busy_session) = two_lines" "unat (max_log_size busy_session) = 65504"
proof -
  have "length two_lines \<le> unat (get_write_space fresh_ring)"
    by (simp add: two_lines_bytes write_space_nat [OF fresh_ring_wf(1)] fresh_ring_wf
        del: length_stash)
  from receive_stash [OF fresh_ring_wf(1) this]
  show "session_wf busy_session" "\<not> simd_parser busy_session"
    "stash (stash_buffer busy_session) = two_lines" "unat (max_log_size busy_session) = 65504"
    by (simp_all add: busy_session_def session_wf_def fresh_session_def fresh_ring_wf)
qed

lemma deframe_two_lines:
  "deframe 65504 two_lines = ([[65, 66, 67], log_line 998 3 7 [72, 105]], [], None)"
proof -
  have "two_lines = concat (map encode [Line [65, 66, 67], Line (log_line 998 3 7 [72, 105])]) @ []"
    by (simp add: two_lines_def)
  moreover have "wire_ok 65504 (Line [65, 66, 67])" "wire_ok 65504 (Line (log_line 998 3 7 [72, 105]))"
    by (simp_all add: log_line_def dec_digits.simps magic_bytes_def)
  moreover have "deframe 65504 [] = ([], [], None)" by (simp add: deframe.simps next_item_def)
  ultimately show ?thesis
    using deframe_encoded [of 65504 "[Line [65, 66, 67], Line (log_line 998 3 7 [72, 105])]" "[]"]
    by simp
qed

theorem process_stash_refines_deframe_witness:
  "\<exists>b. stash b = [] \<and> process_stash (\<lambda>k. 1000) (busy_session, fresh_shared) =
     bind_out (deliver_all (\<lambda>k. 1000) [[65, 66, 67], log_line 998 3 7 [72, 105]] fresh_shared)
       (\<lambda>(rs, c1). Done ((close_with rs busy_session)\<lparr>stash_buffer := b\<rparr>, c1))"
  using process_stash_refines_deframe [OF busy_session_wf(1), of "[[65, 66, 67], log_line 998 3 7 [72, 105]]" "[]" None]
    busy_session_wf(2-4) deframe_two_lines
  by (auto simp: reasons_of_def scalar_payloads_def)

text \<open>
  C2. End to end: a client that sends logs with timestamps inside the window, non-zero
  identifiers and messages that fit a slab, as lines or binary frames that leave 1024 bytes of
  the ring free, gets every log into the queue, in order and exactly once, however TCP cuts
  the stream into chunks of at most 1024 bytes. Two conditions: the queue has room for all the logs,
  and with AVX2 the logs are shorter than 64 bytes (longer ones are undefined behaviour there, C26).
  The session stays open, with an empty stash and a read pending.
\<close>

theorem stream_reaches_queue:
  assumes "session_wf s" and "scalar_payloads s (map line_of logs)" and "stash (stash_buffer s) = []"
    and "\<not> is_closing s"
    and "unat (ring_size (stash_buffer s)) \<le> unat (max_log_size s) + 1024"
    and "channel_ready (assigned_queue c)"
    and "length (entries (assigned_queue c)) + length logs \<le> capacity (assigned_queue c)"
    and "\<forall>x \<in> set logs. log_ok clock (unat (slab_size (slab_pool (assigned_queue c)))) x"
    and "map payload_of ws = map line_of logs"
    and "\<forall>w \<in> set ws. wire_fits (unat (max_log_size s)) (unat (ring_size (stash_buffer s))) w"
    and "\<forall>k \<in> set chunks. length k \<le> 1024" and "concat chunks = concat (map encode ws)"
  shows "\<exists>s' c' n' es. run_reads clock chunks ((s, c), Some n) = Done ((s', c'), Some n') \<and>
     \<not> is_closing s' \<and> stash (stash_buffer s') = [] \<and>
     entries (assigned_queue c') = entries (assigned_queue c) @ es \<and> list_all2 describes es logs \<and>
     pushed_logs (telemetry c') = pushed_logs (telemetry c) + word_of_nat (length logs)"
proof -
  have "incomplete (stash (stash_buffer s)) ws"
    using assms(3) by (cases ws) auto
  then obtain b n' where b: "stash b = []" and run: "run_reads clock chunks ((s, c), Some n) =
       bind_out (deliver_all clock (map payload_of ws) c) (\<lambda>(rs, c1).
         Done (((close_with rs s)\<lparr>stash_buffer := b\<rparr>, c1), Some n'))"
    using run_reads_spec [OF assms(1) assms(2) [folded assms(9)] assms(5,10,11), where c = c and clock = clock and n = n]
      assms(3,12) by auto
  obtain c' es where dl: "deliver_all clock (map line_of logs) c = Done ([], c')"
    and es: "entries (assigned_queue c') = entries (assigned_queue c) @ es" "list_all2 describes es logs"
      "pushed_logs (telemetry c') = pushed_logs (telemetry c) + word_of_nat (length logs)"
    using deliver_all_accepts [OF assms(6,7,8) refl] by blast
  have "run_reads clock chunks ((s, c), Some n) = Done ((s\<lparr>stash_buffer := b\<rparr>, c'), Some n')"
    by (simp add: run assms(9) dl close_with_def)
  with es b assms(4) show ?thesis by (intro exI conjI) (assumption | simp)+
qed

definition hi_log :: client_log where
  "hi_log = (998, Error, 7, [72, 105])"

lemma hi_line: "line_of hi_log = [57, 57, 56, 32, 51, 32, 55, 32, 72, 105]"
  by (simp add: hi_log_def log_line_def dec_digits.simps)

theorem stream_reaches_queue_witness:
  "\<exists>s' c' n' es. run_reads (\<lambda>k. 1000)
       [take 5 (encode (Binary (line_of hi_log))), drop 5 (encode (Binary (line_of hi_log)))]
       ((fresh_session, fresh_shared), Some 65536) = Done ((s', c'), Some n') \<and>
     \<not> is_closing s' \<and> stash (stash_buffer s') = [] \<and>
     entries (assigned_queue c') = entries ready_queue @ es \<and> list_all2 describes es [hi_log] \<and>
     pushed_logs (telemetry c') = 1"
proof -
  have q: "assigned_queue fresh_shared = ready_queue" "telemetry fresh_shared = Telemetry_init"
    "\<not> is_closing fresh_session"
    by (simp_all add: fresh_shared_def fresh_session_def)
  have "log_ok (\<lambda>k. 1000) (unat (slab_size (slab_pool ready_queue))) hi_log"
    by (simp add: ready_queue_facts hi_log_def validateTimestamp_def block_need_def)
  moreover have "wire_fits 65504 65536 (Binary (line_of hi_log))"
    by (simp add: wire_fits_def hi_line magic_bytes_def)
  moreover have "length (encode (Binary (line_of hi_log))) = 18"
    by (simp add: hi_line magic_bytes_def)
  ultimately show ?thesis
    using stream_reaches_queue [OF fresh_session_wf(1) _ fresh_session_wf(3) q(3), of "[hi_log]" fresh_shared "\<lambda>k. 1000"
        "[Binary (line_of hi_log)]"
        "[take 5 (encode (Binary (line_of hi_log))), drop 5 (encode (Binary (line_of hi_log)))]" 65536]
    by (simp add: q fresh_session_wf scalar_payloads_def ready_queue_facts Telemetry_init_def del: encode.simps)
qed

text \<open>
  C32. A refused log closes the session, but the loop goes on: whatever the stash holds, in whichever
  order, of logs the engine can take and of payloads the parser refuses, at least one, all the logs
  are stored and pushed, also those behind a refused payload, and the session is closed with the
  first reason. The queue has room for the logs, and with AVX2 the payloads are shorter than 64 bytes.
\<close>

theorem refused_log_does_not_stop_the_loop:
  assumes "session_wf s" and "scalar_payloads s (map payload_in xs)" and "\<not> is_closing s"
    and "deframe (unat (max_log_size s)) (stash (stash_buffer s)) = (map payload_in xs, r, None)"
    and "\<forall>x \<in> set xs. arrival_ok clock (unat (slab_size (slab_pool (assigned_queue c)))) x"
    and "refusals_in xs = e # rs" and "channel_ready (assigned_queue c)"
    and "length (entries (assigned_queue c)) + length (logs_in xs) \<le> capacity (assigned_queue c)"
  shows "\<exists>s' c' es. process_stash clock (s, c) = Done (s', c') \<and>
     is_closing s' \<and> messages s' = messages s @ [e] \<and>
     entries (assigned_queue c') = entries (assigned_queue c) @ es \<and> list_all2 describes es (logs_in xs)"
proof -
  obtain c' es where dl: "deliver_all clock (map payload_in xs) c = Done (e # rs, c')"
    and es: "entries (assigned_queue c') = entries (assigned_queue c) @ es" "list_all2 describes es (logs_in xs)"
    using deliver_arrivals [OF assms(7,8,5) refl] assms(6) by auto
  have "process_stash clock (s, c) =
      Done ((disconnect e s)\<lparr>stash_buffer := skip_to r (stash_buffer s)\<rparr>, c')"
    by (simp add: process_stash_spec [OF assms(1,2,4)] dl reasons_of_def close_with_first del: deliver_all.simps)
  then show ?thesis using es assms(3) by (simp add: disconnect_def)
qed

theorem refused_log_does_not_stop_the_loop_witness:
  "\<exists>s' c' es. process_stash (\<lambda>k. 1000) (busy_session, fresh_shared) = Done (s', c') \<and>
     is_closing s' \<and> messages s' = [''Malformed or Invalid Time''] \<and>
     entries (assigned_queue c') = entries ready_queue @ es \<and> list_all2 describes es [hi_log]"
proof -
  let ?xs = "[Inl ([65, 66, 67], ''Malformed or Invalid Time''), Inr hi_log] :: arrival list"
  have bad: "parse_header 1000 [65, 66, 67] = Reason ''Malformed or Invalid Time''"
    by (simp add: parse_header_def from_chars_def is_digit_def)
  have x: "line_of hi_log = log_line 998 3 7 [72, 105]" by (simp add: hi_log_def)
  have ok: "log_ok (\<lambda>k. 1000) (unat (slab_size (slab_pool ready_queue))) hi_log"
    by (simp add: ready_queue_facts hi_log_def validateTimestamp_def block_need_def)
  have b: "\<not> is_closing busy_session" "messages busy_session = []"
    by (simp_all add: busy_session_def fresh_session_def)
  show ?thesis
    using refused_log_does_not_stop_the_loop [OF busy_session_wf(1), of ?xs "[]" "\<lambda>k. 1000" fresh_shared
        "''Malformed or Invalid Time''" "[]"]
      busy_session_wf(2-4) deframe_two_lines bad x ok b
    by (simp add: fresh_shared_def ready_queue_facts scalar_payloads_def del: line_of.simps)
qed

text \<open>
  C34. A frame the length check allows can still be refused for its size: once fewer than 1024
  bytes of the ring are free and the frame is not complete, \<open>read_header\<close> disconnects, so a
  frame of up to \<open>max_log_size\<close> bytes may never be received.
\<close>

theorem legal_frame_refused:
  assumes "session_wf s" and "stash (stash_buffer s) = take j (encode (Binary p))" and "j < length (encode (Binary p))"
    and "wire_ok (unat (max_log_size s)) (Binary p)" and "unat (ring_size (stash_buffer s)) < j + 1024"
  shows "read_header clock (s, c) =
     Done ((disconnect ''The package exceeds the size limit.'' s, c), None)"
proof -
  have rw: "ring_wf (stash_buffer s)" and m: "unat (max_log_size s) < 2 ^ 32"
    using assms(1) by (simp_all add: session_wf_def)
  have "next_item (unat (max_log_size s)) (stash (stash_buffer s)) = Wait"
    using incomplete_frame_waits [OF m assms(4,3)] assms(2) by simp
  then have "session_scan s = Wait"
    using session_scan_spec [OF assms(1)] item_nat_cases(1) by metis
  then have ps: "process_stash clock (s, c) = Done (s, c)"
    by (simp add: process_stash.simps [of clock s c])
  have "length (stash (stash_buffer s)) = j" using assms(2,3) by simp
  then have "get_write_space (stash_buffer s) < 1024"
    using write_space_nat [OF rw] assms(5) by (simp add: word_less_nat_alt del: length_stash)
  then show ?thesis by (simp add: read_header_def Let_def ps)
qed

definition long_frame :: bytes where
  "long_frame = encode (Binary (replicate 65000 0))"

definition waiting_session :: Session where
  "waiting_session = fresh_session\<lparr>stash_buffer :=
     commit_write (word_of_nat (length (take 65000 long_frame)))
       (receive_bytes (take 65000 long_frame) fresh_ring)\<rparr>"

theorem legal_frame_refused_witness:
  "read_header (\<lambda>k. 1000) (waiting_session, fresh_shared) =
     Done ((disconnect ''The package exceeds the size limit.'' waiting_session, fresh_shared), None)"
proof -
  have len: "length long_frame = 65008" by (simp add: long_frame_def magic_bytes_def)
  have "length (take 65000 long_frame) \<le> unat (get_write_space fresh_ring)"
    using len by (simp add: write_space_nat [OF fresh_ring_wf(1)] fresh_ring_wf del: length_stash)
  from receive_stash [OF fresh_ring_wf(1) this]
  have "session_wf waiting_session" "\<not> simd_parser waiting_session"
    "stash (stash_buffer waiting_session) = take 65000 long_frame"
    "unat (max_log_size waiting_session) = 65504"
    "ring_size (stash_buffer waiting_session) = 65536"
    by (simp_all add: waiting_session_def session_wf_def fresh_session_def fresh_ring_wf
        commit_write_def receive_bytes_def Let_def)
  with legal_frame_refused [of waiting_session 65000 "replicate 65000 0" "\<lambda>k. 1000" fresh_shared] len
  show ?thesis unfolding long_frame_def [symmetric] by (simp add: long_frame_def del: encode.simps)
qed

text \<open>What closes a session: a disconnection by the reader, or a socket error.\<close>

datatype close_event = Ev_disconnect string | Ev_error string

fun apply_close :: "close_event \<Rightarrow> Session \<Rightarrow> Session" where
  "apply_close (Ev_disconnect reason) s = disconnect reason s"
| "apply_close (Ev_error ec) s = handle_error ec s"

fun event_action :: "close_event \<Rightarrow> posted \<times> string" where
  "event_action (Ev_disconnect reason) = (Cancel_shutdown_close, reason)"
| "event_action (Ev_error ec) = (Close, ec)"

lemma close_events_closed: "is_closing s \<Longrightarrow> fold apply_close evs s = s"
proof (induction evs)
  case (Cons e evs)
  then show ?case by (cases e) (simp_all add: disconnect_def handle_error_def)
qed simp

text \<open>
  C33. Closing happens once: whatever disconnections and socket errors reach a session, at most
  one action is posted and one message printed, those of the first.
\<close>

theorem session_closes_once:
  "(let s' = fold apply_close evs s in
     if is_closing s \<or> evs = [] then s' = s
     else is_closing s' \<and> posted_actions s' = posted_actions s @ [fst (event_action (hd evs))] \<and>
       messages s' = messages s @ [snd (event_action (hd evs))])"
proof (cases evs)
  case (Cons e es)
  then show ?thesis
    by (cases e)
      (simp_all add: close_events_closed Let_def disconnect_def handle_error_def)
qed simp

definition all_ok :: "portal_answers \<Rightarrow> bool" where
  "all_ok w \<longleftrightarrow> reserve_ok w \<and> split_ok w \<and> section_ok w \<and> mapA_ok w \<and> mapB_ok w"

lemma start_portal_fails: "\<not> all_ok w \<Longrightarrow> \<exists>cs e. start_portal w r = (cs, Inl e)"
  by (simp add: start_portal_def all_ok_def Let_def)

lemma power_of_two_size:
  assumes "2 ^ 20 \<le> n" and "n < 2 ^ 32"
  obtains k where "bit_floor_nat n = 2 ^ k" and "20 \<le> k" and "k < 32"
proof -
  obtain k where k: "bit_floor_nat n = 2 ^ k" using bit_floor_nat_pow2 [of n] assms(1) by auto
  have "2 ^ k < (2 :: nat) ^ 32" using bit_floor_nat_le [of n] assms(2) k by simp
  then have "k < 32" by (rule power_less_imp_less_exp [rotated]) simp
  have "(2 :: nat) ^ 19 < 2 ^ k" using bit_floor_nat_gt [of n] assms(1) k by simp
  then have "19 < k" by (rule power_less_imp_less_exp [rotated]) simp
  with that k \<open>k < 32\<close> show ?thesis by auto
qed

lemma ring_size_word:
  assumes "unat max_size < 4096" and "max_size \<noteq> 0"
  obtains k where "bit_floor_nat (unat max_size * 1048576) = 2 ^ k" and "20 \<le> k" and "k < 32"
    and "bit_floor (max_size * 1024 * 1024) = (2 ^ k :: size_t)"
proof -
  have "0 < unat max_size" using assms(2) by (simp add: unat_gt_0)
  then have lo: "2 ^ 20 \<le> unat max_size * 1048576" by simp
  have hi: "unat max_size * 1048576 < 2 ^ 32" using assms(1) by simp
  obtain k where k: "bit_floor_nat (unat max_size * 1048576) = 2 ^ k" "20 \<le> k" "k < 32"
    using power_of_two_size [OF lo hi] .
  have "unat (max_size * 1048576) = unat max_size * 1048576"
    using hi by (simp add: unat_word_ariths)
  then have "bit_floor (max_size * 1024 * 1024) = (2 ^ k :: size_t)"
    by (simp add: bit_floor_def k mult.assoc)
  with k that show ?thesis by blast
qed

text \<open>The ring before its portal is built, and after.\<close>

definition empty_ring :: "bool \<Rightarrow> size_t \<Rightarrow> MagicRingBuffer" where
  "empty_ring built n =
     \<lparr>ring_hMapFile = built, viewA = built, viewB = built, base_ptr = built, ring_size = n,
      ring_head = 0, ring_tail = 0, memory = replicate (unat n) 0\<rparr>"

lemma unat_ring_size: "k < 32 \<Longrightarrow> unat (2 ^ k :: size_t) = 2 ^ k"
  by (simp add: unat_exp_word)

lemma MagicRingBuffer_ctor_portal:
  assumes "16 \<le> k" and "k < 32"
  shows "MagicRingBuffer_ctor w (2 ^ k) = start_portal w (empty_ring False (2 ^ k))"
proof -
  have "(2 :: nat) ^ k = 2 ^ 16 * 2 ^ (k - 16)"
    using assms(1) by (subst power_add [symmetric]) simp
  then have "unat ((2 ^ k :: size_t) mod 65536) = 0"
    by (simp add: unat_mod unat_ring_size [OF assms(2)])
  then have "(2 ^ k :: size_t) mod 65536 = 0" by (simp only: unat_eq_0)
  moreover have "(2 ^ k :: size_t) \<noteq> 0"
    using unat_ring_size [OF assms(2)] by (metis power_not_zero unat_0 zero_neq_numeral)
  ultimately show ?thesis by (simp add: MagicRingBuffer_ctor_def empty_ring_def)
qed

lemma portal_built: "all_ok w \<Longrightarrow> \<exists>cs. start_portal w (empty_ring False n) = (cs, Inr (empty_ring True n))"
  by (simp add: start_portal_def all_ok_def Let_def empty_ring_def)

lemma empty_ring_wf:
  assumes "16 \<le> k" and "k < 32"
  shows "ring_wf (empty_ring b (2 ^ k))" and "stash (empty_ring b (2 ^ k)) = []"
    and "ring_size (empty_ring b (2 ^ k)) = 2 ^ k"
proof -
  have e: "get_bytes_available (empty_ring b (2 ^ k)) = 0"
    by (simp add: empty_ring_def get_bytes_available_def)
  show "ring_wf (empty_ring b (2 ^ k))"
    unfolding ring_wf_def e using assms by (intro conjI exI [of _ k]) (simp_all add: empty_ring_def)
  show "stash (empty_ring b (2 ^ k)) = []" unfolding stash_def e by simp
qed (simp add: empty_ring_def)

text \<open>What the constructor returns, when it does not end the program.\<close>

lemma session_ctor_fails:
  assumes "unat max_size < 4096" and "max_size = 0 \<or> \<not> all_ok w"
  shows "snd (NetworkSession_ctor w avx2 address max_size) = Terminates"
proof (cases "max_size = 0")
  case True
  then show ?thesis by (simp add: NetworkSession_ctor_def MagicRingBuffer_ctor_def)
next
  case False
  obtain k where k: "20 \<le> k" "k < 32" "bit_floor (max_size * 1024 * 1024) = (2 ^ k :: size_t)"
    using ring_size_word [OF assms(1) False] .
  obtain cs e where "start_portal w (empty_ring False (2 ^ k)) = (cs, Inl e)"
    using start_portal_fails assms(2) False by blast
  then show ?thesis
    using MagicRingBuffer_ctor_portal [of k w] k by (simp add: NetworkSession_ctor_def)
qed

lemma session_ctor_ok:
  assumes "unat max_size < 4096" and "max_size \<noteq> 0" and "all_ok w"
  obtains s where "snd (NetworkSession_ctor w avx2 address max_size) = Done s"
    and "session_wf s" and "stash (stash_buffer s) = []" and "\<not> is_closing s" and "simd_parser s = avx2"
    and "unat (ring_size (stash_buffer s)) = bit_floor_nat (unat max_size * 1048576)"
    and "unat (max_log_size s) + 32 = unat (ring_size (stash_buffer s))"
proof -
  obtain k where k: "bit_floor_nat (unat max_size * 1048576) = 2 ^ k" "20 \<le> k" "k < 32"
    "bit_floor (max_size * 1024 * 1024) = (2 ^ k :: size_t)"
    using ring_size_word [OF assms(1,2)] .
  have "2 ^ 20 \<le> (2 :: nat) ^ k" using k(2) by (intro power_increasing) simp_all
  then have sub: "unat (2 ^ k - 32 :: size_t) = 2 ^ k - 32" "32 \<le> (2 :: nat) ^ k"
    using unat_ring_size [OF k(3)] by (simp_all add: unat_sub word_le_nat_alt)
  have "(2 :: nat) ^ k \<le> 2 ^ 31" using k(3) by (intro power_increasing) simp_all
  with sub have lim: "unat (2 ^ k - 32 :: size_t) < 2 ^ 32 - 8" by simp
  define s where "s = \<lparr>stash_buffer = empty_ring True (2 ^ k), max_log_size = 2 ^ k - 32, is_closing = False,
      simd_parser = GetBestParser avx2, base_address = address, messages = [], posted_actions = []\<rparr>"
  have e: "ring_wf (empty_ring True (2 ^ k))" "stash (empty_ring True (2 ^ k)) = []"
    "ring_size (empty_ring True (2 ^ k)) = 2 ^ k"
    using empty_ring_wf k(2,3) by simp_all
  show ?thesis
  proof (rule that [of s])
    show "snd (NetworkSession_ctor w avx2 address max_size) = Done s"
      using MagicRingBuffer_ctor_portal [of k w] portal_built [OF assms(3), of "2 ^ k"] k(2-4)
      by (auto simp: NetworkSession_ctor_def s_def Let_def)
  qed (use e lim sub unat_ring_size [OF k(3)] k(1) in
      \<open>simp_all add: s_def session_wf_def GetBestParser_def\<close>)
qed

text \<open>
  C31. What the constructor builds: for a log size of 0, or when mapping the ring fails, the
  exception leaves a \<open>noexcept\<close> function and the program ends; otherwise the session is well
  formed, open and empty, its ring is the largest power of two not above the configured
  megabytes, and its limit is the ring's size less 32.
\<close>

theorem session_construction:
  assumes "unat max_size < 4096"
  shows "if max_size = 0 \<or> \<not> all_ok w
     then snd (NetworkSession_ctor w avx2 address max_size) = Terminates
     else \<exists>s. snd (NetworkSession_ctor w avx2 address max_size) = Done s \<and>
       session_wf s \<and> stash (stash_buffer s) = [] \<and> \<not> is_closing s \<and>
       unat (ring_size (stash_buffer s)) = bit_floor_nat (unat max_size * 1048576) \<and>
       unat (max_log_size s) + 32 = unat (ring_size (stash_buffer s))"
proof (cases "max_size = 0 \<or> \<not> all_ok w")
  case True
  then show ?thesis using session_ctor_fails [OF assms] by simp
next
  case False
  then have m: "max_size \<noteq> 0" "all_ok w" by simp_all
  from session_ctor_ok [OF assms m, of avx2 address] show ?thesis using False by (metis (no_types, lifting))
qed

theorem session_construction_witness:
  "\<exists>s. snd (NetworkSession_ctor \<lparr>reserve_ok = True, split_ok = True, section_ok = True, mapA_ok = True,
       mapB_ok = True\<rparr> False 0 1) = Done s \<and>
     session_wf s \<and> stash (stash_buffer s) = [] \<and> \<not> is_closing s \<and>
     unat (ring_size (stash_buffer s)) = bit_floor_nat 1048576 \<and>
     unat (max_log_size s) + 32 = unat (ring_size (stash_buffer s))"
  using session_construction [of 1 "\<lparr>reserve_ok = True, split_ok = True, section_ok = True,
      mapA_ok = True, mapB_ok = True\<rparr>" False 0]
  by (simp add: all_ok_def)

end
