(* ===== verification/Log_Server.thy ===== *)
theory Log_Server
  imports Session_Spec
begin

text \<open>
  \<open>Network::LogServer\<close> (\<open>engine/Network\<close>): the acceptor, the two worker contexts with one
  thread each, and the assignment of a queue to every connection. A queue and a context are
  named by their index; the sessions are listed in the order of their acceptance.
\<close>

section \<open>State\<close>

record connection =
  on_context :: nat
  on_queue :: nat
  open_socket :: bool

record LogServer =
  ptr_queue :: "nat list"
  context_count :: nat
  next_worker_index :: size_t
  srv_log_size :: size_t
  acceptor_open :: bool
  main_guard :: bool
  work_guards :: "nat list"
  network_pool :: nat
  pending_accept :: "nat option"
  connections :: "connection list"
  accept_errors :: "string list"

definition LogServer_ctor :: "size_t \<Rightarrow> LogServer" where
  "LogServer_ctor max_size =
     \<lparr>ptr_queue = [], context_count = 2, next_worker_index = 0, srv_log_size = max_size,
      acceptor_open = True, main_guard = True, work_guards = [0, 1], network_pool = 0,
      pending_accept = None, connections = [], accept_errors = []\<rparr>"

text \<open>
  The acceptor binds its port in the initialiser list of a \<open>noexcept\<close> constructor: a port in
  use ends the program.
\<close>

definition LogServer_construct :: "bool \<Rightarrow> size_t \<Rightarrow> LogServer outcome" where
  "LogServer_construct bind_ok max_size =
     (if bind_ok then Done (LogServer_ctor max_size) else Terminates)"

section \<open>Accepting\<close>

text \<open>\<open>next_worker_index++ % context_vec.size ()\<close>, and an accept on a socket of that context.\<close>

definition start_accept :: "LogServer \<Rightarrow> LogServer" where
  "start_accept s =
     (let worker_index = unat (next_worker_index s mod word_of_nat (context_count s))
      in s\<lparr>next_worker_index := next_worker_index s + 1, pending_accept := Some worker_index\<rparr>)"

text \<open>
  The completion handler, for the pending accept: a connection takes \<open>ptr_queue[worker_index]\<close>
  (undefined past the end of the vector), an error is printed; both accept again.
\<close>

definition on_accept :: "string option \<Rightarrow> LogServer \<Rightarrow> LogServer outcome" where
  "on_accept ec s =
     (case pending_accept s of None \<Rightarrow> Done s
      | Some worker_index \<Rightarrow>
          (case ec of
             None \<Rightarrow>
               if length (ptr_queue s) \<le> worker_index then Undef
               else Done (start_accept (s\<lparr>connections := connections s @
                      [\<lparr>on_context = worker_index, on_queue = ptr_queue s ! worker_index,
                        open_socket = True\<rparr>]\<rparr>))
           | Some msg \<Rightarrow> Done (start_accept (s\<lparr>accept_errors := accept_errors s @ [msg]\<rparr>))))"

text \<open>
  \<open>start\<close> takes the queues, adds a second work guard per context, starts one thread per context
  and the first accept; the caller's thread then runs the acceptor's context.
\<close>

definition start :: "nat list \<Rightarrow> LogServer \<Rightarrow> LogServer" where
  "start ptr s =
     start_accept (s\<lparr>ptr_queue := ptr, work_guards := work_guards s @ [0..<context_count s],
                     network_pool := context_count s\<rparr>)"

text \<open>
  A worker thread's \<open>run ()\<close> goes on while its context has work: a guard, or a connection with
  an operation outstanding. \<open>stop\<close> resets the guards and joins the threads; the result lists
  the contexts whose thread it has to wait for.
\<close>

definition context_busy :: "LogServer \<Rightarrow> nat \<Rightarrow> bool" where
  "context_busy s i \<longleftrightarrow>
     i \<in> set (work_guards s) \<or> (\<exists>x \<in> set (connections s). on_context x = i \<and> open_socket x)"

definition stop :: "LogServer \<Rightarrow> LogServer \<times> nat list" where
  "stop s =
     (let s1 = s\<lparr>acceptor_open := False, main_guard := False, work_guards := [],
                 pending_accept := None\<rparr>
      in (s1, filter (context_busy s1) [0..<network_pool s1]))"

section \<open>A run of the acceptor\<close>

fun accept_all :: "string option list \<Rightarrow> LogServer \<Rightarrow> LogServer outcome" where
  "accept_all [] s = Done s"
| "accept_all (ec # ecs) s = bind_out (on_accept ec s) (accept_all ecs)"

text \<open>The connections a list of accept results leads to, from index \<open>i\<close> on.\<close>

fun assigned :: "nat list \<Rightarrow> nat \<Rightarrow> string option list \<Rightarrow> connection list" where
  "assigned qs i [] = []"
| "assigned qs i (None # ecs) =
     \<lparr>on_context = i mod 2, on_queue = qs ! (i mod 2), open_socket = True\<rparr> # assigned qs (i + 1) ecs"
| "assigned qs i (Some m # ecs) = assigned qs (i + 1) ecs"

text \<open>The server between two accepts: the pending accept is on the context before the counter.\<close>

definition accepting :: "nat \<Rightarrow> LogServer \<Rightarrow> bool" where
  "accepting i s \<longleftrightarrow>
     context_count s = 2 \<and> next_worker_index s = word_of_nat i + 1 \<and> pending_accept s = Some (i mod 2)"

lemma unat_mod_two: "unat (word_of_nat i mod (2 :: size_t)) = i mod 2"
proof -
  have "unat (word_of_nat i mod (2 :: size_t)) = (i mod 2 ^ 64) mod 2"
    by (simp add: unat_mod unat_of_nat)
  also have "\<dots> = i mod 2" by (intro mod_mod_cancel) simp
  finally show ?thesis .
qed

lemma accepting_next:
  "accepting i s \<Longrightarrow> accepting (Suc i) (start_accept (s\<lparr>connections := cs\<rparr>))"
  "accepting i s \<Longrightarrow> accepting (Suc i) (start_accept (s\<lparr>accept_errors := es\<rparr>))"
  using unat_mod_two [of "Suc i"]
  by (simp_all add: accepting_def start_accept_def Let_def add.commute)

lemma accepting_start: "accepting 0 (start qs (LogServer_ctor n))"
  by (simp add: accepting_def start_def start_accept_def LogServer_ctor_def)

lemma start_accept_frame [simp]:
  "ptr_queue (start_accept s) = ptr_queue s" "connections (start_accept s) = connections s"
  by (simp_all add: start_accept_def Let_def)

lemma on_accept_two_queues:
  assumes "accepting i s" and "2 \<le> length (ptr_queue s)"
  obtains s' where "on_accept ec s = Done s'" and "accepting (Suc i) s'"
    and "ptr_queue s' = ptr_queue s"
    and "connections s' = connections s @ assigned (ptr_queue s) i [ec]"
proof -
  have p: "pending_accept s = Some (i mod 2)" using assms(1) by (simp add: accepting_def)
  have "i mod 2 < 2" by simp
  then have l: "\<not> length (ptr_queue s) \<le> i mod 2" using assms(2) by linarith
  show ?thesis
    using that p l accepting_next [OF assms(1)] by (cases ec) (simp_all add: on_accept_def)
qed

lemma accept_all_two_queues:
  "accepting i s \<Longrightarrow> 2 \<le> length (ptr_queue s) \<Longrightarrow>
   \<exists>s'. accept_all ecs s = Done s' \<and> accepting (i + length ecs) s' \<and>
     connections s' = connections s @ assigned (ptr_queue s) i ecs"
proof (induction ecs arbitrary: i s)
  case (Cons ec ecs)
  obtain s1 where s1: "on_accept ec s = Done s1" "accepting (Suc i) s1" "ptr_queue s1 = ptr_queue s"
    "connections s1 = connections s @ assigned (ptr_queue s) i [ec]"
    using on_accept_two_queues [OF Cons.prems, of ec] .
  from Cons.IH [OF s1(2)] s1(3) Cons.prems(2) obtain s' where
    "accept_all ecs s1 = Done s'" "accepting (Suc i + length ecs) s'"
    "connections s' = connections s1 @ assigned (ptr_queue s) (Suc i) ecs" by auto
  with s1 show ?case by (cases ec) simp_all
qed simp

lemma assigned_same_thread:
  "x \<in> set (assigned qs i ecs) \<Longrightarrow> on_queue x = qs ! on_context x \<and> on_context x < 2 \<and> open_socket x"
proof (induction ecs arbitrary: i)
  case (Cons ec ecs)
  then show ?case by (cases ec) auto
qed simp

section \<open>Properties\<close>

text \<open>
  C28. With two queues or more, accepting never fails, and the queue of a connection decides
  its context: two sessions that push to the same queue run on the same thread, which is what
  the single-producer queue needs. Only the first two queues are ever used.
\<close>

theorem one_producer_per_queue:
  assumes "2 \<le> length qs" and "distinct qs"
  shows "\<exists>s. accept_all ecs (start qs (LogServer_ctor n)) = Done s \<and>
     length (connections s) = count_list ecs None \<and>
     (\<forall>x \<in> set (connections s). \<forall>y \<in> set (connections s).
        on_queue x = on_queue y \<longleftrightarrow> on_context x = on_context y) \<and>
     on_queue ` set (connections s) \<subseteq> {qs ! 0, qs ! 1}"
proof -
  let ?s = "start qs (LogServer_ctor n)"
  have q: "ptr_queue ?s = qs" "connections ?s = []"
    by (simp_all add: start_def LogServer_ctor_def)
  then obtain s where s: "accept_all ecs ?s = Done s" "connections s = assigned qs 0 ecs"
    using accept_all_two_queues [OF accepting_start, of qs n ecs] assms(1) by auto
  note st = assigned_same_thread [of _ qs 0 ecs]
  have "length (assigned qs i ecs) = count_list ecs None" for i
  proof (induction ecs arbitrary: i)
    case (Cons ec ecs)
    then show ?case by (cases ec) simp_all
  qed simp
  moreover have "on_queue x = on_queue y \<longleftrightarrow> on_context x = on_context y"
    if "x \<in> set (assigned qs 0 ecs)" "y \<in> set (assigned qs 0 ecs)" for x y
    using st [OF that(1)] st [OF that(2)] assms by (auto simp: nth_eq_iff_index_eq)
  moreover have "on_queue x \<in> {qs ! 0, qs ! 1}" if "x \<in> set (assigned qs 0 ecs)" for x
    using st [OF that] by (auto simp: less_2_cases_iff)
  ultimately show ?thesis using s by auto
qed

theorem one_producer_per_queue_witness:
  "\<exists>s. accept_all [None, Some ''reset'', None, None] (start [0, 1, 2] (LogServer_ctor 1)) = Done s \<and>
     length (connections s) = 3 \<and> on_queue ` set (connections s) \<subseteq> {0, 1}"
  using one_producer_per_queue [of "[0, 1, 2]" "[None, Some ''reset'', None, None]" 1] by auto

text \<open>One queue: the accepts alternate between two contexts, and the second has no queue.\<close>

lemma accept_all_one_queue:
  "accepting i s \<Longrightarrow> ptr_queue s = [q] \<Longrightarrow>
   if \<exists>k < length ecs. odd (i + k) \<and> ecs ! k = None then accept_all ecs s = Undef
   else \<exists>s'. accept_all ecs s = Done s' \<and>
     connections s' = connections s @
       replicate (count_list ecs None) \<lparr>on_context = 0, on_queue = q, open_socket = True\<rparr>"
proof (induction ecs arbitrary: i s)
  case (Cons ec ecs)
  have p: "pending_accept s = Some (i mod 2)" using Cons.prems(1) by (simp add: accepting_def)
  have split: "(\<exists>k < length (ec # ecs). odd (i + k) \<and> (ec # ecs) ! k = None) \<longleftrightarrow>
      odd i \<and> ec = None \<or> (\<exists>k < length ecs. odd (Suc i + k) \<and> ecs ! k = None)"
    by (simp add: Ex_less_Suc2)
  note nx = accepting_next [OF Cons.prems(1)]
  let ?P = "\<exists>k < length ecs. odd (Suc i + k) \<and> ecs ! k = None"
    and ?c = "\<lparr>on_context = 0, on_queue = q, open_socket = True\<rparr>"
  have goes_on: ?case
    if acc: "accept_all (ec # ecs) s = accept_all ecs s1" and no: "\<not> (odd i \<and> ec = None)"
      and s1: "accepting (Suc i) s1" "ptr_queue s1 = [q]"
      and new: "connections s1 @ replicate (count_list ecs None) ?c =
        connections s @ replicate (count_list (ec # ecs) None) ?c" for s1
  proof (cases ?P)
    case True
    then have "accept_all ecs s1 = Undef" using Cons.IH [OF s1] by (simp only: if_True)
    then show ?thesis unfolding split using True acc by (simp only: if_True HOL.simp_thms)
  next
    case False
    then have "\<exists>s'. accept_all ecs s1 = Done s' \<and>
        connections s' = connections s1 @ replicate (count_list ecs None) ?c"
      using Cons.IH [OF s1] by (simp only: if_False)
    then show ?thesis unfolding split using False no acc new by (simp only: if_False HOL.simp_thms)
  qed
  show ?case
  proof (cases ec)
    case None
    show ?thesis
    proof (cases "odd i")
      case True
      then have "accept_all (ec # ecs) s = Undef"
        using p None Cons.prems(2) by (simp add: on_accept_def odd_iff_mod_2_eq_one)
      then show ?thesis unfolding split using True None by simp
    next
      case False
      define s1 where "s1 = start_accept (s\<lparr>connections := connections s @
        [\<lparr>on_context = 0, on_queue = q, open_socket = True\<rparr>]\<rparr>)"
      have "accept_all (ec # ecs) s = accept_all ecs s1"
        using p None False Cons.prems(2) by (simp add: on_accept_def s1_def even_iff_mod_2_eq_zero)
      moreover have "connections s1 = connections s @ [\<lparr>on_context = 0, on_queue = q, open_socket = True\<rparr>]"
        by (simp add: s1_def)
      ultimately show ?thesis
        using goes_on [of s1] nx(1) Cons.prems(2) False None by (simp add: s1_def)
    qed
  next
    case (Some msg)
    define s1 where "s1 = start_accept (s\<lparr>accept_errors := accept_errors s @ [msg]\<rparr>)"
    have "accept_all (ec # ecs) s = accept_all ecs s1" "connections s1 = connections s"
      using p Some by (simp_all add: on_accept_def s1_def)
    then show ?thesis
      using goes_on [of s1] nx(2) Cons.prems(2) Some by (simp add: s1_def)
  qed
qed simp

text \<open>
  C29. With one worker thread, the default, there is one queue but there are two contexts, and the
  accepts take them in turn, failed ones included. Over any sequence of accept results: as soon as a
  connection arrives on an accept for the second context the vector of queues is read past its end,
  and in particular when two connections arrive in a row; only sequences in which
  every second accept fails are defined, and all their connections use the one queue.
\<close>

theorem second_connection_is_undefined:
  "if \<exists>k < length ecs. odd k \<and> ecs ! k = None
   then accept_all ecs (start [q] (LogServer_ctor n)) = Undef
   else \<exists>s. accept_all ecs (start [q] (LogServer_ctor n)) = Done s \<and>
     connections s = replicate (count_list ecs None) \<lparr>on_context = 0, on_queue = q, open_socket = True\<rparr>"
proof -
  let ?s = "start [q] (LogServer_ctor n)"
  have q: "ptr_queue ?s = [q]" "connections ?s = []" by (simp_all add: start_def LogServer_ctor_def)
  show ?thesis
    using accept_all_one_queue [OF accepting_start q(1), of ecs] unfolding q(2) add_0 append_Nil .
qed

theorem second_connection_is_undefined_witness:
  "accept_all [None, None] (start [5] (LogServer_ctor 1)) = Undef \<and>
   (\<exists>s. accept_all [None, Some ''reset'', None] (start [5] (LogServer_ctor 1)) = Done s \<and>
      length (connections s) = 2)"
proof -
  have odd: "\<exists>k < length [None, None :: string option]. odd k \<and> [None, None :: string option] ! k = None"
    by (intro exI [of _ 1]) simp
  have even: "\<not> (\<exists>k < length [None, Some ''reset'', None]. odd k \<and> [None, Some ''reset'', None] ! k = None)"
    by (auto simp: less_Suc_eq)
  show ?thesis
    using second_connection_is_undefined [of "[None, None]" 5 1] odd
      second_connection_is_undefined [of "[None, Some ''reset'', None]" 5 1] even
    by (simp only: if_True if_False) auto
qed

text \<open>
  \<open>stop\<close> joins the worker threads without stopping their contexts: it waits for every
  context that still has an open connection, and for no other.
\<close>

theorem stop_waits_for_clients:
  "i \<in> set (snd (stop s)) \<longleftrightarrow>
     i < network_pool s \<and> (\<exists>x \<in> set (connections s). on_context x = i \<and> open_socket x)"
  by (auto simp: stop_def context_busy_def Let_def)

end
