(* ===== verification/Thread_Manager.thy ===== *)
theory Thread_Manager
  imports Log_Server
begin

text \<open>
  \<open>ThreadManager::ThreadManager\<close> (\<open>engine/ThreadManager\<close>): the configuration's clamping, the
  queues, and the consumer threads. A consumer is a state machine over its queue; it runs
  against a producer and against the thread that stops it.
\<close>

section \<open>Configuration and queues\<close>

definition clamp_config :: "MainConfig \<Rightarrow> MainConfig" where
  "clamp_config cfg =
     (let c1 = (if thread_num cfg = 0 then cfg\<lparr>thread_num := 1\<rparr> else cfg);
          c2 = (if usable_ram c1 < 16 then c1\<lparr>usable_ram := 16\<rparr> else c1)
      in c2\<lparr>usable_ram := bit_floor (usable_ram c2)\<rparr>)"

text \<open>
  The queues \<open>start_threads\<close> creates: one per thread, all with the whole configuration, queue
  \<open>i\<close> with channel \<open>i\<close>. The system's answers are given per channel.
\<close>

definition make_queues ::
  "size_t \<Rightarrow> (nat \<Rightarrow> u64) \<Rightarrow> (nat \<Rightarrow> bool) \<Rightarrow> SharedMemory \<Rightarrow> MainConfig \<Rightarrow> LogQueue list" where
  "make_queues uninit handles mapped mem0 cfg =
     map (\<lambda>i. snd (LogQueue_ctor uninit (handles i) (mapped i) mem0 cfg (word_of_nat i)))
       [0..<unat (thread_num cfg)]"

text \<open>
  \<open>start_threads\<close>: the clock is set, the queues are made, the server is started on them. The
  call does not return while the acceptor's context runs.
\<close>

record Manager =
  all_queues :: "LogQueue list"
  is_on :: bool
  clock :: Time
  server :: LogServer

definition start_threads ::
  "size_t \<Rightarrow> (nat \<Rightarrow> u64) \<Rightarrow> (nat \<Rightarrow> bool) \<Rightarrow> SharedMemory \<Rightarrow> int \<Rightarrow> LogServer \<Rightarrow> MainConfig \<Rightarrow> Manager" where
  "start_threads uninit handles mapped mem0 seconds srv cfg =
     (let qs = make_queues uninit handles mapped mem0 cfg
      in \<lparr>all_queues = qs, is_on = True, clock = update_time seconds Time_init,
          server = start [0..<length qs] srv\<rparr>)"

definition ThreadManager_ctor ::
  "size_t \<Rightarrow> (nat \<Rightarrow> u64) \<Rightarrow> (nat \<Rightarrow> bool) \<Rightarrow> SharedMemory \<Rightarrow> int \<Rightarrow> LogServer \<Rightarrow> MainConfig \<Rightarrow> Manager" where
  "ThreadManager_ctor uninit handles mapped mem0 seconds srv cfg =
     start_threads uninit handles mapped mem0 seconds srv (clamp_config cfg)"

text \<open>\<open>stop_threads\<close> up to the joins: stop the server, finish every queue, clear the flag.\<close>

definition stop_threads :: "Manager \<Rightarrow> Manager \<times> nat list" where
  "stop_threads m =
     (let (srv, waits) = stop (server m)
      in (m\<lparr>server := srv, all_queues := map set_finished (all_queues m), is_on := False\<rparr>, waits))"

section \<open>The consumer thread\<close>

text \<open>
  The places of the thread function between two accesses to the queue: the loop's first
  \<open>pop\<close>; the test of \<open>func_is_running\<close> after it failed; the second \<open>pop\<close>, with the head just
  loaded; in \<open>head.wait\<close>, about to compare the head; blocked there; the final drain loop; returned.
\<close>

datatype wpc = At_pop | At_test | At_second_pop size_t | At_wait size_t | Blocked size_t | Draining | Returned

record Consumer =
  pc :: wpc
  spincounter :: nat
  processed :: "LogEntry list"

definition consumer_init :: Consumer where
  "consumer_init = \<lparr>pc = At_pop, spincounter = 0, processed = []\<rparr>"

text \<open>
  One step of the thread; \<open>None\<close> when it cannot move (returned, or blocked and not notified). An
  entry popped by the second \<open>pop\<close> is consumed like the others. \<open>head.wait(h)\<close> returns when the head is
  not \<open>h\<close>, and otherwise blocks, in one atomic step; a thread that is blocked goes on only when
  \<open>notify_one\<close> released it, and then compares again.
\<close>

definition take_entry ::
  "LogEntry option \<Rightarrow> wpc \<Rightarrow> wpc \<Rightarrow> Consumer \<Rightarrow> Consumer" where
  "take_entry e there none c =
     (case e of Some x \<Rightarrow> c\<lparr>pc := there, processed := processed c @ [x]\<rparr>
      | None \<Rightarrow> c\<lparr>pc := none\<rparr>)"

definition consumer_step ::
  "Consumer \<times> LogQueue \<times> Telemetry \<Rightarrow> (Consumer \<times> LogQueue \<times> Telemetry) outcome option" where
  "consumer_step = (\<lambda>(c, q, t).
     (case pc c of
        At_pop \<Rightarrow> Some (bind_out (pop q t) (\<lambda>(e, q1, t1). Done (take_entry e At_pop At_test c, q1, t1)))
      | At_test \<Rightarrow>
          Some (Done
            (if \<not> func_is_running q then (c\<lparr>pc := Draining\<rparr>, notify_head q, t)
             else if spincounter c < 100 then (c\<lparr>pc := At_pop, spincounter := spincounter c + 1\<rparr>, q, t)
             else if spincounter c < 500 then (c\<lparr>pc := At_pop, spincounter := spincounter c + 1\<rparr>, q, t)
             else (c\<lparr>pc := At_second_pop (head q)\<rparr>, q, t)))
      | At_second_pop h \<Rightarrow>
          Some (bind_out (pop q t) (\<lambda>(e, q1, t1). Done (take_entry e At_pop (At_wait h) c, q1, t1)))
      | At_wait h \<Rightarrow>
          Some (Done
            (if head q = h then (c\<lparr>pc := Blocked h\<rparr>, q\<lparr>head_waiter := True\<rparr>, t)
             else (c\<lparr>pc := At_pop, spincounter := 0\<rparr>, q, t)))
      | Blocked h \<Rightarrow> if head_waiter q then None else Some (Done (c\<lparr>pc := At_wait h\<rparr>, q, t))
      | Draining \<Rightarrow>
          Some (bind_out (pop q t) (\<lambda>(e, q1, t1). Done (take_entry e Draining Returned c, q1, t1)))
      | Returned \<Rightarrow> None))"

text \<open>
  The consumer with its environment: the producer pushes, the stopping thread finishes the
  queue, and a blocked thread may be released spuriously, as the standard allows. The last
  component lists the entries that were appended.
\<close>

type_synonym world = "Consumer \<times> LogQueue \<times> Telemetry \<times> LogEntry list"

inductive wstep :: "world \<Rightarrow> world \<Rightarrow> bool" where
  consume: "consumer_step (c, q, t) = Some (Done (c', q', t')) \<Longrightarrow> wstep (c, q, t, acc) (c', q', t', acc)"
| produce: "push e q t = Done (q', t') \<Longrightarrow>
    wstep (c, q, t, acc) (c, q', t', if t' = t then acc else acc @ [e])"
| finish: "wstep (c, q, t, acc) (c, set_finished q, t, acc)"
| spurious: "wstep (c, q, t, acc) (c, notify_head q, t, acc)"

inductive_cases wstep_elim: "wstep (c, q, t, acc) y"

abbreviation wsteps :: "world \<Rightarrow> world \<Rightarrow> bool" where
  "wsteps \<equiv> wstep\<^sup>*\<^sup>*"

section \<open>Order and wake-ups\<close>

text \<open>
  With the \<open>DropAll\<close> profile: what was processed followed by what is queued is what was
  accepted, while the queue runs the head a consumer waits on is its tail, and a consumer that is
  blocked and has not been notified has an empty queue.
\<close>

fun pc_ok :: "wpc \<Rightarrow> LogQueue \<Rightarrow> bool" where
  "pc_ok (At_second_pop h) q \<longleftrightarrow> (is_running q \<longrightarrow> entries q = [] \<longrightarrow> head q = h)"
| "pc_ok (At_wait h) q \<longleftrightarrow> (is_running q \<longrightarrow> tail q = h)"
| "pc_ok (Blocked h) q \<longleftrightarrow> (is_running q \<longrightarrow> tail q = h \<and> (head_waiter q \<longrightarrow> entries q = []))"
| "pc_ok Draining q \<longleftrightarrow> \<not> is_running q"
| "pc_ok Returned q \<longleftrightarrow> \<not> is_running q"
| "pc_ok _ q \<longleftrightarrow> True"

definition winv :: "world \<Rightarrow> bool" where
  "winv = (\<lambda>(c, q, t, acc).
     queue_wf q \<and> log_array q \<noteq> None \<and> overflow q = DropAll \<and>
     acc = processed c @ entries q \<and> pc_ok (pc c) q)"

lemma pop_result:
  assumes "queue_wf q" and "pop q t = Done (e, q', t')"
  shows "e = None \<and> q' = q \<and> t' = t \<and> (\<not> is_running q \<or> entries q = []) \<or>
     (\<exists>x. e = Some x \<and> is_running q \<and> is_running q' \<and> entries q = x # entries q' \<and> queue_wf q' \<and>
        log_array q' = log_array q \<and> overflow q' = overflow q \<and> head q' = head q)"
proof (cases "is_running q \<and> entries q \<noteq> []")
  case True
  then have r: "is_running q" "entries q \<noteq> []" by simp_all
  obtain p where "pop q t = Done (Some (hd (entries q)), p, RegisterEliminated t)"
    "entries p = tl (entries q)" "queue_wf p" "head p = head q" "is_running p"
    "overflow p = overflow q" "log_array p = log_array q"
    using pop_spec [OF assms(1) r, of t] by metis
  with assms(2) r show ?thesis
    by (intro disjI2 exI [of _ "hd (entries q)"]) (auto simp: hd_Cons_tl)
next
  case False
  have "pop q t = Done (None, q, t)"
    using False entries_empty_iff [OF assms(1)] by (auto simp: pop_stopped pop_empty_queue)
  with assms(2) False show ?thesis by auto
qed

lemma finished_facts [simp]:
  "queue_wf (set_finished q) = queue_wf q" "entries (set_finished q) = entries q"
  "log_array (set_finished q) = log_array q" "overflow (set_finished q) = overflow q"
  "head (set_finished q) = head q" "tail (set_finished q) = tail q" "\<not> is_running (set_finished q)"
  "head_waiter (set_finished q) = head_waiter q"
  by (simp_all add: set_finished_def queue_wf_def ring_ok_def entries_def split: option.split)

lemma RegisterPushed_neq [simp]: "RegisterPushed t \<noteq> t"
proof
  assume "RegisterPushed t = t"
  then have "pushed_logs t + 1 = pushed_logs t" by (metis Register_frame(2))
  then show False by simp
qed

lemma push_result:
  assumes "queue_wf q" and "log_array q \<noteq> None" and "overflow q = DropAll"
    and "push e q t = Done (q', t')"
  shows "q' = q \<and> t' = t \<or>
     is_running q \<and> is_running q' \<and> t' \<noteq> t \<and> entries q' = entries q @ [e] \<and> queue_wf q' \<and>
     log_array q' \<noteq> None \<and> overflow q' = DropAll \<and> tail q' = tail q \<and> \<not> head_waiter q'"
proof (cases "is_running q")
  case False
  with assms(4) show ?thesis by (simp add: push_stopped)
next
  case True
  note fr = push_frame [OF assms(1,4)] and en = entries_push [OF assms(1,2) True assms(4)]
  have "queue_wf q'" using push_returns [OF assms(1), of e t] assms(4) by auto
  moreover have "q' = q \<and> t' = t" if "full q"
    using that assms(3,4) by (simp add: push_cases [OF assms(1,2) True])
  moreover have "\<not> head_waiter q'" if "entries q' \<noteq> entries q"
    using that push_waiter [OF assms(4)] by blast
  ultimately show ?thesis using fr en assms(2,3) True by (cases "full q") simp_all
qed

lemma winv_step: "wstep x y \<Longrightarrow> winv x \<Longrightarrow> winv y"
proof (induction rule: wstep.induct)
  case (consume c q t c' q' t' acc)
  have wf: "queue_wf q" and ok: "pc_ok (pc c) q" using consume.prems by (simp_all add: winv_def)
  have ht: "entries q = [] \<longleftrightarrow> head q = tail q" by (rule entries_empty_iff [OF wf])
  show ?case
  proof (cases "pc c")
    case At_pop
    with consume.hyps obtain e where e: "pop q t = Done (e, q', t')" "c' = take_entry e At_pop At_test c"
      by (auto simp: consumer_step_def bind_out_Done_iff)
    from pop_result [OF wf e(1)] consume.prems e(2) show ?thesis
      by (auto simp: winv_def take_entry_def)
  next
    case (At_second_pop h)
    with consume.hyps obtain e where e: "pop q t = Done (e, q', t')" "c' = take_entry e At_pop (At_wait h) c"
      by (auto simp: consumer_step_def bind_out_Done_iff)
    from pop_result [OF wf e(1)] consume.prems e(2) ok At_second_pop ht show ?thesis
      by (auto simp: winv_def take_entry_def)
  next
    case (At_wait h)
    have "head q = h \<Longrightarrow> is_running q \<Longrightarrow> entries q = []" using ok ht At_wait by simp
    then show ?thesis
      using consume At_wait ok by (cases "head q = h") (auto simp: consumer_step_def winv_def)
  next
    case Draining
    with consume.hyps obtain e where e: "pop q t = Done (e, q', t')" "c' = take_entry e Draining Returned c"
      by (auto simp: consumer_step_def bind_out_Done_iff)
    from pop_result [OF wf e(1)] consume.prems e(2) ok Draining show ?thesis
      by (auto simp: winv_def take_entry_def)
  qed (use consume in \<open>auto simp: consumer_step_def winv_def func_is_running_def split: if_splits\<close>)
next
  case (produce e q t q' t' c acc)
  then have "queue_wf q" "log_array q \<noteq> None" "overflow q = DropAll" by (simp_all add: winv_def)
  from push_result [OF this produce.hyps] produce.prems show ?case
    by (cases "pc c") (auto simp: winv_def)
next
  case (finish c q t acc)
  then show ?case by (cases "pc c") (auto simp: winv_def)
next
  case (spurious c q t acc)
  then show ?case by (cases "pc c") (auto simp: winv_def)
qed

lemma winv_steps: "wsteps x y \<Longrightarrow> winv x \<Longrightarrow> winv y"
  by (induction rule: rtranclp_induct) (auto intro: winv_step)

text \<open>A consumer can always move while the queue runs and holds something.\<close>

lemma winv_awake:
  assumes "winv (c, q, t, acc)" and "is_running q" and "entries q \<noteq> []"
  shows "consumer_step (c, q, t) \<noteq> None"
proof -
  have "head q \<noteq> tail q"
    using assms entries_empty_iff [of q] by (simp add: winv_def)
  with assms show ?thesis
    by (cases "pc c") (auto simp: winv_def consumer_step_def)
qed

section \<open>Stopping\<close>

text \<open>Once the queue is finished, a thread that waits for the head to change waits for ever.\<close>

definition waits_on :: "size_t \<Rightarrow> wpc \<Rightarrow> bool" where
  "waits_on h p \<longleftrightarrow> p = At_wait h \<or> p = Blocked h"

lemma waiting_stays:
  assumes "wsteps x y" and "x = (c, q, t, acc)" and "waits_on (head q) (pc c)" and "\<not> is_running q"
  shows "\<exists>c' q' t' acc'. y = (c', q', t', acc') \<and> waits_on (head q) (pc c') \<and> head q' = head q \<and> \<not> is_running q'"
  using assms(1)
proof (induction rule: rtranclp_induct)
  case base
  with assms show ?case by simp
next
  case (step y z)
  then obtain c' q' t' acc' where y: "y = (c', q', t', acc')" "waits_on (head q) (pc c')" "head q' = head q"
    "\<not> is_running q'" by auto
  from step.hyps(2) [unfolded y(1)] show ?case
    by (cases rule: wstep_elim) (use y in \<open>auto simp: consumer_step_def push_stopped waits_on_def split: if_splits\<close>)
qed

text \<open>An idle consumer spins 500 times and parks.\<close>

lemma idle_pop: "queue_wf q \<Longrightarrow> entries q = [] \<Longrightarrow> pop q t = Done (None, q, t)"
  using entries_empty_iff by (simp add: pop_empty_queue)

lemma idle_test:
  assumes "queue_wf q" and "entries q = []" and "pc c = At_pop"
  shows "wsteps (c, q, t, acc) (c\<lparr>pc := At_test\<rparr>, q, t, acc)"
  by (rule r_into_rtranclp, rule wstep.consume)
    (simp add: consumer_step_def assms idle_pop take_entry_def)

lemma idle_spin:
  assumes q: "queue_wf q" "entries q = []" "is_running q"
  shows "n \<le> 500 \<Longrightarrow> wsteps (consumer_init, q, t, acc) (consumer_init\<lparr>spincounter := n\<rparr>, q, t, acc)"
proof (induction n)
  case 0
  have "consumer_init\<lparr>spincounter := 0\<rparr> = consumer_init" by (simp add: consumer_init_def)
  then show ?case by simp
next
  case (Suc n)
  let ?c = "consumer_init\<lparr>spincounter := n\<rparr>"
  have "wsteps (?c, q, t, acc) (?c\<lparr>pc := At_test\<rparr>, q, t, acc)"
    using q by (intro idle_test) (simp_all add: consumer_init_def)
  moreover have "wstep (?c\<lparr>pc := At_test\<rparr>, q, t, acc) (consumer_init\<lparr>spincounter := Suc n\<rparr>, q, t, acc)"
    using Suc.prems q(3)
    by (intro wstep.consume) (simp add: consumer_step_def func_is_running_def consumer_init_def)
  ultimately show ?case using Suc by (metis (no_types, lifting) Suc_leD rtranclp.rtrancl_into_rtrancl rtranclp_trans)
qed

lemma idle_parks:
  assumes q: "queue_wf q" "entries q = []" "is_running q"
  shows "wsteps (consumer_init, q, t, acc)
     (consumer_init\<lparr>spincounter := 500, pc := Blocked (head q)\<rparr>, q\<lparr>head_waiter := True\<rparr>, t, acc)"
proof -
  let ?c = "consumer_init\<lparr>spincounter := 500\<rparr>"
  have "wsteps (?c, q, t, acc) (?c\<lparr>pc := At_test\<rparr>, q, t, acc)"
    using q by (intro idle_test) (simp_all add: consumer_init_def)
  moreover have "wstep (?c\<lparr>pc := At_test\<rparr>, q, t, acc) (?c\<lparr>pc := At_second_pop (head q)\<rparr>, q, t, acc)"
    using q(3) by (intro wstep.consume) (simp add: consumer_step_def func_is_running_def consumer_init_def)
  moreover have "wstep (?c\<lparr>pc := At_second_pop (head q)\<rparr>, q, t, acc) (?c\<lparr>pc := At_wait (head q)\<rparr>, q, t, acc)"
    using q by (intro wstep.consume) (simp add: consumer_step_def idle_pop take_entry_def)
  moreover have "wstep (?c\<lparr>pc := At_wait (head q)\<rparr>, q, t, acc)
      (?c\<lparr>pc := Blocked (head q)\<rparr>, q\<lparr>head_waiter := True\<rparr>, t, acc)"
    by (intro wstep.consume) (simp add: consumer_step_def)
  ultimately show ?thesis
    using idle_spin [OF q, of 500 t acc]
    by (meson order_refl rtranclp.rtrancl_into_rtrancl rtranclp_trans)
qed

section \<open>Properties\<close>

text \<open>
  C8. On a queue with the \<open>DropAll\<close> profile that starts empty, a consumer thread processes the accepted
  entries in order and exactly once, for every interleaving with the producer, the stopping
  thread and spurious wake-ups: what it has processed, followed by what is queued, is what was
  accepted. While the queue runs and is not empty the consumer is never left waiting: it has a
  step to make, also from inside \<open>head.wait\<close>, because the push that filled the queue notified it.
\<close>

theorem consumer_in_order:
  assumes "queue_wf q" and "log_array q \<noteq> None" and "overflow q = DropAll" and "entries q = []"
    and "wsteps (consumer_init, q, t, []) (c, q', t', acc)"
  shows "acc = processed c @ entries q' \<and>
     (is_running q' \<and> entries q' \<noteq> [] \<longrightarrow> consumer_step (c, q', t') \<noteq> None)"
proof -
  have "winv (consumer_init, q, t, [])"
    using assms(1-4) by (simp add: winv_def consumer_init_def)
  from winv_steps [OF assms(5) this] have inv: "winv (c, q', t', acc)" .
  then show ?thesis using winv_awake [OF inv] by (simp add: winv_def)
qed

lemma idle_small_queue:
  "queue_wf (small_queue DropAll 0)" "log_array (small_queue DropAll 0) \<noteq> None"
  "overflow (small_queue DropAll 0) = DropAll" "entries (small_queue DropAll 0) = []"
  "is_running (small_queue DropAll 0)"
  using small_queue_wf [of 0 DropAll]
  by (simp_all add: small_queue_def entries_def ring_list_def ring_count_def)

theorem consumer_in_order_witness:
  "\<exists>c q' t'. wsteps (consumer_init, small_queue DropAll 0, Telemetry_init, [])
       (c, q', t', [zero_entry]) \<and> [zero_entry] = processed c @ entries q'"
proof -
  note q = idle_small_queue
  obtain q' t' where p: "push zero_entry (small_queue DropAll 0) Telemetry_init = Done (q', t')"
    using push_returns [OF q(1)] by blast
  have "t' \<noteq> Telemetry_init"
    using entries_push(2) [OF q(1,2,5) p] q(4) by (simp add: full_def capacity_def small_queue_def)
  then have st: "wsteps (consumer_init, small_queue DropAll 0, Telemetry_init, [])
      (consumer_init, q', t', [zero_entry])"
    using wstep.produce [OF p, of consumer_init "[]"] by auto
  from consumer_in_order [OF q(1-4) st] st show ?thesis by blast
qed

text \<open>
  C27. Stopping an idle engine hangs: a consumer whose queue stays empty is blocked in \<open>head.wait\<close>
  after its 500 spins, and from there, once the queue is finished, no sequence of steps lets
  it return, because \<open>set_finished\<close> neither changes the head nor notifies it, and a spurious
  wake-up only makes it compare the head again. The join in \<open>stop_threads\<close> waits for ever.
\<close>

theorem idle_consumer_never_returns:
  assumes "queue_wf q" and "entries q = []" and "is_running q"
  shows "\<exists>c. wsteps (consumer_init, q, t, []) (c, set_finished (q\<lparr>head_waiter := True\<rparr>), t, []) \<and>
     (\<forall>y. wsteps (c, set_finished (q\<lparr>head_waiter := True\<rparr>), t, []) y \<longrightarrow> pc (fst y) \<noteq> Returned)"
proof -
  define c where "c = consumer_init\<lparr>spincounter := 500, pc := Blocked (head q)\<rparr>"
  let ?q = "q\<lparr>head_waiter := True\<rparr>"
  have "wsteps (consumer_init, q, t, []) (c, ?q, t, [])"
    unfolding c_def by (rule idle_parks [OF assms])
  then have "wsteps (consumer_init, q, t, []) (c, set_finished ?q, t, [])"
    by (rule rtranclp.rtrancl_into_rtrancl) (rule wstep.finish)
  moreover have "pc (fst y) \<noteq> Returned" if "wsteps (c, set_finished ?q, t, []) y" for y
    using waiting_stays [OF that refl] by (auto simp: c_def waits_on_def)
  ultimately show ?thesis by blast
qed

theorem idle_consumer_never_returns_witness:
  "\<exists>c q'. wsteps (consumer_init, small_queue DropAll 0, Telemetry_init, [])
       (c, set_finished q', Telemetry_init, []) \<and> pc c \<noteq> Returned"
  using idle_consumer_never_returns [OF idle_small_queue(1,4,5), of Telemetry_init] by fastforce

text \<open>The configuration after clamping, and the queues made from it.\<close>

lemma clamp_config_frame [simp]:
  "profile (clamp_config cfg) = profile cfg" "log_size (clamp_config cfg) = log_size cfg"
  "cfg_max_slabs (clamp_config cfg) = cfg_max_slabs cfg" "slabs_size (clamp_config cfg) = slabs_size cfg"
  "thread_num (clamp_config cfg) = (if thread_num cfg = 0 then 1 else thread_num cfg)"
  by (simp_all add: clamp_config_def Let_def)

lemma clamp_config_ram:
  "\<exists>k \<ge> 4. unat (usable_ram (clamp_config cfg)) = 2 ^ k"
  "unat (usable_ram (clamp_config cfg)) \<le> max 16 (unat (usable_ram cfg))"
proof -
  define r where "r = (if usable_ram cfg < 16 then 16 else usable_ram cfg)"
  have ram: "usable_ram (clamp_config cfg) = bit_floor r" by (simp add: clamp_config_def r_def Let_def)
  have r16: "16 \<le> unat r" by (auto simp: r_def word_less_nat_alt)
  have rm: "unat r \<le> max 16 (unat (usable_ram cfg))" by (simp add: r_def)
  obtain k where k: "bit_floor_nat (unat r) = 2 ^ k" using bit_floor_nat_pow2 [of "unat r"] r16 by auto
  have "(2 :: nat) ^ 3 < 2 ^ k" using bit_floor_nat_gt [of "unat r"] r16 k by simp
  then have "3 < k" by (rule power_less_imp_less_exp [rotated]) simp
  with k show "\<exists>k \<ge> 4. unat (usable_ram (clamp_config cfg)) = 2 ^ k"
    by (intro exI [of _ k]) (simp add: ram unat_bit_floor)
  show "unat (usable_ram (clamp_config cfg)) \<le> max 16 (unat (usable_ram cfg))"
    using bit_floor_nat_le [of "unat r"] rm by (simp add: ram unat_bit_floor)
qed

lemma clamp_config_ram_bounds:
  "1 \<le> unat (usable_ram (clamp_config cfg))"
  "unat (usable_ram cfg) \<le> 2 ^ 40 \<Longrightarrow> unat (usable_ram (clamp_config cfg)) \<le> 2 ^ 40"
  using clamp_config_ram [of cfg] by auto

lemma make_queuesE:
  assumes "q \<in> set (make_queues uninit handles mapped mem0 cfg)"
  obtains i where "q = snd (LogQueue_ctor uninit (handles i) (mapped i) mem0 cfg (word_of_nat i))"
  using assms by (auto simp: make_queues_def)

text \<open>
  C36. Whatever the configuration, the engine runs with at least one thread and a queue memory
  that is a power of two of at least 16 MB and never more than the larger of 16 and the value
  asked for; when the channels can be mapped and the memory asked for is at most 2 to the 40 megabytes,
  every queue is created empty, well formed and with an array.
\<close>

theorem manager_configuration:
  "(let cfg' = clamp_config cfg in
     1 \<le> unat (thread_num cfg') \<and> (\<exists>k \<ge> 4. unat (usable_ram cfg') = 2 ^ k) \<and>
     unat (usable_ram cfg') \<le> max 16 (unat (usable_ram cfg)) \<and>
     ((\<forall>i. shm_ok (handles i) (mapped i)) \<and> unat (usable_ram cfg) \<le> 2 ^ 40 \<longrightarrow>
       (\<forall>q \<in> set (make_queues uninit handles mapped mem0 cfg').
          queue_wf q \<and> entries q = [] \<and> is_running q \<and> log_array q \<noteq> None)))"
proof -
  let ?cfg = "clamp_config cfg"
  have one: "1 \<le> unat (thread_num ?cfg)" by (simp add: Suc_le_eq unat_gt_0)
  have qs: "queue_wf q \<and> entries q = [] \<and> is_running q \<and> log_array q \<noteq> None"
    if shm: "\<forall>i. shm_ok (handles i) (mapped i)" and hi: "unat (usable_ram cfg) \<le> 2 ^ 40"
      and q: "q \<in> set (make_queues uninit handles mapped mem0 ?cfg)" for q
    using q
  proof (rule make_queuesE)
    fix i assume i: "q = snd (LogQueue_ctor uninit (handles i) (mapped i) mem0 ?cfg (word_of_nat i))"
    show ?thesis
      unfolding i using LogQueue_ctor_ok [of "handles i" "mapped i" ?cfg uninit mem0 "word_of_nat i"]
        shm clamp_config_ram_bounds(1) clamp_config_ram_bounds(2) [OF hi] by simp
  qed
  show ?thesis
    unfolding Let_def using one clamp_config_ram [of cfg] qs by blast
qed

theorem manager_configuration_witness:
  "let q = hd (make_queues 0 (\<lambda>i. 1) (\<lambda>i. True) blank_memory (clamp_config default_config)) in
     queue_wf q \<and> entries q = [] \<and> is_running q \<and> log_array q \<noteq> None"
proof -
  have "make_queues 0 (\<lambda>i. 1) (\<lambda>i. True) blank_memory (clamp_config default_config) \<noteq> []"
    by (simp add: make_queues_def clamp_config_def default_config_def Let_def)
  from hd_in_set [OF this] show ?thesis
    using manager_configuration [of default_config "\<lambda>i. 1" "\<lambda>i. True" 0 blank_memory]
    by (simp add: Let_def shm_ok_def INVALID_HANDLE_VALUE_def default_config_def)
qed

end
