(* ===== verification/User_Config.thy ===== *)
theory User_Config
  imports Json_Parser Thread_Manager
begin

text \<open>
  \<open>GetUserCofig\<close> and \<open>main\<close> of \<open>engine/VortexEngine/VortexEngine.cpp\<close>: the configuration file is
  read with the JSON reader, each field that is present and has the right type replaces its
  default, and the program is built from the result. An exception that is not a \<open>parse_error\<close>
  leaves \<open>main\<close>.
\<close>

definition ascii :: "string \<Rightarrow> bytes" where
  "ascii txt = map of_char txt"

text \<open>The members of the configuration object.\<close>

definition key_usable_ram :: bytes where "key_usable_ram = ascii ''usable_ram''"
definition key_log_size :: bytes where "key_log_size = ascii ''log_size''"
definition key_thread_num :: bytes where "key_thread_num = ascii ''thread_num''"
definition key_max_slabs :: bytes where "key_max_slabs = ascii ''max_slabs''"
definition key_profile :: bytes where "key_profile = ascii ''profile''"

text \<open>\<open>what ()\<close> of an exception.\<close>

fun what :: "json_exception \<Rightarrow> string" where
  "what (Exn_parse_error i at txt) = txt"
| "what (Exn_out_of_range i txt) = txt"
| "what (Exn_type_error i txt) = txt"

text \<open>
  \<open>if (j.contains (key) && j[key].is_number_unsigned ()) field = j[key].get<size_t> ()\<close>: the
  value for the field, when there is one. \<open>j[key]\<close> is called on an object that has the key.
\<close>

definition unsigned_field :: "(bytes \<Rightarrow> u64) \<Rightarrow> bytes \<Rightarrow> json \<Rightarrow> json_exception + u64 option" where
  "unsigned_field trunc key j =
     (if contains key j then
        (case subscript key j of
           Inl e \<Rightarrow> Inl e
         | Inr (v, j1) \<Rightarrow>
             if is_number_unsigned v then map_sum id Some (get_arithmetic_value trunc v) else Inr None)
      else Inr None)"

definition integer_field :: "(bytes \<Rightarrow> 32 word) \<Rightarrow> bytes \<Rightarrow> json \<Rightarrow> json_exception + int option" where
  "integer_field trunc key j =
     (if contains key j then
        (case subscript key j of
           Inl e \<Rightarrow> Inl e
         | Inr (v, j1) \<Rightarrow>
             if is_number_integer v then map_sum id Some (get_int trunc v) else Inr None)
      else Inr None)"

text \<open>The messages printed.\<close>

definition int_string :: "int \<Rightarrow> string" where
  "int_string i = (if i < 0 then ''-'' @ nat_string (nat (- i)) else nat_string (nat i))"

definition newline :: string where
  "newline = [CHR 0x0A]"

definition profile_message :: "int \<Rightarrow> string" where
  "profile_message p =
     ''[CONFIG] Profile out of range '' @ int_string p @ '' using default values'' @ newline"

definition open_message :: string where
  "open_message = ''[CONFIG] Can'' @ [CHR 0x27] @ ''t open the file'' @ newline"

definition syntax_message :: "json_exception \<Rightarrow> string" where
  "syntax_message e =
     ''Sintaxis error: '' @ what e @ '' '' @ newline @ '' Using default values '' @ newline"

text \<open>The fields in the order the function reads them.\<close>

definition set_usable_ram :: "u64 option \<Rightarrow> MainConfig \<Rightarrow> MainConfig" where
  "set_usable_ram v c = (case v of None \<Rightarrow> c | Some n \<Rightarrow> c\<lparr>usable_ram := n\<rparr>)"

definition set_log_size :: "u64 option \<Rightarrow> MainConfig \<Rightarrow> MainConfig" where
  "set_log_size v c = (case v of None \<Rightarrow> c | Some n \<Rightarrow> c\<lparr>log_size := n\<rparr>)"

definition set_thread_num :: "u64 option \<Rightarrow> MainConfig \<Rightarrow> MainConfig" where
  "set_thread_num v c = (case v of None \<Rightarrow> c | Some n \<Rightarrow> c\<lparr>thread_num := n\<rparr>)"

definition set_max_slabs :: "u64 option \<Rightarrow> MainConfig \<Rightarrow> MainConfig" where
  "set_max_slabs v c = (case v of None \<Rightarrow> c | Some n \<Rightarrow> c\<lparr>cfg_max_slabs := n\<rparr>)"

definition set_profile :: "int option \<Rightarrow> MainConfig \<Rightarrow> MainConfig \<times> string list" where
  "set_profile v c =
     (case v of
        None \<Rightarrow> (c, [])
      | Some p \<Rightarrow>
          if 0 \<le> p \<and> p \<le> 2 then (c\<lparr>profile := profile_of p\<rparr>, [])
          else (c, [profile_message p]))"

definition read_fields ::
  "(bytes \<Rightarrow> u64) \<Rightarrow> (bytes \<Rightarrow> 32 word) \<Rightarrow> json \<Rightarrow> json_exception + (MainConfig \<times> string list)" where
  "read_fields trunc64 trunc32 j =
     (case unsigned_field trunc64 key_usable_ram j of Inl e \<Rightarrow> Inl e | Inr ram \<Rightarrow>
     (case unsigned_field trunc64 key_log_size j of Inl e \<Rightarrow> Inl e | Inr lsize \<Rightarrow>
     (case unsigned_field trunc64 key_thread_num j of Inl e \<Rightarrow> Inl e | Inr threads \<Rightarrow>
     (case unsigned_field trunc64 key_max_slabs j of Inl e \<Rightarrow> Inl e | Inr slabs \<Rightarrow>
     (case integer_field trunc32 key_profile j of Inl e \<Rightarrow> Inl e | Inr prof \<Rightarrow>
       let (c, printed) =
             set_profile prof (set_max_slabs slabs (set_thread_num threads
               (set_log_size lsize (set_usable_ram ram default_config))))
       in Inr (c\<lparr>slabs_size := log_size c\<rparr>, printed))))))"

text \<open>
  The file is \<open>None\<close> when it cannot be opened. The result is the configuration with what was
  printed, or the exception that leaves the function: one that is no \<open>parse_error\<close>.
\<close>

definition GetUserCofig ::
  "(bytes \<Rightarrow> u64) \<Rightarrow> (bytes \<Rightarrow> 32 word) \<Rightarrow> bytes option \<Rightarrow> json_exception + (MainConfig \<times> string list)" where
  "GetUserCofig trunc64 trunc32 file =
     (case file of
        None \<Rightarrow> Inr (default_config, [open_message])
      | Some contents \<Rightarrow>
          (case stream_in contents of
             Inl (Exn_parse_error i at txt) \<Rightarrow>
               Inr (default_config, [syntax_message (Exn_parse_error i at txt)])
           | Inl e \<Rightarrow> Inl e
           | Inr j \<Rightarrow> read_fields trunc64 trunc32 j))"

text \<open>
  \<open>main\<close> up to the wait for the enter key: an exception in \<open>GetUserCofig\<close> or a port in use end
  the program.
\<close>

definition main ::
  "(bytes \<Rightarrow> u64) \<Rightarrow> (bytes \<Rightarrow> 32 word) \<Rightarrow> bytes option \<Rightarrow> bool \<Rightarrow> size_t \<Rightarrow> (nat \<Rightarrow> u64) \<Rightarrow>
   (nat \<Rightarrow> bool) \<Rightarrow> SharedMemory \<Rightarrow> int \<Rightarrow> Manager outcome" where
  "main trunc64 trunc32 file bind_ok uninit handles mapped mem0 seconds =
     (case GetUserCofig trunc64 trunc32 file of
        Inl e \<Rightarrow> Terminates
      | Inr (cfg, printed) \<Rightarrow>
          bind_out (LogServer_construct bind_ok (log_size cfg))
            (\<lambda>srv. Done (ThreadManager_ctor uninit handles mapped mem0 seconds srv cfg)))"

end
