(* ===== verification/Json_Grammar.thy ===== *)
theory Json_Grammar
  imports Json_Value
begin

text \<open>
  JSON texts (RFC 8259) and the values they denote, independently of the reader: UTF-8 by
  arithmetic on code points, strings by their escapes, numbers by their parts, values by rules.
  A number that is no 64-bit integer denotes a float, which must be finite; of two members with
  one name the later counts.
\<close>

section \<open>UTF-8\<close>

definition scalar_value :: "nat \<Rightarrow> bool" where
  "scalar_value n \<longleftrightarrow> n < 0xD800 \<or> 0xE000 \<le> n \<and> n < 0x110000"

definition utf8 :: "nat \<Rightarrow> bytes" where
  "utf8 n =
     (if n < 0x80 then [word_of_nat n]
      else if n < 0x800 then [word_of_nat (0xC0 + n div 64), word_of_nat (0x80 + n mod 64)]
      else if n < 0x10000 then
        [word_of_nat (0xE0 + n div 4096), word_of_nat (0x80 + n div 64 mod 64),
         word_of_nat (0x80 + n mod 64)]
      else
        [word_of_nat (0xF0 + n div 262144), word_of_nat (0x80 + n div 4096 mod 64),
         word_of_nat (0x80 + n div 64 mod 64), word_of_nat (0x80 + n mod 64)])"

definition utf8_string :: "nat list \<Rightarrow> bytes" where
  "utf8_string ns = concat (map utf8 ns)"

definition valid_utf8 :: "bytes \<Rightarrow> bool" where
  "valid_utf8 s \<longleftrightarrow> (\<exists>ns. list_all scalar_value ns \<and> s = utf8_string ns)"

section \<open>Strings\<close>

text \<open>Four hexadecimal digits.\<close>

definition hex4 :: "bytes \<Rightarrow> nat option" where
  "hex4 bs =
     (case map hex_value bs of
        [Some a, Some b, Some c, Some d] \<Rightarrow> Some (a * 4096 + b * 256 + c * 16 + d)
      | _ \<Rightarrow> None)"

inductive string_text :: "bytes \<Rightarrow> bytes \<Rightarrow> bool" where
  empty_text: "string_text [] []"
| plain_text: "string_text t s \<Longrightarrow> scalar_value n \<Longrightarrow> 0x20 \<le> n \<Longrightarrow> n \<noteq> 0x22 \<Longrightarrow> n \<noteq> 0x5C \<Longrightarrow>
    string_text (utf8 n @ t) (utf8 n @ s)"
| escape_text: "string_text t s \<Longrightarrow> simple_escape e = Some c \<Longrightarrow> string_text (0x5C # e # t) (c # s)"
| unicode_text: "string_text t s \<Longrightarrow> hex4 h = Some n \<Longrightarrow> scalar_value n \<Longrightarrow>
    string_text (0x5C # 0x75 # h @ t) (utf8 n @ s)"
| pair_text: "string_text t s \<Longrightarrow> hex4 h = Some a \<Longrightarrow> hex4 l = Some b \<Longrightarrow>
    0xD800 \<le> a \<Longrightarrow> a < 0xDC00 \<Longrightarrow> 0xDC00 \<le> b \<Longrightarrow> b < 0xE000 \<Longrightarrow>
    string_text (0x5C # 0x75 # h @ 0x5C # 0x75 # l @ t)
      (utf8 (0x10000 + (a - 0xD800) * 1024 + (b - 0xDC00)) @ s)"

section \<open>Numbers\<close>

definition int_part :: "bytes \<Rightarrow> bool" where
  "int_part ds \<longleftrightarrow> ds \<noteq> [] \<and> list_all is_digit ds \<and> (hd ds = 48 \<longrightarrow> tl ds = [])"

definition frac_part :: "bytes \<Rightarrow> bool" where
  "frac_part bs \<longleftrightarrow> bs = [] \<or> hd bs = 46 \<and> tl bs \<noteq> [] \<and> list_all is_digit (tl bs)"

definition exp_part :: "bytes \<Rightarrow> bool" where
  "exp_part bs \<longleftrightarrow> bs = [] \<or>
     is_exp (hd bs) \<and> (let ds = unsign (tl bs) in ds \<noteq> [] \<and> list_all is_digit ds)"

definition integer_of :: "bool \<Rightarrow> bytes \<Rightarrow> json" where
  "integer_of neg ds =
     (let v = dec_acc 0 ds
      in if neg then (if v \<le> 2 ^ 63 then J_integer (- word_of_nat v) else J_float (45 # ds))
         else (if v < 2 ^ 64 then J_unsigned (word_of_nat v) else J_float ds))"

inductive number_text :: "bytes \<Rightarrow> json \<Rightarrow> bool" where
  natural_text: "int_part ds \<Longrightarrow> number_text ds (integer_of False ds)"
| negative_text: "int_part ds \<Longrightarrow> number_text (45 # ds) (integer_of True ds)"
| float_text: "int_part ds \<Longrightarrow> frac_part fr \<Longrightarrow> exp_part ex \<Longrightarrow> fr @ ex \<noteq> [] \<Longrightarrow> sg = [] \<or> sg = [45] \<Longrightarrow>
    number_text (sg @ ds @ fr @ ex) (J_float (sg @ ds @ fr @ ex))"

fun finite_number :: "json \<Rightarrow> bool" where
  "finite_number (J_float t) = float_finite t"
| "finite_number _ = True"

section \<open>Values\<close>

definition white :: "bytes \<Rightarrow> bool" where
  "white w \<longleftrightarrow> list_all (\<lambda>c. is_ws (Some c)) w"

definition object_of :: "(bytes \<times> json) list \<Rightarrow> (bytes \<times> json) list" where
  "object_of kvs = fold (\<lambda>(k, v). obj_set k v) kvs []"

inductive value_text :: "bytes \<Rightarrow> json \<Rightarrow> bool"
  and elements_text :: "bytes \<Rightarrow> json list \<Rightarrow> bool"
  and members_text :: "bytes \<Rightarrow> (bytes \<times> json) list \<Rightarrow> bool" where
  null_text: "value_text null_literal J_null"
| true_text: "value_text true_literal (J_bool True)"
| false_text: "value_text false_literal (J_bool False)"
| str_text: "string_text t s \<Longrightarrow> value_text (0x22 # t @ [0x22]) (J_string s)"
| num_text: "number_text t v \<Longrightarrow> finite_number v \<Longrightarrow> value_text t v"
| empty_array_text: "white w \<Longrightarrow> value_text (91 # w @ [93]) (J_array [])"
| array_text: "elements_text t vs \<Longrightarrow> value_text (91 # t @ [93]) (J_array vs)"
| empty_object_text: "white w \<Longrightarrow> value_text (123 # w @ [125]) (J_object [])"
| object_text: "members_text t kvs \<Longrightarrow> value_text (123 # t @ [125]) (J_object (object_of kvs))"
| last_element: "white w1 \<Longrightarrow> value_text t v \<Longrightarrow> white w2 \<Longrightarrow> elements_text (w1 @ t @ w2) [v]"
| next_element: "white w1 \<Longrightarrow> value_text t v \<Longrightarrow> white w2 \<Longrightarrow> elements_text ts vs \<Longrightarrow>
    elements_text (w1 @ t @ w2 @ 44 # ts) (v # vs)"
| last_member: "white w1 \<Longrightarrow> string_text kt k \<Longrightarrow> white w2 \<Longrightarrow> white w3 \<Longrightarrow> value_text t v \<Longrightarrow> white w4 \<Longrightarrow>
    members_text (w1 @ 0x22 # kt @ 0x22 # w2 @ 58 # w3 @ t @ w4) [(k, v)]"
| next_member: "white w1 \<Longrightarrow> string_text kt k \<Longrightarrow> white w2 \<Longrightarrow> white w3 \<Longrightarrow> value_text t v \<Longrightarrow> white w4 \<Longrightarrow>
    members_text ts kvs \<Longrightarrow>
    members_text (w1 @ 0x22 # kt @ 0x22 # w2 @ 58 # w3 @ t @ w4 @ 44 # ts) ((k, v) # kvs)"

lemma white_append [simp]: "white (u @ w) \<longleftrightarrow> white u \<and> white w"
  by (simp add: white_def)

section \<open>The reader's UTF-8 is the arithmetic one\<close>

lemma utf8_cases:
  assumes "scalar_value n"
  obtains (one) "n < 0x80" "utf8 n = [word_of_nat n]"
  | (two) "0x80 \<le> n" "n < 0x800" "utf8 n = [word_of_nat (0xC0 + n div 64), word_of_nat (0x80 + n mod 64)]"
  | (three) "0x800 \<le> n" "n < 0x10000" "n < 0xD800 \<or> 0xE000 \<le> n"
      "utf8 n = [word_of_nat (0xE0 + n div 4096), word_of_nat (0x80 + n div 64 mod 64), word_of_nat (0x80 + n mod 64)]"
  | (four) "0x10000 \<le> n" "n < 0x110000"
      "utf8 n = [word_of_nat (0xF0 + n div 262144), word_of_nat (0x80 + n div 4096 mod 64),
         word_of_nat (0x80 + n div 64 mod 64), word_of_nat (0x80 + n mod 64)]"
proof -
  consider "n < 0x80" | "0x80 \<le> n" "n < 0x800" | "0x800 \<le> n" "n < 0x10000" | "0x10000 \<le> n"
    by linarith
  then show thesis
  proof cases
    case 1
    then show thesis by (intro one) (simp_all add: utf8_def)
  next
    case 2
    then show thesis by (intro two) (simp_all add: utf8_def)
  next
    case 3
    then show thesis using assms by (intro three) (simp_all add: utf8_def scalar_value_def)
  next
    case 4
    then show thesis using assms by (intro four) (simp_all add: utf8_def scalar_value_def)
  qed
qed

text \<open>A lead byte made from \<open>n\<close>, and the ranges the reader wants after it.\<close>

definition follows :: "(u8 \<times> u8) list \<Rightarrow> bytes \<Rightarrow> bool" where
  "follows rs bs \<longleftrightarrow> list_all2 (\<lambda>(lo, hi) c. lo \<le> c \<and> c \<le> hi) rs bs"

lemma byte_le: "n < 256 \<Longrightarrow> m < 256 \<Longrightarrow> (word_of_nat n :: u8) \<le> word_of_nat m \<longleftrightarrow> n \<le> m"
  by (simp add: word_le_nat_alt unat_of_nat)

lemma byte_eq: "n < 256 \<Longrightarrow> m < 256 \<Longrightarrow> (word_of_nat n :: u8) = word_of_nat m \<longleftrightarrow> n = m"
  by (metis byte_le eq_iff)

text \<open>\<open>utf8_ranges\<close> on numbers.\<close>

definition nat_ranges :: "nat \<Rightarrow> (u8 \<times> u8) list option" where
  "nat_ranges c =
     (if 0xC2 \<le> c \<and> c \<le> 0xDF then Some [(0x80, 0xBF)]
      else if c = 0xE0 then Some [(0xA0, 0xBF), (0x80, 0xBF)]
      else if 0xE1 \<le> c \<and> c \<le> 0xEC \<or> c = 0xEE \<or> c = 0xEF then Some [(0x80, 0xBF), (0x80, 0xBF)]
      else if c = 0xED then Some [(0x80, 0x9F), (0x80, 0xBF)]
      else if c = 0xF0 then Some [(0x90, 0xBF), (0x80, 0xBF), (0x80, 0xBF)]
      else if 0xF1 \<le> c \<and> c \<le> 0xF3 then Some [(0x80, 0xBF), (0x80, 0xBF), (0x80, 0xBF)]
      else if c = 0xF4 then Some [(0x80, 0x8F), (0x80, 0xBF), (0x80, 0xBF)]
      else None)"

lemma utf8_ranges_nat: "utf8_ranges c = nat_ranges (unat c)"
proof -
  have "c = 0xE0 \<longleftrightarrow> unat c = 0xE0" "c = 0xEE \<longleftrightarrow> unat c = 0xEE" "c = 0xEF \<longleftrightarrow> unat c = 0xEF"
    "c = 0xED \<longleftrightarrow> unat c = 0xED" "c = 0xF0 \<longleftrightarrow> unat c = 0xF0" "c = 0xF4 \<longleftrightarrow> unat c = 0xF4"
    by (simp_all add: word_unat_eq_iff)
  then show ?thesis
    by (simp add: utf8_ranges_def nat_ranges_def word_le_nat_alt)
qed

lemma follows_simps [simp]:
  "follows [] [] = True"
  "follows (r # rs) (c # bs) \<longleftrightarrow> unat (fst r) \<le> unat c \<and> unat c \<le> unat (snd r) \<and> follows rs bs"
  "follows [] (c # bs) = False" "follows (r # rs) [] = False"
  by (auto simp: follows_def word_le_nat_alt split: prod.splits)

lemma unat_byte: "n < 256 \<Longrightarrow> unat (word_of_nat n :: u8) = n"
  by (simp add: unat_of_nat)

text \<open>The lead bytes of three and four byte sequences and the ranges after them.\<close>

lemma three_ranges:
  assumes "k \<le> 15" "a \<le> 63" "b \<le> 63" "k = 0 \<longrightarrow> 0x20 \<le> a" "k = 13 \<longrightarrow> a \<le> 0x1F"
  shows "\<exists>rs. nat_ranges (0xE0 + k) = Some rs \<and> follows rs [word_of_nat (0x80 + a), word_of_nat (0x80 + b)]"
proof -
  have u: "unat (word_of_nat (0x80 + a) :: u8) = 0x80 + a" "unat (word_of_nat (0x80 + b) :: u8) = 0x80 + b"
    using assms by (simp_all add: unat_byte del: of_nat_add)
  consider "k = 0" | "k = 13" | "k \<noteq> 0" "k \<noteq> 13" by blast
  then show ?thesis
    using assms by cases (simp_all add: nat_ranges_def u del: of_nat_add, presburger)
qed

lemma four_ranges:
  assumes "k \<le> 4" "d \<le> 63" "a \<le> 63" "b \<le> 63" "k = 0 \<longrightarrow> 0x10 \<le> d" "k = 4 \<longrightarrow> d \<le> 0x0F"
  shows "\<exists>rs. nat_ranges (0xF0 + k) = Some rs \<and>
    follows rs [word_of_nat (0x80 + d), word_of_nat (0x80 + a), word_of_nat (0x80 + b)]"
proof -
  have u: "unat (word_of_nat (0x80 + a) :: u8) = 0x80 + a" "unat (word_of_nat (0x80 + b) :: u8) = 0x80 + b"
    "unat (word_of_nat (0x80 + d) :: u8) = 0x80 + d"
    using assms by (simp_all add: unat_byte del: of_nat_add)
  consider "k = 0" | "k = 4" | "k \<noteq> 0" "k \<noteq> 4" by blast
  then show ?thesis using assms by cases (simp_all add: nat_ranges_def u del: of_nat_add)
qed

lemma utf8_three:
  assumes "0x800 \<le> n" "n < 0x10000" "n < 0xD800 \<or> 0xE000 \<le> n"
  shows "\<exists>rs. nat_ranges (0xE0 + n div 4096) = Some rs \<and>
    follows rs [word_of_nat (0x80 + n div 64 mod 64), word_of_nat (0x80 + n mod 64)]"
proof (rule three_ranges)
  have m: "n div 64 mod 64 = n div 64 - 64 * (n div 4096)"
    by (simp add: minus_mult_div_eq_mod [symmetric] div_mult2_eq [symmetric])
  show "n div 4096 = 0 \<longrightarrow> 0x20 \<le> n div 64 mod 64" "n div 4096 = 13 \<longrightarrow> n div 64 mod 64 \<le> 0x1F"
    using assms unfolding m by auto
qed (use assms in simp_all)

lemma utf8_four:
  assumes "0x10000 \<le> n" "n < 0x110000"
  shows "\<exists>rs. nat_ranges (0xF0 + n div 262144) = Some rs \<and>
    follows rs [word_of_nat (0x80 + n div 4096 mod 64), word_of_nat (0x80 + n div 64 mod 64),
      word_of_nat (0x80 + n mod 64)]"
proof (rule four_ranges)
  have m: "n div 4096 mod 64 = n div 4096 - 64 * (n div 262144)"
    by (simp add: minus_mult_div_eq_mod [symmetric] div_mult2_eq [symmetric])
  show "n div 262144 = 0 \<longrightarrow> 0x10 \<le> n div 4096 mod 64" "n div 262144 = 4 \<longrightarrow> n div 4096 mod 64 \<le> 0x0F"
    using assms unfolding m by auto
qed (use assms in simp_all)

lemma utf8_lead:
  assumes "scalar_value n" and "0x80 \<le> n"
  shows "\<exists>c bs rs. utf8 n = c # bs \<and> 0x80 \<le> c \<and> utf8_ranges c = Some rs \<and> follows rs bs"
  using assms(1)
proof (cases rule: utf8_cases)
  case two
  have "unat (word_of_nat (0xC0 + n div 64) :: u8) = 0xC0 + n div 64"
    "unat (word_of_nat (0x80 + n mod 64) :: u8) = 0x80 + n mod 64"
    by (rule unat_byte, use two in simp)+
  moreover have "2 \<le> n div 64" "n div 64 \<le> 31" using two by simp_all
  ultimately show ?thesis
    using two by (simp add: utf8_ranges_nat nat_ranges_def word_le_nat_alt del: of_nat_add)
next
  case three
  have "unat (word_of_nat (0xE0 + n div 4096) :: u8) = 0xE0 + n div 4096"
    by (rule unat_byte, use three in simp)
  then show ?thesis
    using utf8_three [OF three(1,2,3)] three(4) by (simp add: utf8_ranges_nat word_le_nat_alt del: of_nat_add)
next
  case four
  have "unat (word_of_nat (0xF0 + n div 262144) :: u8) = 0xF0 + n div 262144"
    by (rule unat_byte, use four in simp)
  then show ?thesis
    using utf8_four [OF four(1,2)] four(3) by (simp add: utf8_ranges_nat word_le_nat_alt del: of_nat_add)
qed (use assms in simp)

text \<open>The bit operations of \<open>add_codepoint\<close> compute the arithmetic encoding.\<close>

lemma or_low:
  fixes c w :: u32
  assumes "take_bit k w = w"
  shows "push_bit k c OR w = push_bit k c + w"
proof -
  have "bit w n \<Longrightarrow> n < k" for n
    using assms by (metis bit_take_bit_iff)
  then show ?thesis
    by (subst disjunctive_add) (auto simp: bit_push_bit_iff not_less [symmetric])
qed

lemma take_bit_of_less: "unat (w :: u32) < 2 ^ k \<Longrightarrow> take_bit k w = w"
  by (simp add: word_unat_eq_iff unsigned_take_bit_eq take_bit_nat_eq_self)

lemma lead_byte:
  fixes w :: u32
  assumes "unat w < 2 ^ k" and "push_bit k c = b" and "unat b + 2 ^ k \<le> 256"
  shows "ucast (b OR w) = (word_of_nat (unat b + unat w) :: u8)"
proof -
  have "b OR w = b + w" using or_low [OF take_bit_of_less [OF assms(1)], of c] assms(2) by simp
  moreover have "unat (b + w) = unat b + unat w"
    using assms by (intro unat_add_lem [THEN iffD1]) simp
  ultimately show ?thesis by (metis of_nat_unat)
qed

lemma low_bits:
  fixes w :: u32
  shows "unat (w AND 0x3F) = unat w mod 64"
proof -
  have "w AND 0x3F = take_bit 6 w" by (simp add: take_bit_eq_mask mask_eq_exp_minus_1)
  then show ?thesis by (simp add: unsigned_take_bit_eq take_bit_nat_def)
qed

lemma high_bits: "unat (drop_bit k (w :: u32)) = unat w div 2 ^ k"
  by (simp add: unat_drop_bit_eq drop_bit_nat_def)

lemma codepoint_bytes_utf8:
  assumes "n < 0x110000"
  shows "codepoint_bytes (word_of_nat n) = utf8 n"
proof -
  let ?w = "word_of_nat n :: u32"
  have w: "unat ?w = n" using assms by (simp add: unat_word_of_nat_small)
  have lt: "?w < 0x80 \<longleftrightarrow> n < 0x80" "?w \<le> 0x7FF \<longleftrightarrow> n < 0x800" "?w \<le> 0xFFFF \<longleftrightarrow> n < 0x10000"
    by (auto simp: word_less_nat_alt word_le_nat_alt w)
  have low: "ucast (0x80 OR (drop_bit j ?w AND 0x3F)) = (word_of_nat (0x80 + n div 2 ^ j mod 64) :: u8)" for j
    using lead_byte [where w = "drop_bit j ?w AND 0x3F" and k = "6" and c = "2" and b = "0x80"] by (simp add: low_bits high_bits w)
  have low0: "ucast (0x80 OR (?w AND 0x3F)) = (word_of_nat (0x80 + n mod 64) :: u8)"
    using lead_byte [where w = "?w AND 0x3F" and k = "6" and c = "2" and b = "0x80"] by (simp add: low_bits w)
  have two: "n < 0x800 \<Longrightarrow> ucast (0xC0 OR drop_bit 6 ?w) = (word_of_nat (0xC0 + n div 64) :: u8)"
    using lead_byte [where w = "drop_bit 6 ?w" and k = "5" and c = "6" and b = "0xC0"] by (simp add: high_bits w)
  have three: "n < 0x10000 \<Longrightarrow> ucast (0xE0 OR drop_bit 12 ?w) = (word_of_nat (0xE0 + n div 4096) :: u8)"
    using lead_byte [where w = "drop_bit 12 ?w" and k = "4" and c = "14" and b = "0xE0"] by (simp add: high_bits w)
  have four: "ucast (0xF0 OR drop_bit 18 ?w) = (word_of_nat (0xF0 + n div 262144) :: u8)"
    using lead_byte [where w = "drop_bit 18 ?w" and k = "3" and c = "30" and b = "0xF0"] assms by (simp add: high_bits w)
  have one: "n < 0x80 \<Longrightarrow> ucast ?w = (word_of_nat n :: u8)"
    using w by (metis of_nat_unat)
  show ?thesis
    unfolding codepoint_bytes_def utf8_def lt
    using one two three four low [of 6] low [of 12] low0
    by (auto simp: not_less simp del: of_nat_add)
qed

end
