(* ===== verification/Json_Reader_Spec.thy ===== *)
theory Json_Reader_Spec
  imports Json_Grammar Json_Parser
begin

text \<open>
  The reader reads every JSON text: token by token the lexer returns what the grammar of
  \<open>Json_Grammar\<close> says, and the loop of the parser builds the value. \<open>ready s cs\<close> says that the
  bytes \<open>cs\<close> are what the lexer reads next.
\<close>

section \<open>Reading ahead\<close>

definition ready :: "Lexer \<Rightarrow> bytes \<Rightarrow> bool" where
  "ready s cs \<longleftrightarrow> lex_ok s \<and> pending s = cs"

lemma ready_get:
  "ready s (c # cs) \<Longrightarrow> current (get s) = Some c"
  "ready s (c # cs) \<Longrightarrow> ready (get s) cs"
  using get_pending_Cons by (auto simp: ready_def)

lemma ready_get_end: "ready s [] \<Longrightarrow> current (get s) = None \<and> ready (get s) []"
  using get_pending_Nil by (auto simp: ready_def)

lemma ready_frame [simp]:
  "ready (add c s) cs = ready s cs" "ready (add_current s) cs = ready s cs"
  "ready (fail m s) cs = ready s cs" "ready (reset_token s) cs = ready s cs"
  "ready (fold add bs s) cs = ready s cs"
  by (simp_all add: ready_def)

lemma ready_unget: "ready s cs \<Longrightarrow> ready (unget (get s)) cs"
  using unget_get_pending by (simp add: ready_def)

lemma token_buffer_simps [simp]:
  "token_buffer (get s) = token_buffer s" "token_buffer (unget s) = token_buffer s"
  "token_buffer (add c s) = token_buffer s @ [c]" "token_buffer (fail m s) = token_buffer s"
  "token_buffer (reset_token s) = []"
  by (auto simp: get_def get_character_def unget_def add_def fail_def reset_token_def Let_def
      split: option.split list.split)

lemma token_buffer_add_current [simp]:
  "current s = Some c \<Longrightarrow> token_buffer (add_current s) = token_buffer s @ [c]"
  by (simp add: add_current_def)

lemma token_buffer_fold [simp]: "token_buffer (fold add bs s) = token_buffer s @ bs"
  by (induction bs arbitrary: s) simp_all

lemma white_simps [simp]: "white []" "white (c # w) \<longleftrightarrow> is_ws (Some c) \<and> white w"
  by (simp_all add: white_def)

lemma skip_whitespace_ready:
  assumes "ready s (w @ c # cs)" and "white w" and "\<not> is_ws (Some c)"
  shows "current (skip_whitespace s) = Some c \<and> ready (skip_whitespace s) cs"
  using assms
proof (induction w arbitrary: s)
  case Nil
  then show ?case using ready_get by (subst (1 2) skip_whitespace.simps) (simp add: Let_def)
next
  case (Cons a w)
  then have "current (get s) = Some a" "ready (get s) (w @ c # cs)" using ready_get by auto
  with Cons show ?case by (subst (1 2) skip_whitespace.simps) (simp add: Let_def)
qed

lemma skip_whitespace_end:
  assumes "ready s w" and "white w"
  shows "current (skip_whitespace s) = None \<and> ready (skip_whitespace s) []"
  using assms
proof (induction w arbitrary: s)
  case Nil
  then show ?case
    using ready_get_end by (subst (1 2) skip_whitespace.simps) (simp add: Let_def is_ws_def)
next
  case (Cons a w)
  then have "current (get s) = Some a" "ready (get s) w" using ready_get by auto
  with Cons show ?case by (subst (1 2) skip_whitespace.simps) (simp add: Let_def)
qed

lemma skip_bom_ready:
  assumes "ready s (c # cs)" and "c \<noteq> 0xEF"
  shows "fst (skip_bom s) \<and> ready (snd (skip_bom s)) (c # cs)"
  using ready_get [OF assms(1)] assms ready_unget by (simp add: skip_bom_def Let_def)

text \<open>White space before a token is skipped.\<close>

lemma scan_ready:
  assumes "ready s (w @ c # cs)" and "white w" and "\<not> is_ws (Some c)" and "c \<noteq> 47" and "c \<noteq> 0xEF"
  shows "\<exists>s1. scan s = scan_token s1 \<and> current s1 = Some c \<and> ready s1 cs"
proof -
  obtain d ds where d: "w @ c # cs = d # ds" "d \<noteq> 0xEF"
    using assms by (cases w) (auto simp: is_ws_def)
  obtain b s0 where b: "(if chars_read_total (position s) = 0 then skip_bom s else (True, s)) = (b, s0)"
    by fastforce
  then have "b" "ready s0 (w @ c # cs)"
    using skip_bom_ready [of s d ds] assms(1) d by (auto split: if_splits)
  moreover have "current (skip_whitespace s0) = Some c \<and> ready (skip_whitespace s0) cs"
    using \<open>ready s0 _\<close> assms by (intro skip_whitespace_ready)
  moreover then have "skip_comments (skip_whitespace s0) = (True, skip_whitespace s0)"
    using assms by (subst skip_comments.simps) simp
  ultimately show ?thesis
    by (intro exI [of _ "skip_whitespace s0"]) (simp add: scan_def b)
qed

lemma scan_end:
  assumes "ready s w" and "white w"
  shows "fst (scan s) = End_of_input"
proof -
  obtain b s0 where b: "(if chars_read_total (position s) = 0 then skip_bom s else (True, s)) = (b, s0)"
    by fastforce
  have "b \<and> ready s0 w"
  proof (cases w)
    case Nil
    then show ?thesis
      using b assms ready_get_end [of s] ready_unget [of s]
      by (auto simp: skip_bom_def Let_def split: if_splits)
  next
    case (Cons c cs)
    then show ?thesis
      using skip_bom_ready [of s c cs] assms b by (auto simp: is_ws_def split: if_splits)
  qed
  moreover have "current (skip_whitespace s0) = None"
    using calculation assms skip_whitespace_end by blast
  moreover then have "skip_comments (skip_whitespace s0) = (True, skip_whitespace s0)"
    by (subst skip_comments.simps) simp
  ultimately show ?thesis by (simp add: scan_def b scan_token_def)
qed

section \<open>Punctuation and literals\<close>

definition punctuation :: "u8 \<Rightarrow> token_type option" where
  "punctuation c =
     (if c = 91 then Some Begin_array else if c = 93 then Some End_array
      else if c = 123 then Some Begin_object else if c = 125 then Some End_object
      else if c = 58 then Some Name_separator else if c = 44 then Some Value_separator else None)"

lemma scan_punctuation:
  assumes "ready s (w @ c # cs)" and "white w" and "punctuation c = Some t"
  shows "fst (scan s) = t \<and> ready (snd (scan s)) cs"
proof -
  have "\<not> is_ws (Some c)" "c \<noteq> 47" "c \<noteq> 0xEF"
    using assms(3) by (auto simp: punctuation_def is_ws_def split: if_splits)
  from scan_ready [OF assms(1,2) this] obtain s1 where
    "scan s = scan_token s1" "current s1 = Some c" "ready s1 cs" by blast
  then show ?thesis
    using assms(3) by (auto simp: scan_token_def punctuation_def split: if_splits)
qed

lemma scan_literal_rest_ready:
  assumes "ready s (lit @ cs)"
  shows "fst (scan_literal_rest lit t s) = t \<and> ready (snd (scan_literal_rest lit t s)) cs"
  using assms
proof (induction lit arbitrary: s)
  case (Cons c lit)
  then show ?case using ready_get [of s c "lit @ cs"] by (simp add: Let_def)
qed simp

lemma scan_literal_ready:
  assumes "ready s (w @ lit @ cs)" and "white w"
    and "(lit, t) \<in> {(null_literal, Literal_null), (true_literal, Literal_true), (false_literal, Literal_false)}"
  shows "fst (scan s) = t \<and> ready (snd (scan s)) cs"
proof -
  obtain c lit' where c: "lit = c # lit'" "\<not> is_ws (Some c)" "c \<noteq> 47" "c \<noteq> 0xEF"
    using assms(3) by (auto simp: null_literal_def true_literal_def false_literal_def is_ws_def)
  from scan_ready [of s w c "lit' @ cs"] assms c obtain s1 where
    s1: "scan s = scan_token s1" "current s1 = Some c" "ready s1 (lit' @ cs)" by auto
  have "scan_token s1 = scan_literal lit t s1"
    using assms(3) s1(2) c(1)
    by (auto simp: scan_token_def null_literal_def true_literal_def false_literal_def)
  then show ?thesis
    using scan_literal_rest_ready [OF s1(3)] by (simp add: s1 scan_literal_def c)
qed

section \<open>Strings\<close>

text \<open>One round of the string loop adds the value \<open>v\<close> of the text \<open>t\<close>.\<close>

definition reads_text :: "bytes \<Rightarrow> bytes \<Rightarrow> bool" where
  "reads_text t v \<longleftrightarrow>
     (\<forall>s cs. ready s (t @ cs) \<longrightarrow>
        fst (scan_string_char s) = None \<and> ready (snd (scan_string_char s)) cs \<and>
        token_buffer (snd (scan_string_char s)) = token_buffer s @ v)"

lemma reads_textI:
  assumes "\<And>s cs. ready s (t @ cs) \<Longrightarrow> \<exists>s'. scan_string_char s = (None, s') \<and> ready s' cs \<and>
    token_buffer s' = token_buffer s @ v"
  shows "reads_text t v"
  unfolding reads_text_def using assms by fastforce

lemma bytes_in_ranges_ready:
  assumes "ready s (bs @ cs)" and "follows rs bs"
  shows "\<exists>s'. bytes_in_ranges rs s = (True, s') \<and> ready s' cs \<and> token_buffer s' = token_buffer s @ bs"
  using assms
proof (induction rs arbitrary: s bs)
  case Nil
  then show ?case by (cases bs) (auto simp: follows_def)
next
  case (Cons r rs)
  then obtain b bs' where b: "bs = b # bs'" by (cases bs) auto
  have f: "unat (fst r) \<le> unat b \<and> unat b \<le> unat (snd r)" "follows rs bs'" using Cons.prems b by auto
  have g: "current (get s) = Some b" "ready (get s) (bs' @ cs)"
    using ready_get [of s b "bs' @ cs"] Cons.prems b by auto
  from Cons.IH [of "add_current (get s)" bs'] f(2) g obtain s' where
    "bytes_in_ranges rs (add_current (get s)) = (True, s')" "ready s' cs"
    "token_buffer s' = token_buffer s @ b # bs'" by auto
  then show ?case
    using f g b by (cases r) (simp add: Let_def word_le_nat_alt)
qed

lemma reads_plain:
  assumes "scalar_value n" "0x20 \<le> n" "n \<noteq> 0x22" "n \<noteq> 0x5C"
  shows "reads_text (utf8 n) (utf8 n)"
proof (rule reads_textI)
  fix s cs assume r: "ready s (utf8 n @ cs)"
  show "\<exists>s'. scan_string_char s = (None, s') \<and> ready s' cs \<and> token_buffer s' = token_buffer s @ utf8 n"
  proof (cases "n < 0x80")
    case True
    let ?c = "word_of_nat n :: u8"
    have u: "utf8 n = [?c]" using True by (simp add: utf8_def)
    have c: "unat ?c = n" using True by (simp add: unat_byte)
    have ne: "?c \<noteq> 0x22" "?c \<noteq> 0x5C" "\<not> ?c < 0x20" "?c < 0x80"
      using assms True by (simp_all add: word_unat_eq_iff word_less_nat_alt c)
    show ?thesis
      using ready_get [of s ?c cs] r by (simp add: u scan_string_char_def Let_def ne)
  next
    case False
    then obtain c bs rs where u: "utf8 n = c # bs" "0x80 \<le> c" "utf8_ranges c = Some rs" "follows rs bs"
      using utf8_lead assms by (meson not_less)
    have g: "current (get s) = Some c" "ready (get s) (bs @ cs)"
      using ready_get [of s c "bs @ cs"] r u by auto
    have ne: "c \<noteq> 0x22" "c \<noteq> 0x5C" "\<not> c < 0x20" "\<not> c < 0x80"
      using u(2) by (auto simp: word_le_nat_alt word_less_nat_alt)
    from bytes_in_ranges_ready [of "add_current (get s)" bs cs rs] g u obtain s' where
      "bytes_in_ranges rs (add_current (get s)) = (True, s')" "ready s' cs"
      "token_buffer s' = token_buffer s @ c # bs" by auto
    then show ?thesis
      using g u ne by (simp add: scan_string_char_def Let_def scan_utf8_def next_byte_in_range_def)
  qed
qed

lemma reads_escape:
  assumes "simple_escape e = Some c"
  shows "reads_text [0x5C, e] [c]"
proof (rule reads_textI)
  fix s cs assume r: "ready s ([0x5C, e] @ cs)"
  have "current (get s) = Some 0x5C" "ready (get s) (e # cs)"
    using ready_get [of s "0x5C" "e # cs"] r by auto
  moreover from this(2) have "current (get (get s)) = Some e" "ready (get (get s)) cs"
    using ready_get by auto
  ultimately show "\<exists>s'. scan_string_char s = (None, s') \<and> ready s' cs \<and> token_buffer s' = token_buffer s @ [c]"
    using assms by (simp add: scan_string_char_def Let_def scan_escape_def)
qed

lemma hex4_cases:
  assumes "hex4 h = Some n"
  obtains a b c d a' b' c' d' where "h = [a, b, c, d]"
    "hex_value a = Some a'" "hex_value b = Some b'" "hex_value c = Some c'" "hex_value d = Some d'"
    "n = a' * 4096 + b' * 256 + c' * 16 + d'"
proof -
  from assms obtain a' b' c' d' where m: "map hex_value h = [Some a', Some b', Some c', Some d']"
    and n: "n = a' * 4096 + b' * 256 + c' * 16 + d'"
    unfolding hex4_def by (auto split: list.splits option.splits)
  then obtain a b c d where "h = [a, b, c, d]" by (auto simp: map_eq_Cons_conv)
  with m n that show thesis by auto
qed

lemma get_codepoint_ready:
  assumes "hex4 h = Some n" and "ready s (h @ cs)"
  shows "\<exists>s'. get_codepoint s = (int n, s') \<and> ready s' cs \<and> token_buffer s' = token_buffer s"
proof -
  obtain a b c d a' b' c' d' where h: "h = [a, b, c, d]"
    and v: "hex_value a = Some a'" "hex_value b = Some b'" "hex_value c = Some c'" "hex_value d = Some d'"
    and n: "n = a' * 4096 + b' * 256 + c' * 16 + d'"
    using hex4_cases [OF assms(1)] by metis
  let ?g1 = "get s" and ?g2 = "get (get s)" and ?g3 = "get (get (get s))"
  have 1: "current ?g1 = Some a" "ready ?g1 (b # c # d # cs)" using ready_get assms(2) h by auto
  have 2: "current ?g2 = Some b" "ready ?g2 (c # d # cs)" using ready_get 1 by auto
  have 3: "current ?g3 = Some c" "ready ?g3 (d # cs)" using ready_get 2 by auto
  have 4: "current (get ?g3) = Some d" "ready (get ?g3) cs" using ready_get 3 by auto
  show ?thesis
    using 1 2 3 4 v by (simp add: get_codepoint_def Let_def n)
qed

lemma hex_value_le: "hex_value c = Some n \<Longrightarrow> n < 16"
  by (auto simp: hex_value_def word_le_nat_alt split: if_splits)

lemma add_codepoint_ready:
  assumes "n < 0x110000"
  shows "token_buffer (add_codepoint (int n) s) = token_buffer s @ utf8 n"
    "ready (add_codepoint (int n) s) cs = ready s cs"
  using codepoint_bytes_utf8 [OF assms] by (simp_all add: add_codepoint_def)

lemma ready_escape_u:
  assumes "ready s (0x5C # 0x75 # cs)"
  shows "current (get s) = Some 0x5C" "current (get (get s)) = Some 0x75" "ready (get (get s)) cs"
  using ready_get [OF assms] ready_get by auto

lemma scan_char_u:
  assumes "ready s (0x5C # 0x75 # cs)"
  shows "scan_string_char s = scan_unicode_escape (get (get s))"
  using ready_escape_u [OF assms]
  by (simp add: scan_string_char_def Let_def scan_escape_def simple_escape_def)

lemma reads_unicode:
  assumes "hex4 h = Some n" and "scalar_value n"
  shows "reads_text (0x5C # 0x75 # h) (utf8 n)"
proof (rule reads_textI)
  fix s cs assume r: "ready s ((0x5C # 0x75 # h) @ cs)"
  then have r1: "ready s (0x5C # 0x75 # (h @ cs))" by simp
  obtain s1 where s1: "get_codepoint (get (get s)) = (int n, s1)" "ready s1 cs" "token_buffer s1 = token_buffer s"
    using get_codepoint_ready [OF assms(1) ready_escape_u(3) [OF r1]] by auto
  have n: "n < 0xD800 \<or> 0xE000 \<le> n" "n < 0x110000" using assms(2) by (auto simp: scalar_value_def)
  from n(1) show "\<exists>s'. scan_string_char s = (None, s') \<and> ready s' cs \<and> token_buffer s' = token_buffer s @ utf8 n"
    using s1 add_codepoint_ready [OF n(2), of s1]
    by (elim disjE) (simp_all add: scan_char_u [OF r1] scan_unicode_escape_def Let_def)
qed

lemma reads_pair:
  assumes "hex4 h = Some a" "hex4 l = Some b" "0xD800 \<le> a" "a < 0xDC00" "0xDC00 \<le> b" "b < 0xE000"
  shows "reads_text (0x5C # 0x75 # h @ 0x5C # 0x75 # l) (utf8 (0x10000 + (a - 0xD800) * 1024 + (b - 0xDC00)))"
proof (rule reads_textI)
  let ?n = "0x10000 + (a - 0xD800) * 1024 + (b - 0xDC00)"
  fix s cs assume "ready s ((0x5C # 0x75 # h @ 0x5C # 0x75 # l) @ cs)"
  then have r1: "ready s (0x5C # 0x75 # (h @ 0x5C # 0x75 # l @ cs))" by simp
  obtain s1 where s1: "get_codepoint (get (get s)) = (int a, s1)" "ready s1 (0x5C # 0x75 # (l @ cs))"
    "token_buffer s1 = token_buffer s"
    using get_codepoint_ready [OF assms(1) ready_escape_u(3) [OF r1]] by auto
  note e = ready_escape_u [OF s1(2)]
  obtain s2 where s2: "get_codepoint (get (get s1)) = (int b, s2)" "ready s2 cs" "token_buffer s2 = token_buffer s"
    using get_codepoint_ready [OF assms(2) e(3)] s1(3) by auto
  have n: "int a * 2 ^ 10 + int b - 0x35FDC00 = int ?n" "?n < 0x110000" using assms by auto
  show "\<exists>s'. scan_string_char s = (None, s') \<and> ready s' cs \<and> token_buffer s' = token_buffer s @ utf8 ?n"
    using s1 s2 e n assms add_codepoint_ready [OF n(2), of s2]
    by (simp add: scan_char_u [OF r1] scan_unicode_escape_def Let_def)
qed

definition reads_string :: "bytes \<Rightarrow> bytes \<Rightarrow> bool" where
  "reads_string t v \<longleftrightarrow>
     (\<forall>s cs. ready s (t @ 0x22 # cs) \<longrightarrow>
        fst (scan_string_loop s) = Value_string \<and> ready (snd (scan_string_loop s)) cs \<and>
        token_buffer (snd (scan_string_loop s)) = token_buffer s @ v)"

lemma reads_string_Nil: "reads_string [] []"
  unfolding reads_string_def
proof (intro allI impI)
  fix s cs assume "ready s ([] @ 0x22 # cs)"
  then have "current (get s) = Some 0x22" "ready (get s) cs" using ready_get by auto
  then show "fst (scan_string_loop s) = Value_string \<and> ready (snd (scan_string_loop s)) cs \<and>
      token_buffer (snd (scan_string_loop s)) = token_buffer s @ []"
    by (subst (1 2 3) scan_string_loop.simps) (simp add: scan_string_char_def Let_def)
qed

lemma reads_string_append:
  assumes "reads_text t1 v1" and "reads_string t v"
  shows "reads_string (t1 @ t) (v1 @ v)"
  unfolding reads_string_def
proof (intro allI impI)
  fix s cs assume "ready s ((t1 @ t) @ 0x22 # cs)"
  then obtain s' where s': "scan_string_char s = (None, s')" "ready s' (t @ 0x22 # cs)"
    "token_buffer s' = token_buffer s @ v1"
    using assms(1) by (cases "scan_string_char s") (force simp: reads_text_def)
  from s'(1) have "scan_string_loop s = scan_string_loop s'"
    by (subst scan_string_loop.simps) simp
  then show "fst (scan_string_loop s) = Value_string \<and> ready (snd (scan_string_loop s)) cs \<and>
      token_buffer (snd (scan_string_loop s)) = token_buffer s @ v1 @ v"
    using assms(2) s' by (simp add: reads_string_def)
qed

lemma string_text_reads: "string_text t v \<Longrightarrow> reads_string t v"
proof (induction rule: string_text.induct)
  case (plain_text t s n)
  then show ?case using reads_string_append reads_plain by blast
next
  case (escape_text t s e c)
  then show ?case using reads_string_append [OF reads_escape, of e c t s] by simp
next
  case (unicode_text t s h n)
  then show ?case using reads_string_append [OF reads_unicode, of h n t s] by simp
next
  case (pair_text t s h a l b)
  then show ?case using reads_string_append [OF reads_pair, of h a l b t s] by simp
qed (rule reads_string_Nil)

lemma scan_string_ready:
  assumes "ready s (w @ 0x22 # t @ 0x22 # cs)" and "white w" and "string_text t v"
  shows "fst (scan s) = Value_string \<and> token_buffer (snd (scan s)) = v \<and> ready (snd (scan s)) cs"
proof -
  obtain s1 where s1: "scan s = scan_token s1" "current s1 = Some 0x22" "ready s1 (t @ 0x22 # cs)"
    using scan_ready [OF assms(1,2)] by (auto simp: is_ws_def)
  then show ?thesis
    using string_text_reads [OF assms(3)]
    by (simp add: scan_token_def scan_string_def reads_string_def)
qed

section \<open>Numbers\<close>

text \<open>The path of the automaton along a text.\<close>

fun number_path :: "number_state \<Rightarrow> token_type \<Rightarrow> bytes \<Rightarrow> (number_state \<times> token_type) option" where
  "number_path st nt [] = Some (st, nt)"
| "number_path st nt (c # cs) =
     (case number_next st (Some c) of
        Goto st1 \<Rightarrow> number_path st1 (enter_state st1 nt) cs
      | _ \<Rightarrow> None)"

lemma number_path_append:
  "number_path st nt (xs @ ys) =
     (case number_path st nt xs of Some (st1, nt1) \<Rightarrow> number_path st1 nt1 ys | None \<Rightarrow> None)"
  by (induction xs arbitrary: st nt) (simp_all split: number_move.split)

lemma goto_decimal1: "number_next st (Some c) = Goto N_decimal1 \<Longrightarrow> c = 46"
  by (cases st) (auto split: if_splits)

lemma scan_number_path:
  assumes "number_path st nt bs = Some (st', nt')" and "ready s (bs @ cs)"
  shows "\<exists>s'. scan_number_from st nt s = scan_number_from st' nt' s' \<and> ready s' cs \<and>
    token_buffer s' = token_buffer s @ bs"
  using assms
proof (induction bs arbitrary: st nt s)
  case (Cons c bs)
  have g: "current (get s) = Some c" "ready (get s) (bs @ cs)"
    using ready_get [of s c "bs @ cs"] Cons.prems by auto
  obtain st1 where n: "number_next st (Some c) = Goto st1"
    "number_path st1 (enter_state st1 nt) bs = Some (st', nt')"
    using Cons.prems by (auto split: number_move.splits)
  let ?s1 = "add_number_char st1 (get s)"
  have tb: "token_buffer ?s1 = token_buffer s @ [c]"
    using g n(1) goto_decimal1 by (auto simp: add_number_char_def decimal_point_char_def)
  have "ready ?s1 (bs @ cs)" using g by (simp add: ready_def)
  from Cons.IH [OF n(2) this] obtain s' where
    "scan_number_from st1 (enter_state st1 nt) ?s1 = scan_number_from st' nt' s'"
    "ready s' cs" "token_buffer s' = token_buffer s @ c # bs" by (auto simp: tb)
  moreover have "scan_number_from st nt s = scan_number_from st1 (enter_state st1 nt) ?s1"
    using g n(1) by (subst scan_number_from.simps) (simp add: Let_def)
  ultimately show ?case by auto
qed auto

definition number_final :: "number_state \<Rightarrow> bool" where
  "number_final st \<longleftrightarrow> st \<in> {N_zero, N_any1, N_decimal2, N_any2}"

text \<open>What may follow a number.\<close>

definition ends_number :: "bytes \<Rightarrow> bool" where
  "ends_number cs \<longleftrightarrow> (\<forall>c. cs \<noteq> [] \<and> c = hd cs \<longrightarrow> \<not> is_digit c \<and> c \<noteq> 46 \<and> \<not> is_exp c)"

lemma scan_number_from_stop:
  assumes "number_final st" and "ready s cs" and "ends_number cs"
  shows "scan_number_from st nt s = (Inr nt, get s)"
proof (cases cs)
  case Nil
  then show ?thesis
    using ready_get_end [of s] assms
    by (subst scan_number_from.simps) (auto simp: number_final_def Let_def)
next
  case (Cons c cs')
  then have "\<not> is_digit c" "c \<noteq> 46" "\<not> is_exp c" using assms(3) by (auto simp: ends_number_def)
  then show ?thesis
    using ready_get [of s c cs'] assms Cons
    by (subst scan_number_from.simps) (auto simp: number_final_def Let_def)
qed

lemma scan_number_ready:
  assumes s: "current s = Some c" "ready s (bs @ cs)" and "ends_number cs"
    and p: "number_path (number_start c) (enter_state (number_start c) Value_unsigned) bs = Some (st, nt)"
    and "number_final st"
  shows "\<exists>u. scan_number s = scan_number_done nt (get u) \<and> ready u cs \<and> token_buffer u = c # bs"
proof -
  let ?s0 = "reset_token s"
  have r: "ready (add_current ?s0) (bs @ cs)" "token_buffer (add_current ?s0) = [c]"
    using s by simp_all
  from scan_number_path [OF p r(1)] obtain u where
    u: "scan_number_from (number_start c) (enter_state (number_start c) Value_unsigned) (add_current ?s0) =
      scan_number_from st nt u" "ready u cs" "token_buffer u = c # bs" using r(2) by auto
  moreover have "scan_number_from st nt u = (Inr nt, get u)"
    by (rule scan_number_from_stop [OF assms(5) u(2) assms(3)])
  ultimately show ?thesis
    using s by (intro exI [of _ u]) (simp add: scan_number_def Let_def)
qed

lemma digits_path:
  assumes "list_all is_digit ds"
  shows "number_path N_any1 nt ds = Some (N_any1, nt)" "number_path N_any2 nt ds = Some (N_any2, nt)"
    "number_path N_decimal2 nt ds = Some (N_decimal2, nt)"
  using assms by (induction ds) auto

lemma digit_facts: "is_digit c \<Longrightarrow> c \<noteq> 45 \<and> c \<noteq> 46 \<and> c \<noteq> 43 \<and> \<not> is_exp c"
  by (auto simp: is_digit_def is_exp_def)

lemma frac_path:
  assumes "frac_part fr" and "st = N_zero \<or> st = N_any1"
  shows "number_path st nt fr = Some (if fr = [] then (st, nt) else (N_decimal2, Value_float))"
proof (cases fr)
  case (Cons c ds)
  then obtain d ds' where "c = 46" "ds = d # ds'" "is_digit d" "list_all is_digit ds'"
    using assms by (cases ds) (auto simp: frac_part_def)
  then show ?thesis using assms(2) Cons digits_path(3) by (auto simp: is_digit_def is_exp_def)
qed simp

lemma exp_path:
  assumes "exp_part ex" and "st = N_zero \<or> st = N_any1 \<or> st = N_decimal2"
  shows "number_path st nt ex = Some (if ex = [] then (st, nt) else (N_any2, Value_float))"
proof (cases ex)
  case (Cons c bs)
  then have c: "is_exp c" "unsign bs \<noteq> []" "list_all is_digit (unsign bs)"
    using assms(1) by (auto simp: exp_part_def Let_def)
  then have st: "number_path st nt ex = number_path N_exponent Value_float bs"
    using assms(2) Cons digit_facts [of c] by (auto simp: is_exp_def is_digit_def)
  obtain d ds where d: "unsign bs = d # ds" using c(2) by (cases "unsign bs") auto
  then have dg: "is_digit d" "list_all is_digit ds" using c(3) by simp_all
  have "bs = d # ds \<or> (\<exists>e. bs = e # d # ds \<and> (e = 43 \<or> e = 45))"
    using d by (cases bs) (auto simp: unsign_def split: if_splits)
  then have "number_path N_exponent Value_float bs = Some (N_any2, Value_float)"
    using dg digits_path(2) digit_facts [of d] by auto
  with st Cons show ?thesis by simp
qed simp

definition number_kind :: "bool \<Rightarrow> bytes \<Rightarrow> token_type" where
  "number_kind neg rest = (if rest \<noteq> [] then Value_float else if neg then Value_integer else Value_unsigned)"

lemma tail_path:
  assumes "frac_part fr" "exp_part ex" "st = N_zero \<or> st = N_any1"
  shows "\<exists>st'. number_path st nt (fr @ ex) = Some (st', if fr @ ex = [] then nt else Value_float) \<and> number_final st'"
  using assms by (auto simp: number_path_append frac_path exp_path number_final_def)

lemma number_parts_path:
  assumes "int_part ds" "frac_part fr" "exp_part ex"
  shows "\<exists>c bs st. (if neg then [45] else []) @ ds @ fr @ ex = c # bs \<and> (c = 45 \<or> is_digit c) \<and>
    number_path (number_start c) (enter_state (number_start c) Value_unsigned) bs =
      Some (st, number_kind neg (fr @ ex)) \<and> number_final st"
proof -
  obtain d ds' where d: "ds = d # ds'" "is_digit d" "list_all is_digit ds'" "d = 48 \<longrightarrow> ds' = []"
    using assms(1) by (cases ds) (auto simp: int_part_def)
  let ?st = "if d = 48 then N_zero else N_any1"
  have dp: "number_path ?st nt ds' = Some (?st, nt)" for nt using d digits_path(1) by simp
  have start: "number_start d = ?st" "number_start 45 = N_minus" "number_next N_minus (Some d) = Goto ?st"
    "enter_state ?st nt = nt" for nt
    using d(2) digit_facts by (auto simp: number_start_def)
  have st0: "?st = N_zero \<or> ?st = N_any1" by simp
  obtain st where st: "number_path ?st Value_integer (fr @ ex) =
      Some (st, if fr @ ex = [] then Value_integer else Value_float)" "number_final st"
    using tail_path [OF assms(2,3) st0] by blast
  obtain st' where st': "number_path ?st Value_unsigned (fr @ ex) =
      Some (st', if fr @ ex = [] then Value_unsigned else Value_float)" "number_final st'"
    using tail_path [OF assms(2,3) st0] by blast
  show ?thesis
  proof (cases neg)
    case True
    have "number_path N_minus Value_integer (ds @ fr @ ex) = Some (st, number_kind True (fr @ ex))"
      using st(1) dp [of Value_integer] start(3,4)
      by (simp add: d(1) number_path_append number_kind_def del: number_next_simps)
    then show ?thesis using True st(2) start(2) by simp
  next
    case False
    have "number_path ?st Value_unsigned (ds' @ fr @ ex) = Some (st', number_kind False (fr @ ex))"
      using st'(1) dp [of Value_unsigned]
      by (simp add: number_path_append number_kind_def del: number_next_simps)
    then show ?thesis using False st'(2) start(1,4) d(1,2) by (simp del: split_paired_Ex)
  qed
qed

text \<open>The value a token stands for.\<close>

fun token_value :: "token_type \<Rightarrow> Lexer \<Rightarrow> json option" where
  "token_value Literal_null s = Some J_null"
| "token_value Literal_true s = Some (J_bool True)"
| "token_value Literal_false s = Some (J_bool False)"
| "token_value Value_string s = Some (J_string (token_buffer s))"
| "token_value Value_unsigned s = Some (J_unsigned (value_unsigned s))"
| "token_value Value_integer s = Some (J_integer (value_integer s))"
| "token_value Value_float s = Some (J_float (value_float s))"
| "token_value _ s = None"

lemma scan_number_token:
  assumes "ready s (w @ (if neg then [45] else []) @ ds @ fr @ ex @ cs)" "white w" "ends_number cs"
    and "int_part ds" "frac_part fr" "exp_part ex"
  shows "\<exists>u. scan s = scan_number_done (number_kind neg (fr @ ex)) (get u) \<and> ready u cs \<and>
    token_buffer u = (if neg then [45] else []) @ ds @ fr @ ex"
proof -
  obtain c bs st where t: "(if neg then [45] else []) @ ds @ fr @ ex = c # bs" "c = 45 \<or> is_digit c"
    and p: "number_path (number_start c) (enter_state (number_start c) Value_unsigned) bs =
      Some (st, number_kind neg (fr @ ex))" "number_final st"
    using number_parts_path [OF assms(4-6), of neg] by blast
  have e: "w @ (if neg then [45] else []) @ ds @ fr @ ex @ cs = w @ (c # bs) @ cs"
    unfolding t(1) [symmetric] by simp
  have r: "ready s (w @ c # (bs @ cs))" using assms(1) unfolding e by simp
  have nw: "\<not> is_ws (Some c)" "c \<noteq> 47" "c \<noteq> 0xEF" using t(2) by (auto simp: is_ws_def is_digit_def)
  obtain s1 where s1: "scan s = scan_token s1" "current s1 = Some c" "ready s1 (bs @ cs)"
    using scan_ready [OF r assms(2) nw] by blast
  have "scan_token s1 = scan_number s1"
    using t(2) s1(2) by (auto simp: scan_token_def is_digit_def)
  with s1 scan_number_ready [OF s1(2,3) assms(3) p] show ?thesis by (auto simp: t)
qed

lemma ready_value_update [simp]:
  "ready (s\<lparr>value_unsigned := x\<rparr>) = ready s" "ready (s\<lparr>value_integer := x\<rparr>) = ready s"
  "ready (s\<lparr>value_float := y\<rparr>) = ready s"
  by (simp_all add: ready_def fun_eq_iff)

lemma scan_number_text:
  assumes "number_text t v" and "ready s (w @ t @ cs)" "white w" "ends_number cs"
  shows "token_value (fst (scan s)) (snd (scan s)) = Some v \<and> ready (snd (scan s)) cs"
  using assms(1)
proof cases
  case natural_text
  obtain u where u: "scan s = scan_number_done Value_unsigned (get u)" "ready u cs" "token_buffer u = t"
    using scan_number_token [of s w False t "[]" "[]" cs] natural_text assms
    by (auto simp: frac_part_def exp_part_def number_kind_def)
  then show ?thesis
    using ready_unget [OF u(2)]
    by (simp add: scan_number_done_def Let_def strtoull_def natural_text integer_of_def)
next
  case (negative_text ds)
  obtain u where u: "scan s = scan_number_done Value_integer (get u)" "ready u cs" "token_buffer u = 45 # ds"
    using scan_number_token [of s w True ds "[]" "[]" cs] negative_text assms
    by (auto simp: frac_part_def exp_part_def number_kind_def)
  then show ?thesis
    using ready_unget [OF u(2)]
    by (simp add: scan_number_done_def Let_def strtoll_def negative_text integer_of_def)
next
  case (float_text ds fr ex sg)
  have sg: "(if sg = [45] then [45] else []) = sg" using float_text by auto
  obtain u where u: "scan s = scan_number_done Value_float (get u)" "ready u cs" "token_buffer u = t"
    using scan_number_token [of s w "sg = [45]" ds fr ex cs] float_text assms
    unfolding sg by (auto simp: number_kind_def)
  then show ?thesis
    using ready_unget [OF u(2)] by (simp add: scan_number_done_def Let_def float_text)
qed

section \<open>The loop of the parser\<close>

lemma get_token_fields [simp]:
  "last_token (get_token p) = fst (scan (m_lexer p))" "m_lexer (get_token p) = snd (scan (m_lexer p))"
  by (simp_all add: get_token_def split: prod.split)

lemma token_punctuation:
  assumes "ready (m_lexer p) (w @ c # cs)" and "white w" and "punctuation c = Some t"
  shows "last_token (get_token p) = t" "ready (m_lexer (get_token p)) cs"
  using scan_punctuation [OF assms] by simp_all

lemma sax_complete:
  assumes "value_step p d = Inr (None, p1, d1)"
  shows "sax_parse_internal False states p d = sax_parse_internal True states p1 d1"
  using assms by (simp add: sax_parse_internal.simps [of False] sax_parse_internal.simps [of True])

lemma sax_open:
  assumes "value_step p d = Inr (Some b, p1, d1)"
  shows "sax_parse_internal False states p d = sax_parse_internal False (b # states) p1 d1"
  using assms by (simp add: sax_parse_internal.simps [of False states])

lemma sax_state:
  assumes "state_step b p d = Inr (closed, p1, d1)"
  shows "sax_parse_internal True (b # states) p d =
    sax_parse_internal closed (if closed then states else b # states) p1 d1"
  using assms by (simp add: sax_parse_internal.simps [of True])

lemma sax_scalar:
  assumes "token_value (last_token p) (m_lexer p) = Some v" and "finite_number v"
  shows "sax_parse_internal False states p d = sax_parse_internal True states p (handle_value v d)"
  by (rule sax_complete) (use assms in \<open>cases "last_token p"; auto simp: value_step_def\<close>)

lemma array_next:
  assumes "ready (m_lexer p) (w @ 44 # cs)" and "white w"
  shows "sax_parse_internal True (True # states) p d =
      sax_parse_internal False (True # states) (get_token (get_token p)) d"
    and "ready (m_lexer (get_token p)) cs"
  using token_punctuation [OF assms, of Value_separator] sax_state [of True p d False]
  by (simp_all add: punctuation_def state_step_def Let_def)

lemma array_close:
  assumes "ready (m_lexer p) (w @ 93 # cs)" and "white w"
  shows "sax_parse_internal True (True # states) p d =
      sax_parse_internal True states (get_token p) (end_container d)"
    and "ready (m_lexer (get_token p)) cs"
  using token_punctuation [OF assms, of End_array] sax_state [of True p d True]
  by (simp_all add: punctuation_def state_step_def Let_def)

lemma object_next:
  assumes "ready (m_lexer p) (w @ 44 # cs)" and "white w"
    and "parse_key (get_token (get_token p)) d = Inr (p2, d2)"
  shows "sax_parse_internal True (False # states) p d = sax_parse_internal False (False # states) p2 d2"
  using token_punctuation [OF assms(1,2), of Value_separator] sax_state [of False p d False] assms(3)
  by (simp add: punctuation_def state_step_def Let_def)

lemma object_close:
  assumes "ready (m_lexer p) (w @ 125 # cs)" and "white w"
  shows "sax_parse_internal True (False # states) p d =
      sax_parse_internal True states (get_token p) (end_container d)"
    and "ready (m_lexer (get_token p)) cs"
  using token_punctuation [OF assms, of End_object] sax_state [of False p d True]
  by (simp_all add: punctuation_def state_step_def Let_def)

lemma ends_number_white:
  "white w \<Longrightarrow> c = 44 \<or> c = 93 \<or> c = 125 \<Longrightarrow> ends_number (w @ c # cs)"
  by (cases w) (auto simp: ends_number_def is_ws_def is_digit_def is_exp_def)

text \<open>A member's key: \<open>parse_key\<close> sets it and reads the first token of the value.\<close>

lemma parse_key_ready:
  assumes "ready (m_lexer p) (w1 @ 0x22 # kt @ 0x22 # w2 @ 58 # cs)" and "white w1" "white w2"
    and "string_text kt k"
  shows "last_token (get_token p) = Value_string"
    and "parse_key (get_token p) d = Inr (get_token (get_token (get_token p)), object_key k d)"
    and "ready (m_lexer (get_token (get_token p))) cs"
proof -
  have k: "last_token (get_token p) = Value_string" "token_buffer (m_lexer (get_token p)) = k"
    "ready (m_lexer (get_token p)) (w2 @ 58 # cs)"
    using scan_string_ready [OF assms(1,2,4)] by simp_all
  show "last_token (get_token p) = Value_string" by (rule k)
  have n: "last_token (get_token (get_token p)) = Name_separator" "ready (m_lexer (get_token (get_token p))) cs"
    using token_punctuation [OF k(3) assms(3), of Name_separator] by (simp_all add: punctuation_def)
  show "ready (m_lexer (get_token (get_token p))) cs" by (rule n)
  show "parse_key (get_token p) d = Inr (get_token (get_token (get_token p)), object_key k d)"
    using n(1) k by (simp add: parse_key_def Let_def)
qed

text \<open>What reading a value, the elements of an array and the members of an object does.\<close>

definition reads_value :: "bytes \<Rightarrow> json \<Rightarrow> bool" where
  "reads_value t v \<longleftrightarrow>
     (\<forall>p w cs. white w \<longrightarrow> ready (m_lexer p) (w @ t @ cs) \<longrightarrow> ends_number cs \<longrightarrow>
        last_token (get_token p) \<noteq> End_array \<and>
        (\<exists>p'. ready (m_lexer p') cs \<and>
           (\<forall>states d. sax_parse_internal False states (get_token p) d =
              sax_parse_internal True states p' (handle_value v d))))"

definition reads_elements :: "bytes \<Rightarrow> json list \<Rightarrow> bool" where
  "reads_elements t vs \<longleftrightarrow>
     (\<forall>p cs. ready (m_lexer p) (t @ 93 # cs) \<longrightarrow>
        last_token (get_token p) \<noteq> End_array \<and>
        (\<exists>p'. ready (m_lexer p') cs \<and>
           (\<forall>states d xs c. ref_stack d = Array_at xs # c \<longrightarrow>
              sax_parse_internal False (True # states) (get_token p) d =
              sax_parse_internal True states p' (replace_value (J_array (xs @ vs)) (d\<lparr>ref_stack := c\<rparr>)))))"

definition add_members :: "(bytes \<times> json) list \<Rightarrow> (bytes \<times> json) list \<Rightarrow> (bytes \<times> json) list" where
  "add_members kvs o1 = fold (\<lambda>(k, v). obj_set k v) kvs o1"

definition reads_members :: "bytes \<Rightarrow> (bytes \<times> json) list \<Rightarrow> bool" where
  "reads_members t kvs \<longleftrightarrow>
     (\<forall>p cs. ready (m_lexer p) (t @ 125 # cs) \<longrightarrow>
        last_token (get_token p) = Value_string \<and>
        (\<exists>p'. ready (m_lexer p') cs \<and>
           (\<forall>states d o1 k c. ref_stack d = Object_at o1 k # c \<longrightarrow>
              (\<exists>p2 d2. parse_key (get_token p) d = Inr (p2, d2) \<and>
                 sax_parse_internal False (False # states) p2 d2 =
                 sax_parse_internal True states p'
                   (replace_value (J_object (add_members kvs o1)) (d\<lparr>ref_stack := c\<rparr>))))))"

lemma reads_valueD:
  assumes "reads_value t v" "white w" "ready (m_lexer p) (w @ t @ cs)" "ends_number cs"
  shows "last_token (get_token p) \<noteq> End_array"
    and "\<exists>p'. ready (m_lexer p') cs \<and>
      (\<forall>states d. sax_parse_internal False states (get_token p) d = sax_parse_internal True states p' (handle_value v d))"
  using assms unfolding reads_value_def by blast+

lemma reads_scalar:
  assumes "finite_number v"
    and "\<And>s w cs. ready s (w @ t @ cs) \<Longrightarrow> white w \<Longrightarrow> ends_number cs \<Longrightarrow>
      token_value (fst (scan s)) (snd (scan s)) = Some v \<and> ready (snd (scan s)) cs"
  shows "reads_value t v"
  unfolding reads_value_def
proof (intro allI impI)
  fix p :: Parser and w cs
  assume a: "white w" "ready (m_lexer p) (w @ t @ cs)" "ends_number cs"
  let ?p = "get_token p"
  have tv: "token_value (last_token ?p) (m_lexer ?p) = Some v" "ready (m_lexer ?p) cs"
    using assms(2) [OF a(2,1,3)] by simp_all
  then have "last_token ?p \<noteq> End_array" by (cases "last_token ?p") auto
  then show "last_token ?p \<noteq> End_array \<and> (\<exists>p'. ready (m_lexer p') cs \<and>
      (\<forall>states d. sax_parse_internal False states ?p d = sax_parse_internal True states p' (handle_value v d)))"
    using sax_scalar [OF tv(1) assms(1)] tv(2) by blast
qed

lemma reads_simple:
  "reads_value null_literal J_null" "reads_value true_literal (J_bool True)"
  "reads_value false_literal (J_bool False)"
  by (rule reads_scalar, simp, drule scan_literal_ready, assumption, force, simp)+

lemma reads_str: "string_text t v \<Longrightarrow> reads_value (0x22 # t @ [0x22]) (J_string v)"
  by (rule reads_scalar) (use scan_string_ready in simp_all)

lemma reads_num: "number_text t v \<Longrightarrow> finite_number v \<Longrightarrow> reads_value t v"
  by (rule reads_scalar) (use scan_number_text in blast)+

text \<open>Opening a container.\<close>

lemma value_step_array:
  assumes "last_token p = Begin_array"
  shows "value_step p d =
    (if last_token (get_token p) = End_array then Inr (None, get_token p, end_container (start_array d))
     else Inr (Some True, get_token p, start_array d))"
  using assms by (simp add: value_step_def Let_def)

lemma value_step_object:
  assumes "last_token p = Begin_object" and "last_token (get_token p) \<noteq> End_object"
    and "parse_key (get_token p) (start_object d) = Inr (p2, d2)"
  shows "value_step p d = Inr (Some False, p2, d2)"
  using assms by (simp add: value_step_def Let_def)

lemma obj_set_set [simp]: "obj_set k v (obj_set k w o1) = obj_set k v o1"
  by (induction k w o1 rule: obj_set.induct) auto

lemma obj_set_touch [simp]: "obj_set k v (obj_touch k o1) = obj_set k v o1"
  by (simp add: obj_touch_def)

lemma replace_handled [simp]: "replace_value v (handle_value w d) = handle_value v d"
  by (simp add: replace_value_def handle_value_def split: list.split container.split option.split)

lemma start_stack [simp]:
  "ref_stack (start_array d) = Array_at [] # ref_stack (handle_value (J_array []) d)"
  "ref_stack (start_object d) = Object_at [] None # ref_stack (handle_value (J_object []) d)"
  "start_array d\<lparr>ref_stack := ref_stack (handle_value (J_array []) d)\<rparr> = handle_value (J_array []) d"
  "start_object d\<lparr>ref_stack := ref_stack (handle_value (J_object []) d)\<rparr> = handle_value (J_object []) d"
  by (simp_all add: start_array_def start_object_def Let_def)

lemma dom_restore [simp]:
  "end_container (start_array d) = handle_value (J_array []) d"
  "end_container (start_object d) = handle_value (J_object []) d"
  by (simp_all add: end_container_def)

lemma reads_empty_array: "white w' \<Longrightarrow> reads_value (91 # w' @ [93]) (J_array [])"
  unfolding reads_value_def
proof (intro allI impI)
  fix p :: Parser and w cs
  assume a: "white w'" "white w" "ready (m_lexer p) (w @ (91 # w' @ [93]) @ cs)"
  let ?p = "get_token p"
  have b: "last_token ?p = Begin_array" "ready (m_lexer ?p) (w' @ 93 # cs)"
    using token_punctuation [of p w 91 "w' @ 93 # cs"] a by (simp_all add: punctuation_def)
  have e: "last_token (get_token ?p) = End_array" "ready (m_lexer (get_token ?p)) cs"
    using token_punctuation [OF b(2) a(1)] by (simp_all add: punctuation_def)
  have "sax_parse_internal False states ?p d = sax_parse_internal True states (get_token ?p) (handle_value (J_array []) d)"
    for states d
    using b(1) e(1) by (intro sax_complete) (simp add: value_step_array)
  then show "last_token ?p \<noteq> End_array \<and> (\<exists>p'. ready (m_lexer p') cs \<and>
      (\<forall>states d. sax_parse_internal False states ?p d = sax_parse_internal True states p' (handle_value (J_array []) d)))"
    using b(1) e(2) by (intro conjI exI [of _ "get_token ?p"]) simp_all
qed

lemma reads_empty_object: "white w' \<Longrightarrow> reads_value (123 # w' @ [125]) (J_object [])"
  unfolding reads_value_def
proof (intro allI impI)
  fix p :: Parser and w cs
  assume a: "white w'" "white w" "ready (m_lexer p) (w @ (123 # w' @ [125]) @ cs)"
  let ?p = "get_token p"
  have b: "last_token ?p = Begin_object" "ready (m_lexer ?p) (w' @ 125 # cs)"
    using token_punctuation [of p w 123 "w' @ 125 # cs"] a by (simp_all add: punctuation_def)
  have e: "last_token (get_token ?p) = End_object" "ready (m_lexer (get_token ?p)) cs"
    using token_punctuation [OF b(2) a(1)] by (simp_all add: punctuation_def)
  have "sax_parse_internal False states ?p d = sax_parse_internal True states (get_token ?p) (handle_value (J_object []) d)"
    for states d
    using b(1) e(1) by (intro sax_complete) (simp add: value_step_def Let_def)
  then show "last_token ?p \<noteq> End_array \<and> (\<exists>p'. ready (m_lexer p') cs \<and>
      (\<forall>states d. sax_parse_internal False states ?p d = sax_parse_internal True states p' (handle_value (J_object []) d)))"
    using b(1) e(2) by (intro conjI exI [of _ "get_token ?p"]) simp_all
qed

lemma reads_array:
  assumes "reads_elements t vs"
  shows "reads_value (91 # t @ [93]) (J_array vs)"
  unfolding reads_value_def
proof (intro allI impI)
  fix p :: Parser and w cs
  assume a: "white w" "ready (m_lexer p) (w @ (91 # t @ [93]) @ cs)"
  let ?p = "get_token p"
  have b: "last_token ?p = Begin_array" "ready (m_lexer ?p) (t @ 93 # cs)"
    using token_punctuation [of p w 91 "t @ 93 # cs"] a by (simp_all add: punctuation_def)
  have ne: "last_token (get_token ?p) \<noteq> End_array"
    using assms b(2) unfolding reads_elements_def by blast
  obtain p' where p': "ready (m_lexer p') cs" "\<And>states d xs c. ref_stack d = Array_at xs # c \<Longrightarrow>
      sax_parse_internal False (True # states) (get_token ?p) d =
      sax_parse_internal True states p' (replace_value (J_array (xs @ vs)) (d\<lparr>ref_stack := c\<rparr>))"
    using assms b(2) unfolding reads_elements_def by blast
  have "sax_parse_internal False states ?p d = sax_parse_internal True states p' (handle_value (J_array vs) d)"
    for states d
    using p'(2) [of "start_array d" "[]" "ref_stack (handle_value (J_array []) d)" states]
      sax_open [of ?p d True "get_token ?p" "start_array d" states] ne
    by (simp add: value_step_array [OF b(1)])
  then show "last_token ?p \<noteq> End_array \<and> (\<exists>p'. ready (m_lexer p') cs \<and>
      (\<forall>states d. sax_parse_internal False states ?p d = sax_parse_internal True states p' (handle_value (J_array vs) d)))"
    using b(1) p'(1) by auto
qed

lemma reads_object:
  assumes "reads_members t kvs"
  shows "reads_value (123 # t @ [125]) (J_object (object_of kvs))"
  unfolding reads_value_def
proof (intro allI impI)
  fix p :: Parser and w cs
  assume a: "white w" "ready (m_lexer p) (w @ (123 # t @ [125]) @ cs)"
  let ?p = "get_token p"
  have b: "last_token ?p = Begin_object" "ready (m_lexer ?p) (t @ 125 # cs)"
    using token_punctuation [of p w 123 "t @ 125 # cs"] a by (simp_all add: punctuation_def)
  have "last_token (get_token ?p) = Value_string"
    using assms b(2) unfolding reads_members_def by blast
  then have ne: "last_token (get_token ?p) \<noteq> End_object" by simp
  obtain p' where p': "ready (m_lexer p') cs" "\<And>states d o1 k c. ref_stack d = Object_at o1 k # c \<Longrightarrow>
      \<exists>p2 d2. parse_key (get_token ?p) d = Inr (p2, d2) \<and>
        sax_parse_internal False (False # states) p2 d2 =
        sax_parse_internal True states p' (replace_value (J_object (add_members kvs o1)) (d\<lparr>ref_stack := c\<rparr>))"
    using assms b(2) unfolding reads_members_def by blast
  have "sax_parse_internal False states ?p d =
      sax_parse_internal True states p' (handle_value (J_object (object_of kvs)) d)" for states d
  proof -
    obtain p2 d2 where k: "parse_key (get_token ?p) (start_object d) = Inr (p2, d2)"
      and s: "sax_parse_internal False (False # states) p2 d2 = sax_parse_internal True states p'
        (replace_value (J_object (add_members kvs [])) (handle_value (J_object []) d))"
      using p'(2) [of "start_object d" "[]" None "ref_stack (handle_value (J_object []) d)" states] by auto
    show ?thesis
      using sax_open [OF value_step_object [OF b(1) ne k]] s by (simp add: object_of_def add_members_def)
  qed
  then show "last_token ?p \<noteq> End_array \<and> (\<exists>p'. ready (m_lexer p') cs \<and>
      (\<forall>states d. sax_parse_internal False states ?p d =
        sax_parse_internal True states p' (handle_value (J_object (object_of kvs)) d)))"
    using b(1) p'(1) by auto
qed

lemma handle_in_array:
  assumes "ref_stack d = Array_at xs # c"
  shows "ref_stack (handle_value v d) = Array_at (xs @ [v]) # c"
    and "handle_value v d\<lparr>ref_stack := c\<rparr> = d\<lparr>ref_stack := c\<rparr>"
    and "end_container d = replace_value (J_array xs) (d\<lparr>ref_stack := c\<rparr>)"
  using assms by (simp_all add: handle_value_def end_container_def)

lemma handle_in_object:
  fixes v :: json and k :: bytes and d :: Dom
  assumes "ref_stack d = Object_at o1 k' # c"
  defines "d1 \<equiv> handle_value v (object_key k d)"
  shows "ref_stack d1 = Object_at (obj_set k v o1) (Some k) # c"
    and "d1\<lparr>ref_stack := c\<rparr> = d\<lparr>ref_stack := c\<rparr>"
    and "end_container d = replace_value (J_object o1) (d\<lparr>ref_stack := c\<rparr>)"
  using assms by (simp_all add: handle_value_def end_container_def object_key_def)

lemma reads_last_element:
  assumes "white w1" "reads_value t v" "white w2"
  shows "reads_elements (w1 @ t @ w2) [v]"
  unfolding reads_elements_def
proof (intro allI impI)
  fix p :: Parser and cs
  assume a: "ready (m_lexer p) ((w1 @ t @ w2) @ 93 # cs)"
  then have r: "ready (m_lexer p) (w1 @ t @ w2 @ 93 # cs)" by simp
  have en: "ends_number (w2 @ 93 # cs)" using assms(3) by (simp add: ends_number_white)
  note v = reads_valueD [OF assms(2,1) r en]
  obtain p1 where p1: "ready (m_lexer p1) (w2 @ 93 # cs)"
    "\<And>states d. sax_parse_internal False states (get_token p) d = sax_parse_internal True states p1 (handle_value v d)"
    using v(2) by blast
  note cl = array_close [OF p1(1) assms(3)]
  show "last_token (get_token p) \<noteq> End_array \<and> (\<exists>p'. ready (m_lexer p') cs \<and>
      (\<forall>states d xs c. ref_stack d = Array_at xs # c \<longrightarrow>
        sax_parse_internal False (True # states) (get_token p) d =
        sax_parse_internal True states p' (replace_value (J_array (xs @ [v])) (d\<lparr>ref_stack := c\<rparr>))))"
    using v(1) cl(2)
    by (intro conjI exI [of _ "get_token p1"] allI impI)
      (simp_all add: p1(2) cl(1) handle_in_array handle_in_array(3) [OF handle_in_array(1)])
qed

lemma reads_next_element:
  assumes "white w1" "reads_value t v" "white w2" "reads_elements ts vs"
  shows "reads_elements (w1 @ t @ w2 @ 44 # ts) (v # vs)"
  unfolding reads_elements_def
proof (intro allI impI)
  fix p :: Parser and cs
  assume a: "ready (m_lexer p) ((w1 @ t @ w2 @ 44 # ts) @ 93 # cs)"
  then have r: "ready (m_lexer p) (w1 @ t @ w2 @ 44 # ts @ 93 # cs)" by simp
  have en: "ends_number (w2 @ 44 # ts @ 93 # cs)" using assms(3) by (simp add: ends_number_white)
  note v = reads_valueD [OF assms(2,1) r en]
  obtain p1 where p1: "ready (m_lexer p1) (w2 @ 44 # ts @ 93 # cs)"
    "\<And>states d. sax_parse_internal False states (get_token p) d = sax_parse_internal True states p1 (handle_value v d)"
    using v(2) by blast
  note nx = array_next [OF p1(1) assms(3)]
  obtain p' where p': "ready (m_lexer p') cs" "\<And>states d xs c. ref_stack d = Array_at xs # c \<Longrightarrow>
      sax_parse_internal False (True # states) (get_token (get_token p1)) d =
      sax_parse_internal True states p' (replace_value (J_array (xs @ vs)) (d\<lparr>ref_stack := c\<rparr>))"
    using assms(4) nx(2) unfolding reads_elements_def by blast
  show "last_token (get_token p) \<noteq> End_array \<and> (\<exists>p'. ready (m_lexer p') cs \<and>
      (\<forall>states d xs c. ref_stack d = Array_at xs # c \<longrightarrow>
        sax_parse_internal False (True # states) (get_token p) d =
        sax_parse_internal True states p' (replace_value (J_array (xs @ v # vs)) (d\<lparr>ref_stack := c\<rparr>))))"
    using v(1) p'(1)
    by (intro conjI exI [of _ p'] allI impI)
      (simp_all add: p1(2) nx(1) p'(2) [OF handle_in_array(1)] handle_in_array(2))
qed

text \<open>A member: its key, then its value.\<close>

lemma reads_member:
  assumes "white w1" "string_text kt k" "white w2" "white w3" "reads_value t v"
    and "ends_number cs" and "ready (m_lexer p) (w1 @ 0x22 # kt @ 0x22 # w2 @ 58 # w3 @ t @ cs)"
  shows "last_token (get_token p) = Value_string"
    and "\<exists>p'. ready (m_lexer p') cs \<and> (\<forall>states d. \<exists>p2 d2. parse_key (get_token p) d = Inr (p2, d2) \<and>
      sax_parse_internal False states p2 d2 = sax_parse_internal True states p' (handle_value v (object_key k d)))"
proof -
  note k = parse_key_ready [OF assms(7,1,3,2)]
  show "last_token (get_token p) = Value_string" by (rule k)
  obtain p' where "ready (m_lexer p') cs" "\<And>states d. sax_parse_internal False states
      (get_token (get_token (get_token p))) d = sax_parse_internal True states p' (handle_value v d)"
    using reads_valueD(2) [OF assms(5,4) k(3) assms(6)] by blast
  then show "\<exists>p'. ready (m_lexer p') cs \<and> (\<forall>states d. \<exists>p2 d2. parse_key (get_token p) d = Inr (p2, d2) \<and>
      sax_parse_internal False states p2 d2 = sax_parse_internal True states p' (handle_value v (object_key k d)))"
    using k(2) by blast
qed

lemma add_members_simps [simp]:
  "add_members [] o1 = o1" "add_members ((k, v) # kvs) o1 = add_members kvs (obj_set k v o1)"
  by (simp_all add: add_members_def)

lemma reads_last_member:
  assumes "white w1" "string_text kt k" "white w2" "white w3" "reads_value t v" "white w4"
  shows "reads_members (w1 @ 0x22 # kt @ 0x22 # w2 @ 58 # w3 @ t @ w4) [(k, v)]"
  unfolding reads_members_def
proof (intro allI impI)
  fix p :: Parser and cs
  assume "ready (m_lexer p) ((w1 @ 0x22 # kt @ 0x22 # w2 @ 58 # w3 @ t @ w4) @ 125 # cs)"
  then have r: "ready (m_lexer p) (w1 @ 0x22 # kt @ 0x22 # w2 @ 58 # w3 @ t @ w4 @ 125 # cs)" by simp
  have en: "ends_number (w4 @ 125 # cs)" using assms(6) by (simp add: ends_number_white)
  note m = reads_member [OF assms(1-5) en r]
  obtain p1 where p1: "ready (m_lexer p1) (w4 @ 125 # cs)"
    "\<And>states d. \<exists>p2 d2. parse_key (get_token p) d = Inr (p2, d2) \<and>
      sax_parse_internal False states p2 d2 = sax_parse_internal True states p1 (handle_value v (object_key k d))"
    using m(2) by blast
  note cl = object_close [OF p1(1) assms(6)]
  have "\<exists>p2 d2. parse_key (get_token p) d = Inr (p2, d2) \<and>
      sax_parse_internal False (False # states) p2 d2 = sax_parse_internal True states (get_token p1)
        (replace_value (J_object (obj_set k v o1)) (d\<lparr>ref_stack := c\<rparr>))"
    if "ref_stack d = Object_at o1 k' # c" for states and d :: Dom and o1 k' c
    using p1(2) [of d "False # states"]
    by (simp only: cl(1) handle_in_object(3) [OF handle_in_object(1) [OF that]] handle_in_object(2) [OF that])
  then show "last_token (get_token p) = Value_string \<and> (\<exists>p'. ready (m_lexer p') cs \<and>
      (\<forall>states d o1 k' c. ref_stack d = Object_at o1 k' # c \<longrightarrow>
        (\<exists>p2 d2. parse_key (get_token p) d = Inr (p2, d2) \<and> sax_parse_internal False (False # states) p2 d2 =
          sax_parse_internal True states p' (replace_value (J_object (add_members [(k, v)] o1)) (d\<lparr>ref_stack := c\<rparr>)))))"
    using m(1) cl(2)
    by (intro conjI, simp, intro exI [of _ "get_token p1"] conjI, simp, intro allI impI, simp)
qed

lemma reads_next_member:
  assumes "white w1" "string_text kt k" "white w2" "white w3" "reads_value t v" "white w4"
    and "reads_members ts kvs"
  shows "reads_members (w1 @ 0x22 # kt @ 0x22 # w2 @ 58 # w3 @ t @ w4 @ 44 # ts) ((k, v) # kvs)"
  unfolding reads_members_def
proof (intro allI impI)
  fix p :: Parser and cs
  assume "ready (m_lexer p) ((w1 @ 0x22 # kt @ 0x22 # w2 @ 58 # w3 @ t @ w4 @ 44 # ts) @ 125 # cs)"
  then have r: "ready (m_lexer p) (w1 @ 0x22 # kt @ 0x22 # w2 @ 58 # w3 @ t @ w4 @ 44 # ts @ 125 # cs)" by simp
  have en: "ends_number (w4 @ 44 # ts @ 125 # cs)" using assms(6) by (simp add: ends_number_white)
  note m = reads_member [OF assms(1-5) en r]
  obtain p1 where p1: "ready (m_lexer p1) (w4 @ 44 # ts @ 125 # cs)"
    "\<And>states d. \<exists>p2 d2. parse_key (get_token p) d = Inr (p2, d2) \<and>
      sax_parse_internal False states p2 d2 = sax_parse_internal True states p1 (handle_value v (object_key k d))"
    using m(2) by blast
  have t: "ready (m_lexer (get_token p1)) (ts @ 125 # cs)"
    using token_punctuation(2) [OF p1(1) assms(6), of Value_separator] by (simp add: punctuation_def)
  obtain p' where p': "ready (m_lexer p') cs" "\<And>states d o1 k c. ref_stack d = Object_at o1 k # c \<Longrightarrow>
      \<exists>p2 d2. parse_key (get_token (get_token p1)) d = Inr (p2, d2) \<and>
        sax_parse_internal False (False # states) p2 d2 =
        sax_parse_internal True states p' (replace_value (J_object (add_members kvs o1)) (d\<lparr>ref_stack := c\<rparr>))"
    using assms(7) t unfolding reads_members_def by blast
  have "\<exists>p2 d2. parse_key (get_token p) d = Inr (p2, d2) \<and>
      sax_parse_internal False (False # states) p2 d2 = sax_parse_internal True states p'
        (replace_value (J_object (add_members kvs (obj_set k v o1))) (d\<lparr>ref_stack := c\<rparr>))"
    if d: "ref_stack d = Object_at o1 k' # c" for states and d :: Dom and o1 k' c
  proof -
    let ?d1 = "handle_value v (object_key k d)"
    obtain p3 d3 where q: "parse_key (get_token (get_token p1)) ?d1 = Inr (p3, d3)"
      "sax_parse_internal False (False # states) p3 d3 = sax_parse_internal True states p'
        (replace_value (J_object (add_members kvs (obj_set k v o1))) (d\<lparr>ref_stack := c\<rparr>))"
      using p'(2) [OF handle_in_object(1) [OF d, of v k], of states] unfolding handle_in_object(2) [OF d] by blast
    show ?thesis
      using p1(2) [of d "False # states"] object_next [OF p1(1) assms(6) q(1), of states] q(2) by simp
  qed
  then show "last_token (get_token p) = Value_string \<and> (\<exists>p'. ready (m_lexer p') cs \<and>
      (\<forall>states d o1 k' c. ref_stack d = Object_at o1 k' # c \<longrightarrow>
        (\<exists>p2 d2. parse_key (get_token p) d = Inr (p2, d2) \<and> sax_parse_internal False (False # states) p2 d2 =
          sax_parse_internal True states p' (replace_value (J_object (add_members ((k, v) # kvs) o1)) (d\<lparr>ref_stack := c\<rparr>)))))"
    using m(1) p'(1)
    by (intro conjI, simp, intro exI [of _ p'] conjI, simp, intro allI impI, simp)
qed

lemma text_reads:
  "value_text t v \<Longrightarrow> reads_value t v"
  "elements_text t vs \<Longrightarrow> reads_elements t vs"
  "members_text t kvs \<Longrightarrow> reads_members t kvs"
  by (induction rule: value_text_elements_text_members_text.inducts)
    (simp_all only: reads_simple reads_str reads_num reads_empty_array reads_array reads_empty_object
      reads_object reads_last_element reads_next_element reads_last_member reads_next_member)

section \<open>The whole input\<close>

text \<open>What may follow a document: white space, then nothing or a NUL.\<close>

definition ends_input :: "bytes \<Rightarrow> bool" where
  "ends_input cs \<longleftrightarrow> (\<exists>w r. white w \<and> (cs = w \<or> cs = w @ 0 # r))"

lemma white_ends_input [simp]: "white w \<Longrightarrow> ends_input w"
  by (auto simp: ends_input_def)

lemma ends_input_ends_number: "ends_input cs \<Longrightarrow> ends_number cs"
proof -
  assume "ends_input cs"
  then obtain w r where "white w" "cs = w \<or> cs = w @ 0 # r" by (auto simp: ends_input_def)
  then show ?thesis by (cases w) (auto simp: ends_number_def is_ws_def is_digit_def is_exp_def)
qed

lemma scan_ends_input:
  assumes "ready s cs" and "ends_input cs"
  shows "fst (scan s) = End_of_input"
proof -
  obtain w r where w: "white w" "cs = w \<or> cs = w @ 0 # r" using assms(2) by (auto simp: ends_input_def)
  from w(2) show ?thesis
  proof
    assume "cs = w"
    then show ?thesis using scan_end assms(1) w(1) by simp
  next
    assume "cs = w @ 0 # r"
    then obtain s1 where "scan s = scan_token s1" "current s1 = Some 0"
      using scan_ready [of s w 0 r] assms(1) w(1) by (auto simp: is_ws_def)
    then show ?thesis by (simp add: scan_token_def is_digit_def)
  qed
qed

definition bom_ok :: "bytes \<Rightarrow> bool" where
  "bom_ok bom \<longleftrightarrow> bom = [] \<or> bom = [0xEF, 0xBB, 0xBF]"

text \<open>A byte order mark at the beginning of the input is skipped.\<close>

lemma scan_bom:
  assumes "chars_read_total (position s) = 0" and "ready s (0xEF # 0xBB # 0xBF # cs)"
  shows "\<exists>s'. scan s = scan s' \<and> ready s' cs"
proof -
  let ?g1 = "get s" and ?g2 = "get (get s)" and ?g3 = "get (get (get s))"
  have 1: "current ?g1 = Some 0xEF" "ready ?g1 (0xBB # 0xBF # cs)" using ready_get assms(2) by auto
  have 2: "current ?g2 = Some 0xBB" "ready ?g2 (0xBF # cs)" using ready_get 1 by auto
  have 3: "current ?g3 = Some 0xBF" "ready ?g3 cs" using ready_get 2 by auto
  have pos: "chars_read_total (position (get u)) = chars_read_total (position u) + 1" for u
    by (simp add: get_def get_character_def Let_def split: option.split list.split)
  have "chars_read_total (position ?g3) = 3" by (simp add: pos assms(1))
  moreover have "skip_bom s = (True, ?g3)" using 1 2 3 by (simp add: skip_bom_def Let_def)
  ultimately have "scan s = scan ?g3" using assms(1) by (simp add: scan_def)
  with 3 show ?thesis by blast
qed

lemma Parser_ctor_ready:
  assumes "bom_ok bom"
  shows "\<exists>p. Parser_ctor (bom @ cs) flag = get_token p \<and> ready (m_lexer p) cs"
proof -
  let ?s = "Lexer_ctor (bom @ cs) flag"
  let ?p = "\<lparr>last_token = Uninitialized, m_lexer = ?s\<rparr>"
  have r: "ready ?s (bom @ cs)" "chars_read_total (position ?s) = 0"
    by (simp_all add: ready_def lex_ok_def pending_def Lexer_ctor_def)
  show ?thesis
  proof (cases "bom = []")
    case True
    then show ?thesis using r by (intro exI [of _ ?p]) (simp add: Parser_ctor_def)
  next
    case False
    then obtain s' where "scan ?s = scan s'" "ready s' cs"
      using scan_bom [OF r(2), of cs] r(1) assms by (auto simp: bom_ok_def)
    then show ?thesis
      by (intro exI [of _ "?p\<lparr>m_lexer := s'\<rparr>"]) (simp add: Parser_ctor_def get_token_def split: prod.split)
  qed
qed

lemma sax_done: "sax_parse_internal True [] p d = Inr (p, d)"
  by (simp add: sax_parse_internal.simps [of True])

lemma parse_text:
  assumes "value_text t v" and "bom_ok bom" and "white w" and "ends_number rest"
    and "strict \<longrightarrow> ends_input rest"
  shows "parse strict (Parser_ctor (bom @ w @ t @ rest) comments) = Inr v"
proof -
  obtain p where p: "Parser_ctor (bom @ w @ t @ rest) comments = get_token p" "ready (m_lexer p) (w @ t @ rest)"
    using Parser_ctor_ready [OF assms(2)] by blast
  obtain p' where p': "ready (m_lexer p') rest" "\<And>states d. sax_parse_internal False states (get_token p) d =
      sax_parse_internal True states p' (handle_value v d)"
    using reads_valueD(2) [OF text_reads(1) [OF assms(1)] assms(3) p(2) assms(4)] by blast
  have "strict \<Longrightarrow> last_token (get_token p') = End_of_input"
    using scan_ends_input [OF p'(1)] assms(5) by simp
  then show ?thesis
    by (simp add: parse_def p(1) p'(2) sax_done handle_value_def Dom_ctor_def)
qed

text \<open>
  The reader reads every JSON text: an optional byte order mark, white space, a text that
  denotes \<open>v\<close>, and what may follow: when the whole
  input must be used, white space, up to the end or a NUL.
\<close>

theorem reader_reads_every_text:
  assumes "value_text t v" and "bom_ok bom" and "white w" and "ends_number rest"
    and "strict \<longrightarrow> ends_input rest"
  shows "parse strict (Parser_ctor (bom @ w @ t @ rest) comments) = Inr v"
  using assms by (rule parse_text)

theorem reader_reads_every_text_witness:
  "parse True (Parser_ctor [0xEF, 0xBB, 0xBF, 32, 91, 49, 48, 44, 32, 110, 117, 108, 108, 93, 10] False) =
    Inr (J_array [J_unsigned 10, J_null])"
proof -
  have ten: "value_text [49, 48] (J_unsigned 10)"
    using num_text [OF natural_text [of "[49, 48]"]]
    by (simp add: int_part_def is_digit_def integer_of_def digit_val_def)
  have n: "elements_text ([32] @ null_literal @ []) [J_null]"
    by (rule last_element [OF _ null_text]) (simp_all add: is_ws_def)
  have "elements_text ([] @ [49, 48] @ [] @ 44 # [32] @ null_literal @ []) [J_unsigned 10, J_null]"
    by (rule next_element [OF _ ten _ n]) simp_all
  from array_text [OF this]
  have v: "value_text [91, 49, 48, 44, 32, 110, 117, 108, 108, 93] (J_array [J_unsigned 10, J_null])"
    by (simp add: null_literal_def)
  show ?thesis
    using reader_reads_every_text [OF v, of "[0xEF, 0xBB, 0xBF]" "[32]" "[10]" True False]
    by (simp add: bom_ok_def is_ws_def ends_number_def is_digit_def is_exp_def)
qed

end
