(* ===== verification/Json_Overflow.thy ===== *)
theory Json_Overflow
  imports Json_Reader_Spec
begin

text \<open>
  The texts that hold, at any depth and behind any values, a float too large for a double: what is
  read before it is well formed, what comes behind it is arbitrary. The reader throws \<open>out_of_range\<close>
  on each of them.
\<close>

section \<open>Texts with a number that is too large\<close>

inductive overflow_value :: "bytes \<Rightarrow> bool"
  and overflow_elements :: "bytes \<Rightarrow> bool"
  and overflow_members :: "bytes \<Rightarrow> bool" where
  too_large: "number_text t (J_float t) \<Longrightarrow> \<not> float_finite t \<Longrightarrow> ends_number rest \<Longrightarrow> overflow_value (t @ rest)"
| in_array: "overflow_elements t \<Longrightarrow> overflow_value (91 # t)"
| in_object: "overflow_members t \<Longrightarrow> overflow_value (123 # t)"
| this_element: "white w \<Longrightarrow> overflow_value t \<Longrightarrow> overflow_elements (w @ t)"
| later_element: "white w1 \<Longrightarrow> value_text t v \<Longrightarrow> white w2 \<Longrightarrow> overflow_elements ts \<Longrightarrow>
    overflow_elements (w1 @ t @ w2 @ 44 # ts)"
| this_member: "white w1 \<Longrightarrow> string_text kt k \<Longrightarrow> white w2 \<Longrightarrow> white w3 \<Longrightarrow> overflow_value t \<Longrightarrow>
    overflow_members (w1 @ 0x22 # kt @ 0x22 # w2 @ 58 # w3 @ t)"
| later_member: "white w1 \<Longrightarrow> string_text kt k \<Longrightarrow> white w2 \<Longrightarrow> white w3 \<Longrightarrow> value_text t v \<Longrightarrow> white w4 \<Longrightarrow>
    overflow_members ts \<Longrightarrow> overflow_members (w1 @ 0x22 # kt @ 0x22 # w2 @ 58 # w3 @ t @ w4 @ 44 # ts)"

section \<open>The reader throws\<close>

definition overflow_thrown :: "json_exception + (Parser \<times> Dom) \<Rightarrow> bool" where
  "overflow_thrown r \<longleftrightarrow> (\<exists>txt. r = Inl (Exn_out_of_range 406 txt))"

definition throws_value :: "bytes \<Rightarrow> bool" where
  "throws_value t \<longleftrightarrow>
     (\<forall>p w. white w \<longrightarrow> ready (m_lexer p) (w @ t) \<longrightarrow> last_token (get_token p) \<noteq> End_array \<and>
        (\<forall>states d. overflow_thrown (sax_parse_internal False states (get_token p) d)))"

definition throws_elements :: "bytes \<Rightarrow> bool" where
  "throws_elements t \<longleftrightarrow>
     (\<forall>p. ready (m_lexer p) t \<longrightarrow> last_token (get_token p) \<noteq> End_array \<and>
        (\<forall>states d. overflow_thrown (sax_parse_internal False (True # states) (get_token p) d)))"

definition throws_members :: "bytes \<Rightarrow> bool" where
  "throws_members t \<longleftrightarrow>
     (\<forall>p. ready (m_lexer p) t \<longrightarrow> last_token (get_token p) = Value_string \<and>
        (\<forall>states d. \<exists>p2 d2. parse_key (get_token p) d = Inr (p2, d2) \<and>
           overflow_thrown (sax_parse_internal False (False # states) p2 d2)))"

lemma float_token:
  assumes "number_text t (J_float t)" and "ready (m_lexer p) (w @ t @ cs)" "white w" "ends_number cs"
  shows "last_token (get_token p) = Value_float" "value_float (m_lexer (get_token p)) = t"
proof -
  have "token_value (last_token (get_token p)) (m_lexer (get_token p)) = Some (J_float t)"
    using scan_number_text [OF assms] by simp
  then show "last_token (get_token p) = Value_float" "value_float (m_lexer (get_token p)) = t"
    by (cases "last_token (get_token p)"; simp)+
qed

lemma throws_too_large:
  assumes "number_text t (J_float t)" "\<not> float_finite t" "ends_number rest"
  shows "throws_value (t @ rest)"
  unfolding throws_value_def
proof (intro allI impI)
  fix p :: Parser and w assume a: "white w" "ready (m_lexer p) (w @ t @ rest)"
  note f = float_token [OF assms(1) a(2,1) assms(3)]
  have "sax_parse_internal False states (get_token p) d = Inl (number_overflow (get_token p))" for states d
    by (subst sax_parse_internal.simps) (simp only: value_step_def f assms(2), simp)
  then show "last_token (get_token p) \<noteq> End_array \<and>
      (\<forall>states d. overflow_thrown (sax_parse_internal False states (get_token p) d))"
    using f(1) by (simp add: overflow_thrown_def number_overflow_def out_of_range_create_def)
qed

lemma throws_in_array:
  assumes "throws_elements t"
  shows "throws_value (91 # t)"
  unfolding throws_value_def
proof (intro allI impI)
  fix p :: Parser and w assume a: "white w" "ready (m_lexer p) (w @ 91 # t)"
  have b: "last_token (get_token p) = Begin_array" "ready (m_lexer (get_token p)) t"
    using token_punctuation [OF a(2,1)] by (simp_all add: punctuation_def)
  then have t: "last_token (get_token (get_token p)) \<noteq> End_array"
    "overflow_thrown (sax_parse_internal False (True # states) (get_token (get_token p)) d)" for states d
    using assms unfolding throws_elements_def by blast+
  have "value_step (get_token p) d = Inr (Some True, get_token (get_token p), start_array d)" for d
    using value_step_array [OF b(1)] t(1) by simp
  then show "last_token (get_token p) \<noteq> End_array \<and>
      (\<forall>states d. overflow_thrown (sax_parse_internal False states (get_token p) d))"
    using b(1) t(2) by (simp add: sax_open)
qed

lemma throws_in_object:
  assumes "throws_members t"
  shows "throws_value (123 # t)"
  unfolding throws_value_def
proof (intro allI impI)
  fix p :: Parser and w assume a: "white w" "ready (m_lexer p) (w @ 123 # t)"
  have b: "last_token (get_token p) = Begin_object" "ready (m_lexer (get_token p)) t"
    using token_punctuation [OF a(2,1)] by (simp_all add: punctuation_def)
  then have t: "last_token (get_token (get_token p)) = Value_string"
    "\<exists>p2 d2. parse_key (get_token (get_token p)) d = Inr (p2, d2) \<and>
       overflow_thrown (sax_parse_internal False (False # states) p2 d2)" for states d
    using assms unfolding throws_members_def by blast+
  have ne: "last_token (get_token (get_token p)) \<noteq> End_object" using t(1) by simp
  have "overflow_thrown (sax_parse_internal False states (get_token p) d)" for states d
    using t(2) [of "start_object d" states] sax_open [OF value_step_object [OF b(1) ne]] by metis
  then show "last_token (get_token p) \<noteq> End_array \<and>
      (\<forall>states d. overflow_thrown (sax_parse_internal False states (get_token p) d))"
    using b(1) by simp
qed

lemma throws_this_element: "white w \<Longrightarrow> throws_value t \<Longrightarrow> throws_elements (w @ t)"
  unfolding throws_value_def throws_elements_def by blast

lemma throws_later_element:
  assumes "white w1" "reads_value t v" "white w2" "throws_elements ts"
  shows "throws_elements (w1 @ t @ w2 @ 44 # ts)"
  unfolding throws_elements_def
proof (intro allI impI)
  fix p :: Parser assume a: "ready (m_lexer p) (w1 @ t @ w2 @ 44 # ts)"
  have en: "ends_number (w2 @ 44 # ts)" using assms(3) by (simp add: ends_number_white)
  note v = reads_valueD [OF assms(2,1) a en]
  obtain p1 where p1: "ready (m_lexer p1) (w2 @ 44 # ts)"
    "\<And>states d. sax_parse_internal False states (get_token p) d = sax_parse_internal True states p1 (handle_value v d)"
    using v(2) by blast
  note nx = array_next [OF p1(1) assms(3)]
  have "overflow_thrown (sax_parse_internal False (True # states) (get_token (get_token p1)) d)" for states d
    using assms(4) nx(2) unfolding throws_elements_def by blast
  then show "last_token (get_token p) \<noteq> End_array \<and>
      (\<forall>states d. overflow_thrown (sax_parse_internal False (True # states) (get_token p) d))"
    using v(1) by (simp add: p1(2) nx(1))
qed

lemma throws_this_member:
  assumes "white w1" "string_text kt k" "white w2" "white w3" "throws_value t"
  shows "throws_members (w1 @ 0x22 # kt @ 0x22 # w2 @ 58 # w3 @ t)"
  unfolding throws_members_def
proof (intro allI impI)
  fix p :: Parser assume a: "ready (m_lexer p) (w1 @ 0x22 # kt @ 0x22 # w2 @ 58 # w3 @ t)"
  note k = parse_key_ready [OF a assms(1,3,2)]
  have "overflow_thrown (sax_parse_internal False states (get_token (get_token (get_token p))) d)" for states d
    using assms(4,5) k(3) unfolding throws_value_def by blast
  then show "last_token (get_token p) = Value_string \<and>
      (\<forall>states d. \<exists>p2 d2. parse_key (get_token p) d = Inr (p2, d2) \<and>
         overflow_thrown (sax_parse_internal False (False # states) p2 d2))"
    using k(1,2) by blast
qed

lemma throws_later_member:
  assumes "white w1" "string_text kt k" "white w2" "white w3" "reads_value t v" "white w4" "throws_members ts"
  shows "throws_members (w1 @ 0x22 # kt @ 0x22 # w2 @ 58 # w3 @ t @ w4 @ 44 # ts)"
  unfolding throws_members_def
proof (intro allI impI)
  fix p :: Parser assume a: "ready (m_lexer p) (w1 @ 0x22 # kt @ 0x22 # w2 @ 58 # w3 @ t @ w4 @ 44 # ts)"
  have en: "ends_number (w4 @ 44 # ts)" using assms(6) by (simp add: ends_number_white)
  note m = reads_member [OF assms(1-5) en a]
  obtain p1 where p1: "ready (m_lexer p1) (w4 @ 44 # ts)"
    "\<And>states d. \<exists>p2 d2. parse_key (get_token p) d = Inr (p2, d2) \<and>
      sax_parse_internal False states p2 d2 = sax_parse_internal True states p1 (handle_value v (object_key k d))"
    using m(2) by blast
  have t: "ready (m_lexer (get_token p1)) ts"
    using token_punctuation(2) [OF p1(1) assms(6), of Value_separator] by (simp add: punctuation_def)
  have "\<exists>p2 d2. parse_key (get_token (get_token p1)) d = Inr (p2, d2) \<and>
      overflow_thrown (sax_parse_internal False (False # states) p2 d2)" for states d
    using assms(7) t unfolding throws_members_def by blast
  then have "overflow_thrown (sax_parse_internal True (False # states) p1 d)" for states d
    using object_next [OF p1(1) assms(6)] by metis
  then show "last_token (get_token p) = Value_string \<and>
      (\<forall>states d. \<exists>p2 d2. parse_key (get_token p) d = Inr (p2, d2) \<and>
         overflow_thrown (sax_parse_internal False (False # states) p2 d2))"
    using m(1) p1(2) by metis
qed

lemma overflow_throws:
  "overflow_value t \<Longrightarrow> throws_value t"
  "overflow_elements t \<Longrightarrow> throws_elements t"
  "overflow_members t \<Longrightarrow> throws_members t"
proof (induction rule: overflow_value_overflow_elements_overflow_members.inducts)
  case (too_large t rest)
  then show ?case by (rule throws_too_large)
next
  case (later_element w1 t v w2 ts)
  then show ?case using throws_later_element text_reads(1) by metis
next
  case (later_member w1 kt k w2 w3 t v w4 ts)
  then show ?case using throws_later_member text_reads(1) by metis
qed (simp_all only: throws_in_array throws_in_object throws_this_element throws_this_member)

lemma parse_overflow:
  assumes "overflow_value t" and "bom_ok bom" and "white w"
  shows "\<exists>txt. parse strict (Parser_ctor (bom @ w @ t) comments) = Inl (Exn_out_of_range 406 txt)"
proof -
  obtain p where p: "Parser_ctor (bom @ w @ t) comments = get_token p" "ready (m_lexer p) (w @ t)"
    using Parser_ctor_ready [OF assms(2)] by blast
  then have "overflow_thrown (sax_parse_internal False [] (get_token p) (Dom_ctor J_null))"
    using overflow_throws(1) [OF assms(1)] assms(3) unfolding throws_value_def by blast
  then show ?thesis by (auto simp: parse_def p(1) overflow_thrown_def)
qed

end
