(* ===== verification/User_Config_Spec.thy ===== *)
theory User_Config_Spec
  imports User_Config Json_Overflow
begin

text \<open>
  What the configuration of the program is for a given file: each field the value of the last
  member with its name, when that has the right type, and its default otherwise; the defaults for
  a file that is missing or no JSON; the end of the program for a number that is too large.
\<close>

section \<open>Texts\<close>

definition plain :: "bytes \<Rightarrow> bool" where
  "plain s \<longleftrightarrow> list_all (\<lambda>c. 0x20 \<le> c \<and> c < 0x80 \<and> c \<noteq> 0x22 \<and> c \<noteq> 0x5C) s"

lemma plain_string_text: "plain s \<Longrightarrow> string_text s s"
proof (induction s)
  case (Cons c s)
  then have c: "0x20 \<le> unat c" "unat c < 0x80" "c \<noteq> 0x22" "c \<noteq> 0x5C" and s: "string_text s s"
    by (simp_all add: plain_def word_le_nat_alt word_less_nat_alt)
  have "utf8 (unat c) = [c]" using c by (simp add: utf8_def)
  moreover have "unat c \<noteq> 0x22" "unat c \<noteq> 0x5C" using c(3,4) by (simp_all add: word_unat_eq_iff)
  moreover have "scalar_value (unat c)" using c(2) by (simp add: scalar_value_def)
  ultimately show ?case
    using plain_text [OF s, of "unat c"] c(1) by simp
qed (rule empty_text)

lemma map_of_object_of: "map_of (object_of kvs) = map_of (rev kvs)"
proof -
  have "map_of (fold (\<lambda>(k, v). obj_set k v) kvs o1) = map_of o1 ++ map_of (rev kvs)" for o1
    by (induction kvs arbitrary: o1) (auto simp: map_of_obj_set fun_eq_iff map_add_def split: option.split)
  then show ?thesis by (simp add: object_of_def)
qed

section \<open>The fields\<close>

definition member :: "(bytes \<times> json) list \<Rightarrow> bytes \<Rightarrow> json option" where
  "member kvs k = map_of (rev kvs) k"

definition field :: "(bytes \<times> json) list \<Rightarrow> bytes \<Rightarrow> size_t option" where
  "field kvs k = (case member kvs k of Some (J_unsigned n) \<Rightarrow> Some n | _ \<Rightarrow> None)"

definition spec_unsigned :: "(bytes \<times> json) list \<Rightarrow> bytes \<Rightarrow> size_t \<Rightarrow> size_t" where
  "spec_unsigned kvs k dflt = (case field kvs k of Some n \<Rightarrow> n | None \<Rightarrow> dflt)"

text \<open>The profile: the low 32 bits of the number, read as a signed integer.\<close>

definition spec_int :: "(bytes \<times> json) list \<Rightarrow> int option" where
  "spec_int kvs =
     (case member kvs key_profile of
        Some (J_unsigned n) \<Rightarrow> Some (sint (ucast n :: 32 word))
      | Some (J_integer n) \<Rightarrow> Some (sint (ucast n :: 32 word))
      | _ \<Rightarrow> None)"

definition spec_profile :: "(bytes \<times> json) list \<Rightarrow> OverflowProfile" where
  "spec_profile kvs =
     (case spec_int kvs of
        Some p \<Rightarrow> if p = 0 then Block else if p = 1 then DropAll else if p = 2 then DropNonCritical
                  else DropAll
      | None \<Rightarrow> DropAll)"

definition spec_config :: "(bytes \<times> json) list \<Rightarrow> MainConfig" where
  "spec_config kvs =
     \<lparr>usable_ram = spec_unsigned kvs key_usable_ram 16,
      log_size = spec_unsigned kvs key_log_size 1,
      profile = spec_profile kvs,
      thread_num = spec_unsigned kvs key_thread_num 1,
      cfg_max_slabs = spec_unsigned kvs key_max_slabs 10,
      slabs_size = spec_unsigned kvs key_log_size 1\<rparr>"

definition spec_printed :: "(bytes \<times> json) list \<Rightarrow> string list" where
  "spec_printed kvs =
     (case spec_int kvs of
        Some p \<Rightarrow> if 0 \<le> p \<and> p \<le> 2 then [] else [profile_message p]
      | None \<Rightarrow> [])"

lemma unsigned_field_object:
  "unsigned_field trunc k (J_object (object_of kvs)) = Inr (field kvs k)"
  by (auto simp: unsigned_field_def member_def map_of_object_of get_arithmetic_value_def field_def
      split: option.split json.split)

lemma integer_field_object:
  "integer_field trunc key_profile (J_object (object_of kvs)) = Inr (spec_int kvs)"
  by (auto simp: integer_field_def member_def map_of_object_of get_int_def spec_int_def
      split: option.split json.split)

lemma set_fields:
  "set_usable_ram v c = c\<lparr>usable_ram := case v of Some n \<Rightarrow> n | None \<Rightarrow> usable_ram c\<rparr>"
  "set_log_size v c = c\<lparr>log_size := case v of Some n \<Rightarrow> n | None \<Rightarrow> log_size c\<rparr>"
  "set_thread_num v c = c\<lparr>thread_num := case v of Some n \<Rightarrow> n | None \<Rightarrow> thread_num c\<rparr>"
  "set_max_slabs v c = c\<lparr>cfg_max_slabs := case v of Some n \<Rightarrow> n | None \<Rightarrow> cfg_max_slabs c\<rparr>"
  by (simp_all add: set_usable_ram_def set_log_size_def set_thread_num_def set_max_slabs_def
      split: option.split)

lemma set_profile_spec:
  assumes "profile c = DropAll"
  shows "set_profile (spec_int kvs) c = (c\<lparr>profile := spec_profile kvs\<rparr>, spec_printed kvs)"
proof (cases "spec_int kvs")
  case (Some p)
  consider "p = 0" | "p = 1" | "p = 2" | "\<not> (0 \<le> p \<and> p \<le> 2)" by linarith
  then show ?thesis
    using assms Some
    by cases (auto simp: set_profile_def spec_profile_def spec_printed_def profile_of_def)
qed (use assms in \<open>simp add: set_profile_def spec_profile_def spec_printed_def\<close>)

lemma read_fields_object:
  "read_fields trunc64 trunc32 (J_object (object_of kvs)) = Inr (spec_config kvs, spec_printed kvs)"
  by (simp add: read_fields_def unsigned_field_object integer_field_object set_profile_spec set_fields
      default_config_def spec_config_def spec_unsigned_def Let_def cong: option.case_cong)

text \<open>
  C12. The configuration of a file that holds a JSON object: the fields its members give, the
  defaults for the others, whatever follows the object.
\<close>

theorem configuration_of_object:
  assumes "members_text t kvs" and "bom_ok bom" and "white w" and "ends_number rest"
  shows "GetUserCofig trunc64 trunc32 (Some (bom @ w @ 123 # t @ 125 # rest)) =
    Inr (spec_config kvs, spec_printed kvs)"
proof -
  have "stream_in (bom @ w @ (123 # t @ [125]) @ rest) = Inr (J_object (object_of kvs))"
    unfolding stream_in_def
    by (rule parse_text) (use assms in \<open>simp_all add: object_text\<close>)
  then show ?thesis by (simp add: GetUserCofig_def read_fields_object)
qed

text \<open>The configuration file of the repository, \<open>engine/VortexEngine/config.json\<close>.\<close>

definition config_json :: bytes where
  "config_json =
     [123, 10, 32, 32, 34, 117, 115, 97, 98, 108, 101, 95, 114, 97, 109, 34, 58, 32, 49, 50,
      56, 44, 10, 32, 32, 34, 108, 111, 103, 95, 115, 105, 122, 101, 34, 58, 32, 49, 44, 10,
      32, 32, 34, 112, 114, 111, 102, 105, 108, 101, 34, 58, 32, 49, 44, 10, 32, 32, 34, 116,
      104, 114, 101, 97, 100, 95, 110, 117, 109, 34, 58, 32, 49, 44, 10, 32, 32, 34, 109, 97,
      120, 95, 115, 108, 97, 98, 115, 34, 58, 32, 49, 48, 10, 125]"

lemma line_text:
  assumes "plain k" and "int_part ds" and "dec_acc 0 ds < 2 ^ 64"
  shows "members_text (10 # 32 # 32 # 34 # k @ 34 # 58 # 32 # ds @ [10])
      [(k, J_unsigned (word_of_nat (dec_acc 0 ds)))]"
    and "members_text ts kvs \<Longrightarrow> members_text (10 # 32 # 32 # 34 # k @ 34 # 58 # 32 # ds @ 44 # ts)
      ((k, J_unsigned (word_of_nat (dec_acc 0 ds))) # kvs)"
proof -
  have v: "value_text ds (J_unsigned (word_of_nat (dec_acc 0 ds)))"
    using natural_text [OF assms(2)] assms(3) by (intro num_text) (simp_all add: integer_of_def)
  have w: "white [10, 32, 32]" "white []" "white [32]" "white [10]" by (simp_all add: is_ws_def)
  note k = plain_string_text [OF assms(1)]
  show "members_text (10 # 32 # 32 # 34 # k @ 34 # 58 # 32 # ds @ [10])
      [(k, J_unsigned (word_of_nat (dec_acc 0 ds)))]"
    using last_member [OF w(1) k w(2) w(3) v w(4)] by simp
  show "members_text (10 # 32 # 32 # 34 # k @ 34 # 58 # 32 # ds @ 44 # ts)
      ((k, J_unsigned (word_of_nat (dec_acc 0 ds))) # kvs)" if "members_text ts kvs"
    using next_member [OF w(1) k w(2) w(3) v w(2) that] by simp
qed

lemmas key_defs = key_usable_ram_def key_log_size_def key_thread_num_def key_max_slabs_def
  key_profile_def ascii_def

lemma config_json_members:
  "\<exists>t. config_json = 123 # t @ 125 # [] \<and>
    members_text t [(key_usable_ram, J_unsigned 128), (key_log_size, J_unsigned 1),
      (key_profile, J_unsigned 1), (key_thread_num, J_unsigned 1), (key_max_slabs, J_unsigned 10)]"
proof -
  have k: "plain key_usable_ram" "plain key_log_size" "plain key_profile" "plain key_thread_num"
    "plain key_max_slabs"
    by (simp_all add: plain_def key_defs)
  have n: "int_part [49, 50, 56]" "int_part [49]" "int_part [49, 48]"
    by (simp_all add: int_part_def is_digit_def)
  have v: "dec_acc 0 [49, 50, 56] = 128" "dec_acc 0 [49] = 1" "dec_acc 0 [49, 48] = 10"
    by (simp_all add: digit_val_def)
  have "members_text
     (10 # 32 # 32 # 34 # key_usable_ram @ 34 # 58 # 32 # [49, 50, 56] @ 44 #
      10 # 32 # 32 # 34 # key_log_size @ 34 # 58 # 32 # [49] @ 44 #
      10 # 32 # 32 # 34 # key_profile @ 34 # 58 # 32 # [49] @ 44 #
      10 # 32 # 32 # 34 # key_thread_num @ 34 # 58 # 32 # [49] @ 44 #
      10 # 32 # 32 # 34 # key_max_slabs @ 34 # 58 # 32 # [49, 48] @ [10])
     [(key_usable_ram, J_unsigned (word_of_nat (dec_acc 0 [49, 50, 56]))),
      (key_log_size, J_unsigned (word_of_nat (dec_acc 0 [49]))),
      (key_profile, J_unsigned (word_of_nat (dec_acc 0 [49]))),
      (key_thread_num, J_unsigned (word_of_nat (dec_acc 0 [49]))),
      (key_max_slabs, J_unsigned (word_of_nat (dec_acc 0 [49, 48])))]"
    by (intro line_text k n) (simp_all add: digit_val_def)
  then show ?thesis
    unfolding v
    by (intro exI conjI, rotate_tac) (assumption | simp add: config_json_def key_defs)+
qed

theorem configuration_of_object_witness:
  "GetUserCofig (\<lambda>_. 0) (\<lambda>_. 0) (Some config_json) =
    Inr (\<lparr>usable_ram = 128, log_size = 1, profile = DropAll, thread_num = 1, cfg_max_slabs = 10,
      slabs_size = 1\<rparr>, [])"
proof -
  obtain t where t: "config_json = [] @ [] @ 123 # t @ 125 # []"
    "members_text t [(key_usable_ram, J_unsigned 128), (key_log_size, J_unsigned 1),
      (key_profile, J_unsigned 1), (key_thread_num, J_unsigned 1), (key_max_slabs, J_unsigned 10)]"
    using config_json_members by auto
  show ?thesis
    unfolding t(1)
    by (subst configuration_of_object [OF t(2)])
      (simp_all add: bom_ok_def ends_number_def spec_config_def spec_unsigned_def spec_profile_def
        spec_printed_def spec_int_def field_def member_def key_defs)
qed

section \<open>Files that give no configuration\<close>

lemma read_fields_total: "\<exists>c msgs. read_fields trunc64 trunc32 j = Inr (c, msgs)"
proof -
  have u: "\<exists>v. unsigned_field trunc64 k j = Inr v" for k
    by (cases j) (auto simp: unsigned_field_def get_arithmetic_value_def split: json.split)
  have i: "\<exists>v. integer_field trunc32 k j = Inr v" for k
    by (cases j) (auto simp: integer_field_def get_int_def split: json.split)
  obtain a1 a2 a3 a4 a5 where
    "unsigned_field trunc64 key_usable_ram j = Inr a1" "unsigned_field trunc64 key_log_size j = Inr a2"
    "unsigned_field trunc64 key_thread_num j = Inr a3" "unsigned_field trunc64 key_max_slabs j = Inr a4"
    "integer_field trunc32 key_profile j = Inr a5"
    using u i by metis
  then show ?thesis by (simp add: read_fields_def split: prod.split)
qed

text \<open>
  C16. \<open>GetUserCofig\<close> returns: the defaults with one message for a file that cannot be opened or
  is no JSON, a configuration for any other file; the only exception that can leave it is the
  \<open>out_of_range\<close> of a number that is too large.
\<close>

theorem configuration_outcomes:
  "case file of
     None \<Rightarrow> GetUserCofig trunc64 trunc32 file = Inr (default_config, [open_message])
   | Some contents \<Rightarrow>
       (\<exists>at txt. stream_in contents = Inl (Exn_parse_error 101 at txt) \<and>
          GetUserCofig trunc64 trunc32 file =
            Inr (default_config, [syntax_message (Exn_parse_error 101 at txt)])) \<or>
       (\<exists>txt. stream_in contents = Inl (Exn_out_of_range 406 txt) \<and>
          GetUserCofig trunc64 trunc32 file = Inl (Exn_out_of_range 406 txt)) \<or>
       (\<exists>j c msgs. stream_in contents = Inr j \<and> GetUserCofig trunc64 trunc32 file = Inr (c, msgs))"
proof (cases "file")
  case (Some contents)
  show ?thesis
  proof (cases "stream_in contents")
    case (Inl e)
    then have "thrown e" by (rule stream_in_thrown)
    then show ?thesis using Some Inl by (auto simp: thrown_def GetUserCofig_def)
  next
    case (Inr j)
    then show ?thesis using Some read_fields_total [of trunc64 trunc32 j] by (auto simp: GetUserCofig_def)
  qed
qed (simp add: GetUserCofig_def)

text \<open>
  C15. A number too large for a \<open>double\<close>, anywhere in the configuration file, ends the program:
  in the value of a member or in an element, at any depth, behind any number of complete members and
  elements, whatever follows it. The reader throws \<open>out_of_range\<close>, which the configuration's handler
  for \<open>parse_error\<close> does not catch.
\<close>

theorem number_overflow_ends_program:
  assumes "overflow_value t" and "bom_ok bom" and "white w"
  shows "main trunc64 trunc32 (Some (bom @ w @ t)) bind_ok uninit handles mapped mem0 seconds = Terminates"
  using parse_overflow [OF assms, of False False] by (auto simp: main_def GetUserCofig_def stream_in_def)

lemma float_parts_1e999: "float_parts [49, 101, 57, 57, 57] = (1, 999)"
  by code_simp

lemma large_exponent: "342 \<le> e \<Longrightarrow> (2 :: nat) ^ 1024 - 2 ^ 970 < 10 ^ e"
proof -
  assume "342 \<le> e"
  have "(2 :: nat) ^ 1024 - 2 ^ 970 < 2 ^ 1024" by (rule diff_less) (rule zero_less_power, simp)+
  also have "\<dots> \<le> 2 ^ (3 * 342)" by (rule power_increasing) simp_all
  also have "\<dots> = (2 ^ 3) ^ 342" by (rule power_mult)
  also have "\<dots> \<le> 10 ^ 342" by (rule power_mono) simp_all
  also have "\<dots> \<le> 10 ^ e" by (rule power_increasing) (use \<open>342 \<le> e\<close> in simp_all)
  finally show ?thesis .
qed

theorem number_overflow_ends_program_witness:
  "main (\<lambda>_. 0) (\<lambda>_. 0)
    (Some [123, 34, 120, 34, 58, 91, 93, 44, 32, 34, 121, 34, 58, 91, 49, 101, 57, 57, 57, 93, 125])
    True 0 (\<lambda>_. 1) (\<lambda>_. True) blank_memory 0 = Terminates"
proof -
  let ?t = "[49, 101, 57, 57, 57] :: bytes"
  have "number_text ([] @ [49] @ [] @ [101, 57, 57, 57]) (J_float ([] @ [49] @ [] @ [101, 57, 57, 57]))"
    by (rule float_text)
      (simp_all add: int_part_def frac_part_def exp_part_def is_digit_def is_exp_def unsign_def)
  then have n: "number_text ?t (J_float ?t)" by simp
  have f: "\<not> float_finite ?t"
    using large_exponent [of 999] unfolding float_finite_def float_parts_1e999
    by (simp only: prod.case nat_numeral mult_1 if_True zero_le_numeral not_less less_imp_le)
  have k: "string_text [c] [c]" if "plain [c]" for c using that by (rule plain_string_text)
  have "overflow_value (?t @ [93, 125])"
    by (rule too_large [OF n f]) (simp add: ends_number_def is_digit_def is_exp_def)
  then have "overflow_value (91 # ([] @ ?t @ [93, 125]))" by (intro in_array this_element) simp_all
  then have y: "overflow_members ([32] @ 34 # [121] @ 34 # [] @ 58 # [] @ 91 # ([] @ ?t @ [93, 125]))"
    by (intro this_member [OF _ k]) (simp_all add: white_def is_ws_def plain_def)
  have "overflow_value (123 # ([] @ 34 # [120] @ 34 # [] @ 58 # [] @ (91 # [] @ [93]) @ [] @ 44 #
      ([32] @ 34 # [121] @ 34 # [] @ 58 # [] @ 91 # ([] @ ?t @ [93, 125]))))"
    by (intro in_object later_member [OF _ k _ _ empty_array_text _ y]) (simp_all add: white_def plain_def)
  from number_overflow_ends_program [OF this, of "[]" "[]"] show ?thesis
    by (simp add: bom_ok_def white_def)
qed

end
