(* ===== verification/Grisu.thy ===== *)
theory Grisu
  imports Json_Grammar "HOL-Library.Signed_Division"
begin

text \<open>
  The printing of floats, \<open>detail::dtoa_impl\<close>, \<open>detail::to_chars\<close> and \<open>serializer::dump_float\<close> of
  \<open>engine/VortexEngine/json/json.hpp\<close>: the Grisu2 algorithm. A double is its 64 bits. The
  exponents of the code are of type \<open>int\<close> and stay below 2000 in size; here they are integers. The
  digits are written one after the other into \<open>number_buffer\<close>, which has 64 bytes; here the buffer
  is the list of the digits written so far. \<open>JSON_ASSERT\<close> is \<open>assert\<close>, which ends the program.
\<close>

definition JSON_ASSERT :: "bool \<Rightarrow> 'a outcome \<Rightarrow> 'a outcome" where
  "JSON_ASSERT b r = (if b then r else Terminates)"

section \<open>Floating-point numbers with 64 bits of precision\<close>

text \<open>\<open>diyfp\<close>: the number \<open>f * 2 ^ e\<close>.\<close>

record diyfp =
  fp_f :: u64
  fp_e :: int

definition diyfp_of :: "u64 \<Rightarrow> int \<Rightarrow> diyfp" where
  "diyfp_of f e = \<lparr>fp_f = f, fp_e = e\<rparr>"

definition diyfp_sub :: "diyfp \<Rightarrow> diyfp \<Rightarrow> diyfp outcome" where
  "diyfp_sub x y =
     JSON_ASSERT (fp_e x = fp_e y) (JSON_ASSERT (fp_f y \<le> fp_f x) (Done (diyfp_of (fp_f x - fp_f y) (fp_e x))))"

definition diyfp_mul :: "diyfp \<Rightarrow> diyfp \<Rightarrow> diyfp" where
  "diyfp_mul x y =
     (let u_lo = fp_f x AND 0xFFFFFFFF; u_hi = drop_bit 32 (fp_f x);
          v_lo = fp_f y AND 0xFFFFFFFF; v_hi = drop_bit 32 (fp_f y);
          p0 = u_lo * v_lo; p1 = u_lo * v_hi; p2 = u_hi * v_lo; p3 = u_hi * v_hi;
          p0_hi = drop_bit 32 p0;
          p1_lo = p1 AND 0xFFFFFFFF; p1_hi = drop_bit 32 p1;
          p2_lo = p2 AND 0xFFFFFFFF; p2_hi = drop_bit 32 p2;
          Q = p0_hi + p1_lo + p2_lo;
          Q1 = Q + push_bit (64 - 32 - 1) 1;
          h = p3 + p2_hi + p1_hi + drop_bit 32 Q1
      in diyfp_of h (fp_e x + fp_e y + 64))"

text \<open>The loop of \<open>normalize\<close>: a significand that is not zero and has no highest bit grows.\<close>

lemma normalize_grows: "drop_bit 63 (x :: u64) = 0 \<Longrightarrow> x \<noteq> 0 \<Longrightarrow> 2 ^ 64 - unat (push_bit 1 x) < 2 ^ 64 - unat x"
proof -
  assume a: "drop_bit 63 x = 0" "x \<noteq> 0"
  have "drop_bit 63 (unat x) = 0" using a(1) by (metis unat_0 unat_drop_bit_eq)
  then have "unat x < 2 ^ 63" unfolding drop_bit_eq_div by (simp add: div_eq_0_iff)
  then have "unat (push_bit 1 x) = 2 * unat x"
    by (simp add: push_bit_eq_mult unat_word_ariths(2))
  moreover have "0 < unat x" using a(2) by (simp add: unat_gt_0)
  ultimately show ?thesis using \<open>unat x < 2 ^ 63\<close> by simp
qed

function normalize_loop :: "diyfp \<Rightarrow> diyfp outcome" where
  "normalize_loop x =
     (if drop_bit 63 (fp_f x) = 0
      then if fp_f x = 0 then Spins else normalize_loop (diyfp_of (push_bit 1 (fp_f x)) (fp_e x - 1))
      else Done x)"
  by pat_completeness auto
termination
proof (relation "measure (\<lambda>x. 2 ^ 64 - unat (fp_f x))", goal_cases)
  case (2 x)
  then show ?case unfolding in_measure diyfp_of_def diyfp.simps by (rule normalize_grows)
qed (rule wf_measure)

declare normalize_loop.simps [simp del]

definition diyfp_normalize :: "diyfp \<Rightarrow> diyfp outcome" where
  "diyfp_normalize x = JSON_ASSERT (fp_f x \<noteq> 0) (normalize_loop x)"

text \<open>A shift by 64 or more is undefined.\<close>

definition normalize_to :: "diyfp \<Rightarrow> int \<Rightarrow> diyfp outcome" where
  "normalize_to x target_exponent =
     (let delta = fp_e x - target_exponent
      in JSON_ASSERT (0 \<le> delta)
           (if 64 \<le> delta then Undef
            else JSON_ASSERT (drop_bit (nat delta) (push_bit (nat delta) (fp_f x)) = fp_f x)
                   (Done (diyfp_of (push_bit (nat delta) (fp_f x)) target_exponent))))"

section \<open>The boundaries of a double\<close>

definition is_finite :: "u64 \<Rightarrow> bool" where
  "is_finite bits \<longleftrightarrow> drop_bit 52 bits AND 0x7FF \<noteq> 0x7FF"

definition sign_bit :: "u64 \<Rightarrow> bool" where
  "sign_bit bits \<longleftrightarrow> bit bits 63"

text \<open>\<open>kBias\<close> is \<open>1075\<close>, \<open>kMinExp\<close> is \<open>-1074\<close> and \<open>kHiddenBit\<close> is \<open>2 ^ 52\<close>.\<close>

definition compute_boundaries :: "u64 \<Rightarrow> (diyfp \<times> diyfp \<times> diyfp) outcome" where
  "compute_boundaries bits =
     JSON_ASSERT (is_finite bits) (JSON_ASSERT (\<not> sign_bit bits \<and> bits \<noteq> 0)
       (let kHiddenBit = push_bit 52 1;
            E = drop_bit 52 bits;
            F = bits AND (kHiddenBit - 1);
            is_denormal = (E = 0);
            v = (if is_denormal then diyfp_of F (- 1074) else diyfp_of (F + kHiddenBit) (int (unat E) - 1075));
            lower_boundary_is_closer = (F = 0 \<and> 1 < E);
            m_plus = diyfp_of (2 * fp_f v + 1) (fp_e v - 1);
            m_minus = (if lower_boundary_is_closer then diyfp_of (4 * fp_f v - 1) (fp_e v - 2)
                       else diyfp_of (2 * fp_f v - 1) (fp_e v - 1))
        in bind_out (diyfp_normalize m_plus) (\<lambda>w_plus.
           bind_out (normalize_to m_minus (fp_e w_plus)) (\<lambda>w_minus.
           bind_out (diyfp_normalize v) (\<lambda>w. Done (w, w_minus, w_plus))))))"

section \<open>Cached powers of ten\<close>

text \<open>Each row is \<open>f\<close>, \<open>e\<close>, \<open>k\<close> with \<open>f * 2 ^ e\<close> close to \<open>10 ^ k\<close>.\<close>

definition kCachedPowers :: "(u64 \<times> int \<times> int) list" where
  "kCachedPowers =
    [(0xAB70FE17C79AC6CA, - 1060, - 300),
     (0xFF77B1FCBEBCDC4F, - 1034, - 292),
     (0xBE5691EF416BD60C, - 1007, - 284),
     (0x8DD01FAD907FFC3C, - 980, - 276),
     (0xD3515C2831559A83, - 954, - 268),
     (0x9D71AC8FADA6C9B5, - 927, - 260),
     (0xEA9C227723EE8BCB, - 901, - 252),
     (0xAECC49914078536D, - 874, - 244),
     (0x823C12795DB6CE57, - 847, - 236),
     (0xC21094364DFB5637, - 821, - 228),
     (0x9096EA6F3848984F, - 794, - 220),
     (0xD77485CB25823AC7, - 768, - 212),
     (0xA086CFCD97BF97F4, - 741, - 204),
     (0xEF340A98172AACE5, - 715, - 196),
     (0xB23867FB2A35B28E, - 688, - 188),
     (0x84C8D4DFD2C63F3B, - 661, - 180),
     (0xC5DD44271AD3CDBA, - 635, - 172),
     (0x936B9FCEBB25C996, - 608, - 164),
     (0xDBAC6C247D62A584, - 582, - 156),
     (0xA3AB66580D5FDAF6, - 555, - 148),
     (0xF3E2F893DEC3F126, - 529, - 140),
     (0xB5B5ADA8AAFF80B8, - 502, - 132),
     (0x87625F056C7C4A8B, - 475, - 124),
     (0xC9BCFF6034C13053, - 449, - 116),
     (0x964E858C91BA2655, - 422, - 108),
     (0xDFF9772470297EBD, - 396, - 100),
     (0xA6DFBD9FB8E5B88F, - 369, - 92),
     (0xF8A95FCF88747D94, - 343, - 84),
     (0xB94470938FA89BCF, - 316, - 76),
     (0x8A08F0F8BF0F156B, - 289, - 68),
     (0xCDB02555653131B6, - 263, - 60),
     (0x993FE2C6D07B7FAC, - 236, - 52),
     (0xE45C10C42A2B3B06, - 210, - 44),
     (0xAA242499697392D3, - 183, - 36),
     (0xFD87B5F28300CA0E, - 157, - 28),
     (0xBCE5086492111AEB, - 130, - 20),
     (0x8CBCCC096F5088CC, - 103, - 12),
     (0xD1B71758E219652C, - 77, - 4),
     (0x9C40000000000000, - 50, 4),
     (0xE8D4A51000000000, - 24, 12),
     (0xAD78EBC5AC620000, 3, 20),
     (0x813F3978F8940984, 30, 28),
     (0xC097CE7BC90715B3, 56, 36),
     (0x8F7E32CE7BEA5C70, 83, 44),
     (0xD5D238A4ABE98068, 109, 52),
     (0x9F4F2726179A2245, 136, 60),
     (0xED63A231D4C4FB27, 162, 68),
     (0xB0DE65388CC8ADA8, 189, 76),
     (0x83C7088E1AAB65DB, 216, 84),
     (0xC45D1DF942711D9A, 242, 92),
     (0x924D692CA61BE758, 269, 100),
     (0xDA01EE641A708DEA, 295, 108),
     (0xA26DA3999AEF774A, 322, 116),
     (0xF209787BB47D6B85, 348, 124),
     (0xB454E4A179DD1877, 375, 132),
     (0x865B86925B9BC5C2, 402, 140),
     (0xC83553C5C8965D3D, 428, 148),
     (0x952AB45CFA97A0B3, 455, 156),
     (0xDE469FBD99A05FE3, 481, 164),
     (0xA59BC234DB398C25, 508, 172),
     (0xF6C69A72A3989F5C, 534, 180),
     (0xB7DCBF5354E9BECE, 561, 188),
     (0x88FCF317F22241E2, 588, 196),
     (0xCC20CE9BD35C78A5, 614, 204),
     (0x98165AF37B2153DF, 641, 212),
     (0xE2A0B5DC971F303A, 667, 220),
     (0xA8D9D1535CE3B396, 694, 228),
     (0xFB9B7CD9A4A7443C, 720, 236),
     (0xBB764C4CA7A44410, 747, 244),
     (0x8BAB8EEFB6409C1A, 774, 252),
     (0xD01FEF10A657842C, 800, 260),
     (0x9B10A4E5E9913129, 827, 268),
     (0xE7109BFBA19C0C9D, 853, 276),
     (0xAC2820D9623BF429, 880, 284),
     (0x80444B5E7AA7CF85, 907, 292),
     (0xBF21E44003ACDD2D, 933, 300),
     (0x8E679C2F5E44FF8F, 960, 308),
     (0xD433179D9C8CB841, 986, 316),
     (0x9E19DB92B4E31BA9, 1013, 324)]"

text \<open>The divisions truncate; an index out of the table is undefined.\<close>

definition cached_power_index :: "int \<Rightarrow> int" where
  "cached_power_index e =
     (let f = - 60 - e - 1;
          k = (f * 78913) sdiv 2 ^ 18 + (if 0 < f then 1 else 0)
      in (300 + k + (8 - 1)) sdiv 8)"

definition get_cached_power_for_binary_exponent :: "int \<Rightarrow> (u64 \<times> int \<times> int) outcome" where
  "get_cached_power_for_binary_exponent e =
     JSON_ASSERT (- 1500 \<le> e \<and> e \<le> 1500)
       (let index = cached_power_index e
        in JSON_ASSERT (0 \<le> index) (JSON_ASSERT (nat index < length kCachedPowers)
             (case kCachedPowers ! nat index of (cached_f, cached_e, cached_k) \<Rightarrow>
                JSON_ASSERT (- 60 \<le> cached_e + e + 64) (JSON_ASSERT (cached_e + e + 64 \<le> - 32)
                  (Done (cached_f, cached_e, cached_k))))))"

section \<open>Digits\<close>

text \<open>The number of decimal digits and the power of ten of the first one.\<close>

definition find_largest_pow10 :: "u32 \<Rightarrow> nat \<times> u32" where
  "find_largest_pow10 n =
     (if 1000000000 \<le> n then (10, 1000000000)
      else if 100000000 \<le> n then (9, 100000000)
      else if 10000000 \<le> n then (8, 10000000)
      else if 1000000 \<le> n then (7, 1000000)
      else if 100000 \<le> n then (6, 100000)
      else if 10000 \<le> n then (5, 10000)
      else if 1000 \<le> n then (4, 1000)
      else if 100 \<le> n then (3, 100)
      else if 10 \<le> n then (2, 10)
      else (1, 1))"

text \<open>
  The loop of \<open>grisu2_round\<close>: the last digit is decremented while that brings the number closer to
  the value. With \<open>ten_k\<close> zero the loop would not change its condition.
\<close>

function round_loop :: "bytes \<Rightarrow> u64 \<Rightarrow> u64 \<Rightarrow> u64 \<Rightarrow> u64 \<Rightarrow> bytes outcome" where
  "round_loop buf dist delta rest ten_k =
     (if rest < dist \<and> ten_k \<le> delta - rest \<and> (rest + ten_k < dist \<or> rest + ten_k - dist < dist - rest)
      then if ten_k = 0 then Spins
        else JSON_ASSERT (last buf \<noteq> 48)
               (round_loop (butlast buf @ [last buf - 1]) dist delta (rest + ten_k) ten_k)
      else Done buf)"
  by pat_completeness auto
termination
proof (relation "measure (\<lambda>(buf, dist, delta, rest, ten_k). unat (delta - rest))", goal_cases)
  case (2 buf dist delta rest ten_k)
  then have "ten_k \<le> delta - rest" "ten_k \<noteq> 0" by simp_all
  moreover have "0 < unat ten_k" using calculation(2) by (simp add: unat_gt_0)
  ultimately have "unat (delta - rest - ten_k) < unat (delta - rest)"
    by (simp add: unat_sub word_le_nat_alt)
  then show ?case by (simp add: diff_diff_add)
qed simp

declare round_loop.simps [simp del]

definition grisu2_round :: "bytes \<Rightarrow> u64 \<Rightarrow> u64 \<Rightarrow> u64 \<Rightarrow> u64 \<Rightarrow> bytes outcome" where
  "grisu2_round buf dist delta rest ten_k =
     JSON_ASSERT (1 \<le> length buf) (JSON_ASSERT (dist \<le> delta) (JSON_ASSERT (rest \<le> delta)
       (JSON_ASSERT (0 < ten_k) (round_loop buf dist delta rest ten_k))))"

definition digit_char :: "u64 \<Rightarrow> u8" where
  "digit_char d = 48 + ucast d"

text \<open>
  The digits of the integral part; \<open>s\<close> is \<open>-one.e\<close>. The result is the buffer with the exponent to
  be added, when enough digits are there, or only the buffer.
\<close>

fun integral_digits ::
  "nat \<Rightarrow> u64 \<Rightarrow> u64 \<Rightarrow> u64 \<Rightarrow> nat \<Rightarrow> u32 \<Rightarrow> u32 \<Rightarrow> bytes \<Rightarrow> ((bytes \<times> int) + bytes) outcome" where
  "integral_digits s p2 delta dist 0 p1 pow10 buffer = Done (Inr buffer)"
| "integral_digits s p2 delta dist (Suc n) p1 pow10 buffer =
     (if pow10 = 0 then Undef
      else
        let d = p1 div pow10; r = p1 mod pow10
        in JSON_ASSERT (d \<le> 9)
          (let buffer1 = buffer @ [digit_char (ucast d)];
               rest = push_bit s (ucast r) + p2
           in if rest \<le> delta then
                bind_out (grisu2_round buffer1 dist delta rest (push_bit s (ucast pow10)))
                  (\<lambda>buffer2. Done (Inl (buffer2, int n)))
              else integral_digits s p2 delta dist n r (pow10 div 10) buffer1))"

text \<open>
  The loop of the fractional part ends: with each round one more low bit of \<open>p2\<close> is zero, and zero
  is not above \<open>delta\<close>.
\<close>

definition nonzero_tails :: "u64 \<Rightarrow> nat set" where
  "nonzero_tails p = {i. i \<le> 64 \<and> take_bit i p \<noteq> 0}"

lemma nonzero_tails_less:
  fixes p :: u64
  assumes "p' = (p * 10) AND m" and "p' \<noteq> 0"
  shows "card (nonzero_tails p') < card (nonzero_tails p)"
proof -
  have "p \<noteq> 0" using assms by auto
  then have top: "64 \<in> nonzero_tails p" using take_bit_word_eq_self [of 64 p] by (simp add: nonzero_tails_def)
  have fin: "finite (nonzero_tails p)" by (simp add: nonzero_tails_def)
  have step: "take_bit (Suc i) (p * 10) = 0" if z: "take_bit i p = 0" for i
  proof -
    obtain c where "p = 2 ^ i * c" using z unfolding take_bit_eq_0_iff by (elim dvdE)
    then have "p * 10 = 2 ^ Suc i * (c * 5)" by simp
    then show ?thesis unfolding take_bit_eq_0_iff by (rule dvdI)
  qed
  have "nonzero_tails p' \<subseteq> Suc ` (nonzero_tails p - {64})"
  proof
    fix i
    assume i: "i \<in> nonzero_tails p'"
    then have le: "i \<le> 64" and ne: "take_bit i p' \<noteq> 0" by (simp_all add: nonzero_tails_def)
    then obtain j where j: "i = Suc j" by (cases i) auto
    have "take_bit j p \<noteq> 0" using step [of j] ne j by (auto simp: assms(1) take_bit_and)
    then have "j \<in> nonzero_tails p - {64}" using le j by (simp add: nonzero_tails_def)
    then show "i \<in> Suc ` (nonzero_tails p - {64})" using j by blast
  qed
  then have "card (nonzero_tails p') \<le> card (nonzero_tails p - {64})"
    using fin by (metis card_image card_mono finite_Diff finite_imageI inj_Suc inj_on_subset subset_UNIV)
  also have "\<dots> < card (nonzero_tails p)" using fin top by (rule card_Diff1_less)
  finally show ?thesis .
qed

function fraction_digits ::
  "nat \<Rightarrow> u64 \<Rightarrow> u64 \<Rightarrow> u64 \<Rightarrow> bytes \<Rightarrow> int \<Rightarrow> (bytes \<times> int) outcome" where
  "fraction_digits s p2 delta dist buffer m =
     JSON_ASSERT (p2 \<le> (- 1) div 10)
       (let one = push_bit s 1; p = p2 * 10;
            d = drop_bit s p; r = p AND (one - 1)
        in JSON_ASSERT (d \<le> 9)
          (let buffer1 = buffer @ [digit_char d]; delta1 = delta * 10; dist1 = dist * 10
           in if r \<le> delta1 then
                bind_out (grisu2_round buffer1 dist1 delta1 r one) (\<lambda>buffer2. Done (buffer2, m + 1))
              else fraction_digits s r delta1 dist1 buffer1 (m + 1)))"
  by pat_completeness auto
termination
proof (relation "measure (\<lambda>(s, p2, delta, dist, buffer, m). card (nonzero_tails p2))", goal_cases)
  case (2 s p2 delta dist buffer m)
  show ?case using nonzero_tails_less [of _ p2] 2 by fastforce
qed simp

declare fraction_digits.simps [simp del]

definition grisu2_digit_gen ::
  "int \<Rightarrow> diyfp \<Rightarrow> diyfp \<Rightarrow> diyfp \<Rightarrow> (bytes \<times> int) outcome" where
  "grisu2_digit_gen decimal_exponent M_minus w M_plus =
     JSON_ASSERT (- 60 \<le> fp_e M_plus) (JSON_ASSERT (fp_e M_plus \<le> - 32)
       (bind_out (diyfp_sub M_plus M_minus) (\<lambda>delta_fp. bind_out (diyfp_sub M_plus w) (\<lambda>dist_fp.
         let delta = fp_f delta_fp; dist = fp_f dist_fp;
             s = nat (- fp_e M_plus); one = push_bit s 1 :: u64;
             p1 = ucast (drop_bit s (fp_f M_plus)) :: u32;
             p2 = fp_f M_plus AND (one - 1)
         in JSON_ASSERT (0 < p1)
           (case find_largest_pow10 p1 of (k, pow10) \<Rightarrow>
              bind_out (integral_digits s p2 delta dist k p1 pow10 []) (\<lambda>r.
                case r of
                  Inl (buffer, n) \<Rightarrow> Done (buffer, decimal_exponent + n)
                | Inr buffer \<Rightarrow>
                    JSON_ASSERT (delta < p2)
                      (bind_out (fraction_digits s p2 delta dist buffer 0) (\<lambda>(buffer1, m).
                         Done (buffer1, decimal_exponent - m)))))))))"

definition grisu2_scaled :: "diyfp \<Rightarrow> diyfp \<Rightarrow> diyfp \<Rightarrow> (bytes \<times> int) outcome" where
  "grisu2_scaled m_minus v m_plus =
     JSON_ASSERT (fp_e m_plus = fp_e m_minus) (JSON_ASSERT (fp_e m_plus = fp_e v)
       (bind_out (get_cached_power_for_binary_exponent (fp_e m_plus)) (\<lambda>(cached_f, cached_e, cached_k).
          let c_minus_k = diyfp_of cached_f cached_e;
              w = diyfp_mul v c_minus_k;
              w_minus = diyfp_mul m_minus c_minus_k;
              w_plus = diyfp_mul m_plus c_minus_k;
              M_minus = diyfp_of (fp_f w_minus + 1) (fp_e w_minus);
              M_plus = diyfp_of (fp_f w_plus - 1) (fp_e w_plus)
          in grisu2_digit_gen (- cached_k) M_minus w M_plus)))"

definition grisu2 :: "u64 \<Rightarrow> (bytes \<times> int) outcome" where
  "grisu2 bits =
     JSON_ASSERT (is_finite bits) (JSON_ASSERT (\<not> sign_bit bits \<and> bits \<noteq> 0)
       (bind_out (compute_boundaries bits) (\<lambda>(w, minus, plus). grisu2_scaled minus w plus)))"

section \<open>Formatting\<close>

definition append_exponent :: "int \<Rightarrow> bytes outcome" where
  "append_exponent e =
     JSON_ASSERT (- 1000 < e) (JSON_ASSERT (e < 1000)
       (let sg = (if e < 0 then 45 else 43); k = nat \<bar>e\<bar>
        in Done (sg #
             (if k < 10 then [48, word_of_nat (48 + k)]
              else if k < 100 then [word_of_nat (48 + k div 10), word_of_nat (48 + k mod 10)]
              else [word_of_nat (48 + k div 100), word_of_nat (48 + k mod 100 div 10),
                    word_of_nat (48 + k mod 100 mod 10)]))))"

definition format_buffer :: "bytes \<Rightarrow> int \<Rightarrow> int \<Rightarrow> int \<Rightarrow> bytes outcome" where
  "format_buffer buf decimal_exponent min_exp max_exp =
     JSON_ASSERT (min_exp < 0) (JSON_ASSERT (0 < max_exp)
       (let k = int (length buf); n = int (length buf) + decimal_exponent
        in if k \<le> n \<and> n \<le> max_exp then Done (buf @ replicate (nat n - nat k) 48 @ [46, 48])
           else if 0 < n \<and> n \<le> max_exp then
             JSON_ASSERT (n < k) (Done (take (nat n) buf @ 46 # drop (nat n) buf))
           else if min_exp < n \<and> n \<le> 0 then Done (48 # 46 # replicate (nat (- n)) 48 @ buf)
           else
             let mantissa = (if k = 1 then buf else hd buf # 46 # tl buf)
             in bind_out (append_exponent (n - 1)) (\<lambda>ex. Done (mantissa @ 101 # ex))))"

text \<open>\<open>max_digits10\<close> of a double is 17, \<open>digits10\<close> is 15; \<open>room\<close> is \<open>last - first\<close> at the start.\<close>

definition to_chars :: "int \<Rightarrow> u64 \<Rightarrow> bytes outcome" where
  "to_chars room bits =
     JSON_ASSERT (is_finite bits)
       (let sg = (if sign_bit bits then [45] else []);
            bits1 = bits AND mask 63;
            room1 = room - int (length sg)
        in if bits1 = 0 then Done (sg @ [48, 46, 48])
           else JSON_ASSERT (17 \<le> room1)
             (bind_out (grisu2 bits1) (\<lambda>(buf, decimal_exponent).
                JSON_ASSERT (length buf \<le> 17) (JSON_ASSERT (15 + 2 \<le> room1)
                  (JSON_ASSERT (2 + (4 - 1) + 17 \<le> room1) (JSON_ASSERT (17 + 6 \<le> room1)
                    (bind_out (format_buffer buf decimal_exponent (- 4) 15) (\<lambda>t. Done (sg @ t)))))))))"

text \<open>\<open>dump_float\<close>, with the 64 bytes of \<open>number_buffer\<close>.\<close>

definition dump_float :: "u64 \<Rightarrow> bytes outcome" where
  "dump_float x = (if \<not> is_finite x then Done null_literal else to_chars 64 x)"

section \<open>Shifts\<close>

text \<open>A shift to the left that loses no bit.\<close>

lemma unat_push_bit: "unat (x :: u64) * 2 ^ k < 2 ^ 64 \<Longrightarrow> unat (push_bit k x) = unat x * 2 ^ k"
  unfolding unsigned_push_bit_eq by (simp add: push_bit_eq_mult take_bit_eq_mod)

lemma unat_drop_div: "unat (drop_bit k (x :: u64)) = unat x div 2 ^ k"
  unfolding unat_drop_bit_eq drop_bit_eq_div [of k "unat _"] ..

end
