(* ===== verification/Json_Dump.thy ===== *)
theory Json_Dump
  imports Grisu
begin

text \<open>
  \<open>detail::serializer\<close> of \<open>engine/VortexEngine/json/json.hpp\<close>: \<open>dump\<close> with and without indentation,
  \<open>dump_escaped\<close> with its UTF-8 automaton, its buffer and its three error handlers, and
  \<open>dump_integer\<close> with its digit pairs. A float value is the text of its token; the double which
  \<open>std::strtod\<close> makes of that text, \<open>m_value.number_float\<close>, is a parameter, and \<open>dump_float\<close> prints it.
\<close>

section \<open>Integers\<close>

function count_digits_from :: "u64 \<Rightarrow> nat \<Rightarrow> nat" where
  "count_digits_from x n_digits =
     (if x < 10 then n_digits
      else if x < 100 then n_digits + 1
      else if x < 1000 then n_digits + 2
      else if x < 10000 then n_digits + 3
      else count_digits_from (x div 10000) (n_digits + 4))"
  by pat_completeness auto
termination
  by (relation "measure (\<lambda>(x, n). unat x)") (auto simp: word_less_nat_alt unat_div)

declare count_digits_from.simps [simp del]

definition count_digits :: "u64 \<Rightarrow> nat" where
  "count_digits x = count_digits_from x 1"

definition remove_sign :: "u64 \<Rightarrow> u64" where
  "remove_sign x = - (x + 1) + 1"

text \<open>The table \<open>digits_to_99\<close>.\<close>

definition digits_to_99 :: "nat \<Rightarrow> u8 \<times> u8" where
  "digits_to_99 n = (word_of_nat (48 + n div 10), word_of_nat (48 + n mod 10))"

text \<open>The buffer is filled from the end, two digits at a time; \<open>p\<close> is \<open>buffer_ptr\<close>.\<close>

definition write_pair :: "u64 \<Rightarrow> nat \<Rightarrow> bytes \<Rightarrow> bytes" where
  "write_pair i p buf =
     (case digits_to_99 (unat i) of (d1, d0) \<Rightarrow> buf[p - 1 := d0, p - 2 := d1])"

function write_digits :: "u64 \<Rightarrow> nat \<Rightarrow> bytes \<Rightarrow> bytes" where
  "write_digits abs_value p buf =
     (if 100 \<le> abs_value
      then write_digits (abs_value div 100) (p - 2) (write_pair (abs_value mod 100) p buf)
      else if 10 \<le> abs_value then write_pair abs_value p buf
      else buf[p - 1 := word_of_nat (48 + unat abs_value)])"
  by pat_completeness auto
termination
  by (relation "measure (\<lambda>(x, p, buf). unat x)") (auto simp: word_less_nat_alt word_le_nat_alt unat_div)

declare write_digits.simps [simp del]

definition dump_integer :: "bytes \<Rightarrow> bool \<Rightarrow> u64 \<Rightarrow> bytes" where
  "dump_integer number_buffer is_signed x =
     (if x = 0 then [48]
      else
        let neg = is_signed \<and> sint x < 0;
            abs_value = (if neg then remove_sign x else x);
            n_chars = (if neg then 1 + count_digits abs_value else count_digits abs_value);
            buf = (if neg then number_buffer[0 := 45] else number_buffer)
        in take n_chars (write_digits abs_value n_chars buf))"

section \<open>The UTF-8 automaton\<close>

text \<open>The table: the class of each byte, then the transitions, 16 per state.\<close>

definition utf8_classes :: "nat list" where
  "utf8_classes =
     replicate 128 0 @
     replicate 16 1 @ replicate 16 9 @
     replicate 32 7 @
     replicate 2 8 @ replicate 30 2 @
     [0xA] @ replicate 12 3 @ [4, 3, 3] @
     [0xB, 6, 6, 6, 5] @ replicate 11 8"

definition utf8_states :: "nat list" where
  "utf8_states =
     [0, 1, 2, 3, 5, 8, 7, 1, 1, 1, 4, 6, 1, 1, 1, 1] @
     [1, 1, 1, 1, 1, 1, 1, 1, 1, 1, 1, 1, 1, 1, 1, 1] @
     [1, 0, 1, 1, 1, 1, 1, 0, 1, 0, 1, 1, 1, 1, 1, 1] @
     [1, 2, 1, 1, 1, 1, 1, 2, 1, 2, 1, 1, 1, 1, 1, 1] @
     [1, 1, 1, 1, 1, 1, 1, 2, 1, 1, 1, 1, 1, 1, 1, 1] @
     [1, 2, 1, 1, 1, 1, 1, 1, 1, 2, 1, 1, 1, 1, 1, 1] @
     [1, 1, 1, 1, 1, 1, 1, 3, 1, 3, 1, 1, 1, 1, 1, 1] @
     [1, 3, 1, 1, 1, 1, 1, 3, 1, 3, 1, 1, 1, 1, 1, 1] @
     [1, 3, 1, 1, 1, 1, 1, 1, 1, 1, 1, 1, 1, 1, 1, 1]"

definition utf8d :: "nat list" where
  "utf8d = utf8_classes @ utf8_states"

definition UTF8_ACCEPT :: nat where "UTF8_ACCEPT = 0"
definition UTF8_REJECT :: nat where "UTF8_REJECT = 1"

definition decode :: "nat \<Rightarrow> u32 \<Rightarrow> u8 \<Rightarrow> nat \<times> u32" where
  "decode st codep b =
     (let cls = utf8d ! unat b;
          codep1 = (if st \<noteq> UTF8_ACCEPT then (ucast b AND 0x3F) OR push_bit 6 codep
                    else drop_bit cls 0xFF AND ucast b)
      in (utf8d ! (256 + st * 16 + cls), codep1))"

section \<open>Strings\<close>

datatype error_handler_t = Strict | Replace | Ignore

text \<open>
  The locals of \<open>dump_escaped\<close>; \<open>string_buffer\<close> is the part of the buffer in use, whose length
  is \<open>bytes\<close>, and \<open>written\<close> what has gone to the output.
\<close>

record Escape =
  state :: nat
  codepoint :: u32
  string_buffer :: bytes
  bytes_after_last_accept :: nat
  undumped_chars :: nat
  written :: bytes

definition Escape_init :: Escape where
  "Escape_init =
     \<lparr>state = UTF8_ACCEPT, codepoint = 0, string_buffer = [], bytes_after_last_accept = 0,
      undumped_chars = 0, written = []\<rparr>"

definition hex_lower :: "nat \<Rightarrow> u8" where
  "hex_lower n = (if n < 10 then word_of_nat (48 + n) else word_of_nat (87 + n))"

text \<open>\<open>snprintf\<close> with the format \<open>\u%04x\<close>.\<close>

definition print_u :: "nat \<Rightarrow> bytes" where
  "print_u n =
     [0x5C, 0x75, hex_lower (n div 4096 mod 16), hex_lower (n div 256 mod 16),
      hex_lower (n div 16 mod 16), hex_lower (n mod 16)]"

definition hex_bytes :: "u8 \<Rightarrow> string" where
  "hex_bytes b = [hex_digits ! (unat b div 16), hex_digits ! (unat b mod 16)]"

text \<open>The bytes added to the buffer for a code point whose last byte is \<open>b\<close>.\<close>

definition short_escape :: "u32 \<Rightarrow> u8 option" where
  "short_escape cp =
     (if cp = 0x08 then Some 0x62
      else if cp = 0x09 then Some 0x74
      else if cp = 0x0A then Some 0x6E
      else if cp = 0x0C then Some 0x66
      else if cp = 0x0D then Some 0x72
      else if cp = 0x22 then Some 0x22
      else if cp = 0x5C then Some 0x5C
      else None)"

definition escape_codepoint :: "bool \<Rightarrow> u32 \<Rightarrow> u8 \<Rightarrow> bytes" where
  "escape_codepoint ensure_ascii cp b =
     (case short_escape cp of
        Some c \<Rightarrow> [0x5C, c]
      | None \<Rightarrow>
          if cp \<le> 0x1F \<or> ensure_ascii \<and> 0x7F \<le> cp then
            (if cp \<le> 0xFFFF then print_u (unat cp)
             else print_u (unat (0xD7C0 + drop_bit 10 cp)) @ print_u (unat (0xDC00 + (cp AND 0x3FF))))
          else [b])"

definition flush :: "Escape \<Rightarrow> Escape" where
  "flush e =
     (if 512 - length (string_buffer e) < 13
      then e\<lparr>written := written e @ string_buffer e, string_buffer := []\<rparr> else e)"

definition accept :: "bool \<Rightarrow> u8 \<Rightarrow> Escape \<Rightarrow> Escape" where
  "accept ensure_ascii b e =
     (let e1 = flush (e\<lparr>string_buffer := string_buffer e @ escape_codepoint ensure_ascii (codepoint e) b\<rparr>)
      in e1\<lparr>bytes_after_last_accept := length (string_buffer e1), undumped_chars := 0\<rparr>)"

definition replacement :: "bool \<Rightarrow> bytes" where
  "replacement ensure_ascii =
     (if ensure_ascii then [0x5C, 0x75, 0x66, 0x66, 0x66, 0x64] else [0xEF, 0xBF, 0xBD])"

definition reject :: "error_handler_t \<Rightarrow> bool \<Rightarrow> Escape \<Rightarrow> Escape" where
  "reject handler ensure_ascii e =
     (let e1 = e\<lparr>string_buffer := take (bytes_after_last_accept e) (string_buffer e)\<rparr>;
          e2 = (if handler = Replace then
                  (let e' = flush (e1\<lparr>string_buffer := string_buffer e1 @ replacement ensure_ascii\<rparr>)
                   in e'\<lparr>bytes_after_last_accept := length (string_buffer e')\<rparr>)
                else e1)
      in e2\<lparr>undumped_chars := 0, state := UTF8_ACCEPT\<rparr>)"

definition incomplete :: "bool \<Rightarrow> u8 \<Rightarrow> Escape \<Rightarrow> Escape" where
  "incomplete ensure_ascii b e =
     (let e1 = (if ensure_ascii then e else e\<lparr>string_buffer := string_buffer e @ [b]\<rparr>)
      in e1\<lparr>undumped_chars := undumped_chars e1 + 1\<rparr>)"

definition invalid_byte :: "nat \<Rightarrow> u8 \<Rightarrow> json_exception" where
  "invalid_byte i b =
     type_error_create 316 (''invalid UTF-8 byte at index '' @ nat_string i @ '': 0x'' @ hex_bytes b)"

definition incomplete_string :: "u8 \<Rightarrow> json_exception" where
  "incomplete_string b =
     type_error_create 316 (''incomplete UTF-8 string; last byte: 0x'' @ hex_bytes b)"

lemma reject_undumped: "undumped_chars (reject h a e) = 0"
  by (simp add: reject_def Let_def)

text \<open>The loop over the string, \<open>i\<close> the index of its rest; a rejected byte may be read again.\<close>

function escape_loop ::
  "error_handler_t \<Rightarrow> bool \<Rightarrow> nat \<Rightarrow> bytes \<Rightarrow> Escape \<Rightarrow> json_exception + Escape" where
  "escape_loop handler asc i [] e = Inr e"
| "escape_loop handler asc i (b # bs) e =
     (case decode (state e) (codepoint e) b of (st, cp) \<Rightarrow>
        let e1 = e\<lparr>state := st, codepoint := cp\<rparr>
        in if st = UTF8_ACCEPT then escape_loop handler asc (i + 1) bs (accept asc b e1)
           else if st = UTF8_REJECT then
             (if handler = Strict then Inl (invalid_byte i b)
              else if 0 < undumped_chars e1
              then escape_loop handler asc i (b # bs) (reject handler asc e1)
              else escape_loop handler asc (i + 1) bs (reject handler asc e1))
           else escape_loop handler asc (i + 1) bs (incomplete asc b e1))"
  by pat_completeness auto
termination
  by (relation "measures [\<lambda>(h, a, i, bs, e). length bs, \<lambda>(h, a, i, bs, e). undumped_chars e]")
    (simp_all add: reject_undumped)

definition dump_escaped :: "error_handler_t \<Rightarrow> bool \<Rightarrow> bytes \<Rightarrow> json_exception + bytes" where
  "dump_escaped handler ensure_ascii s =
     (case escape_loop handler ensure_ascii 0 s Escape_init of
        Inl e \<Rightarrow> Inl e
      | Inr e \<Rightarrow>
          if state e = UTF8_ACCEPT then Inr (written e @ string_buffer e)
          else if handler = Strict then Inl (incomplete_string (last s))
          else Inr (written e @ take (bytes_after_last_accept e) (string_buffer e) @
                    (if handler = Replace then replacement ensure_ascii else [])))"

section \<open>Values\<close>

text \<open>
  The serializer's settings, and \<open>number_float\<close>, the double \<open>std::strtod\<close> makes of the text of a
  float. Its only state is \<open>indent_string\<close>, passed along: \<open>dump\<close> returns the
  characters written and that string, an exception, or undefined behaviour.
\<close>

record Serializer =
  error_handler :: error_handler_t
  ensure_ascii :: bool
  number_float :: "bytes \<Rightarrow> u64"

type_synonym dumped = "(json_exception + bytes \<times> bytes) outcome"

definition number_buffer :: bytes where
  "number_buffer = replicate 64 0"

definition put :: "bytes \<Rightarrow> bytes \<Rightarrow> dumped" where
  "put t ind = Done (Inr (t, ind))"

definition and_then :: "dumped \<Rightarrow> (bytes \<Rightarrow> bytes \<Rightarrow> dumped) \<Rightarrow> dumped" where
  "and_then r f = bind_out r (\<lambda>x. case x of Inl e \<Rightarrow> Done (Inl e) | Inr (t, ind) \<Rightarrow> f t ind)"

text \<open>
  The indentation string is doubled, with spaces, when it is too short for the new level; then as
  many of its characters are written as the level asks for. \<open>c_str ()\<close> has one null byte behind
  the characters of the string; reading further is undefined.
\<close>

definition grow_indent :: "bytes \<Rightarrow> u32 \<Rightarrow> bytes" where
  "grow_indent ind n = (if length ind < unat n then ind @ replicate (length ind) 32 else ind)"

definition write_indent :: "bytes \<Rightarrow> u32 \<Rightarrow> bytes outcome" where
  "write_indent ind n = (if length ind + 1 < unat n then Undef else Done (take (unat n) (ind @ [0])))"

definition indented :: "bool \<Rightarrow> bytes \<Rightarrow> u32 \<Rightarrow> (bytes \<Rightarrow> dumped) \<Rightarrow> dumped" where
  "indented pretty ind n f = (if pretty then bind_out (write_indent ind n) f else f [])"

text \<open>The new level and its indentation string, and what pretty printing adds to the separators.\<close>

definition new_level :: "bool \<Rightarrow> u32 \<Rightarrow> u32 \<Rightarrow> bytes \<Rightarrow> u32 \<times> bytes" where
  "new_level pretty indent_step current_indent ind =
     (if pretty then (current_indent + indent_step, grow_indent ind (current_indent + indent_step))
      else (current_indent, ind))"

abbreviation newline :: "bool \<Rightarrow> bytes" where
  "newline pretty \<equiv> if pretty then [10] else []"

abbreviation space :: "bool \<Rightarrow> bytes" where
  "space pretty \<equiv> if pretty then [32] else []"

definition dump_byte :: "u8 \<Rightarrow> bytes" where
  "dump_byte b = dump_integer number_buffer False (ucast b)"

fun dump_bytes :: "bool \<Rightarrow> bytes \<Rightarrow> bytes" where
  "dump_bytes pretty [] = []"
| "dump_bytes pretty [b] = dump_byte b"
| "dump_bytes pretty (b # bs) = dump_byte b @ 44 # space pretty @ dump_bytes pretty bs"

definition bytes_text :: bytes where "bytes_text = [34, 98, 121, 116, 101, 115, 34, 58]"
definition subtype_text :: bytes where "subtype_text = [34, 115, 117, 98, 116, 121, 112, 101, 34, 58]"
definition discarded_text :: bytes where "discarded_text = [60, 100, 105, 115, 99, 97, 114, 100, 101, 100, 62]"

fun dump :: "Serializer \<Rightarrow> bool \<Rightarrow> u32 \<Rightarrow> u32 \<Rightarrow> bytes \<Rightarrow> json \<Rightarrow> dumped"
  and dump_elements :: "Serializer \<Rightarrow> bool \<Rightarrow> u32 \<Rightarrow> u32 \<Rightarrow> bytes \<Rightarrow> json list \<Rightarrow> dumped"
  and dump_members :: "Serializer \<Rightarrow> bool \<Rightarrow> u32 \<Rightarrow> u32 \<Rightarrow> bytes \<Rightarrow> (bytes \<times> json) list \<Rightarrow> dumped" where
  "dump z pretty step cur ind (J_object o1) =
     (if o1 = [] then put [123, 125] ind
      else
        case new_level pretty step cur ind of (new, ind1) \<Rightarrow>
          and_then (dump_members z pretty step new ind1 o1) (\<lambda>t ind2.
            indented pretty ind2 cur (\<lambda>w. put (123 # newline pretty @ t @ newline pretty @ w @ [125]) ind2)))"
| "dump z pretty step cur ind (J_array xs) =
     (if xs = [] then put [91, 93] ind
      else
        case new_level pretty step cur ind of (new, ind1) \<Rightarrow>
          and_then (dump_elements z pretty step new ind1 xs) (\<lambda>t ind2.
            indented pretty ind2 cur (\<lambda>w. put (91 # newline pretty @ t @ newline pretty @ w @ [93]) ind2)))"
| "dump z pretty step cur ind (J_string s) =
     (case dump_escaped (error_handler z) (ensure_ascii z) s of
        Inl e \<Rightarrow> Done (Inl e)
      | Inr t \<Rightarrow> put (34 # t @ [34]) ind)"
| "dump z pretty step cur ind (J_binary bs st) =
     (case new_level pretty step cur ind of (new, ind1) \<Rightarrow>
        indented pretty ind1 new (\<lambda>w1. indented pretty ind1 cur (\<lambda>w2.
          put (123 # newline pretty @ w1 @ bytes_text @ space pretty @ 91 # dump_bytes pretty bs @ 93 # 44 #
               newline pretty @ w1 @ subtype_text @ space pretty @
               (case st of None \<Rightarrow> null_literal | Some n \<Rightarrow> dump_integer number_buffer False n) @
               newline pretty @ w2 @ [125]) ind1)))"
| "dump z pretty step cur ind (J_bool b) = put (if b then true_literal else false_literal) ind"
| "dump z pretty step cur ind (J_integer x) = put (dump_integer number_buffer True x) ind"
| "dump z pretty step cur ind (J_unsigned x) = put (dump_integer number_buffer False x) ind"
| "dump z pretty step cur ind (J_float t) = bind_out (dump_float (number_float z t)) (\<lambda>w. put w ind)"
| "dump z pretty step cur ind J_discarded = put discarded_text ind"
| "dump z pretty step cur ind J_null = put null_literal ind"
| "dump_elements z pretty step cur ind [] = put [] ind"
| "dump_elements z pretty step cur ind (x # xs) =
     indented pretty ind cur (\<lambda>w.
       and_then (dump z pretty step cur ind x) (\<lambda>t ind1.
         if xs = [] then put (w @ t) ind1
         else and_then (dump_elements z pretty step cur ind1 xs) (\<lambda>ts ind2.
           put (w @ t @ 44 # newline pretty @ ts) ind2)))"
| "dump_members z pretty step cur ind [] = put [] ind"
| "dump_members z pretty step cur ind (kv # o1) =
     indented pretty ind cur (\<lambda>w.
       case dump_escaped (error_handler z) (ensure_ascii z) (fst kv) of
         Inl e \<Rightarrow> Done (Inl e)
       | Inr k \<Rightarrow>
           and_then (dump z pretty step cur ind (snd kv)) (\<lambda>t ind1.
             if o1 = [] then put (w @ 34 # k @ 34 # 58 # space pretty @ t) ind1
             else and_then (dump_members z pretty step cur ind1 o1) (\<lambda>ts ind2.
               put (w @ 34 # k @ 34 # 58 # space pretty @ t @ 44 # newline pretty @ ts) ind2)))"

text \<open>\<open>basic_json::dump\<close>; a negative \<open>indent\<close>, the default, asks for the compact form.\<close>

definition basic_dump ::
  "(bytes \<Rightarrow> u64) \<Rightarrow> 32 word \<Rightarrow> u8 \<Rightarrow> bool \<Rightarrow> error_handler_t \<Rightarrow> json \<Rightarrow> (json_exception + bytes) outcome" where
  "basic_dump nf indent indent_char asc handler j =
     (let z = \<lparr>error_handler = handler, ensure_ascii = asc, number_float = nf\<rparr>;
          indent_string = replicate 512 indent_char
      in bind_out
           (if 0 \<le> sint indent then dump z True indent 0 indent_string j
            else dump z False 0 0 indent_string j)
           (\<lambda>r. Done (map_sum id fst r)))"

end
