(* ===== verification/Grisu_Digits.thy ===== *)
theory Grisu_Digits
  imports Grisu
begin

text \<open>
  The digit generation of Grisu2: whatever the three numbers it is given, no assertion fails, and
  the decimal number it writes lies between the first and the last of them.
\<close>

section \<open>Rounding\<close>

lemma digit_bytes: "d \<le> 9 \<Longrightarrow> (word_of_nat (48 + d) :: u8) \<noteq> 48 \<longleftrightarrow> 0 < d"
  using unat_digit [of d] by (simp add: word_unat_eq_iff del: of_nat_add)

lemma round_loop_ok:
  "rest \<le> delta \<Longrightarrow> 0 < ten_k \<Longrightarrow> unat delta < unat rest + d * unat ten_k \<Longrightarrow> d \<le> 9 \<Longrightarrow>
   \<exists>i<d. round_loop (xs @ [word_of_nat (48 + d)]) dist delta rest ten_k = Done (xs @ [word_of_nat (48 + (d - i))]) \<and>
     unat rest + i * unat ten_k \<le> unat delta"
proof (induction d arbitrary: rest)
  case 0
  then show ?case by (simp add: word_le_nat_alt)
next
  case (Suc d)
  let ?buf = "xs @ [word_of_nat (48 + Suc d) :: u8]"
  show ?case
  proof (cases "rest < dist \<and> ten_k \<le> delta - rest \<and> (rest + ten_k < dist \<or> rest + ten_k - dist < dist - rest)")
    case True
    have le: "unat rest + unat ten_k \<le> unat delta"
    proof -
      have "unat ten_k \<le> unat delta - unat rest" using True Suc.prems(1) by (metis unat_sub word_le_nat_alt)
      then show ?thesis using Suc.prems(1) unfolding word_le_nat_alt by linarith
    qed
    then have u: "unat (rest + ten_k) = unat rest + unat ten_k"
      using unat_lt2p [of delta] by (intro unat_add_small) simp
    have "(word_of_nat (48 + Suc d) :: u8) - 1 = word_of_nat (48 + d)" by simp
    moreover have "last ?buf \<noteq> 48" using digit_bytes [of "Suc d"] Suc.prems(4) by simp
    ultimately have step: "round_loop ?buf dist delta rest ten_k =
        round_loop (xs @ [word_of_nat (48 + d)]) dist delta (rest + ten_k) ten_k"
      using True Suc.prems(2) word_gt_0 [of ten_k] by (subst round_loop.simps) (simp add: JSON_ASSERT_def)
    obtain i where "i < d" "round_loop (xs @ [word_of_nat (48 + d)]) dist delta (rest + ten_k) ten_k =
        Done (xs @ [word_of_nat (48 + (d - i))])" "unat rest + unat ten_k + i * unat ten_k \<le> unat delta"
      using Suc.IH [of "rest + ten_k"] le Suc.prems u by (auto simp: word_le_nat_alt)
    then show ?thesis unfolding step by (intro exI [of _ "Suc i"]) simp
  next
    case False
    then have "round_loop ?buf dist delta rest ten_k = Done ?buf" by (subst round_loop.simps) (rule if_not_P)
    then show ?thesis using Suc.prems(1) by (intro exI [of _ 0]) (simp add: word_le_nat_alt)
  qed
qed

lemma grisu2_round_ok:
  assumes "rest \<le> delta" and "dist \<le> delta" and "0 < ten_k" and "unat delta < unat rest + d * unat ten_k" and "d \<le> 9"
  obtains i where "i < d" and "unat rest + i * unat ten_k \<le> unat delta"
    and "grisu2_round (xs @ [word_of_nat (48 + d)]) dist delta rest ten_k = Done (xs @ [word_of_nat (48 + (d - i))])"
proof -
  from round_loop_ok [OF assms(1,3,4,5), of xs dist] obtain i where "i < d"
    "round_loop (xs @ [word_of_nat (48 + d)]) dist delta rest ten_k = Done (xs @ [word_of_nat (48 + (d - i))])"
    "unat rest + i * unat ten_k \<le> unat delta" by blast
  with that assms(1-3) show thesis by (simp add: grisu2_round_def JSON_ASSERT_def)
qed

section \<open>Digits and their number\<close>

definition decimal :: "bytes \<Rightarrow> nat \<Rightarrow> bool" where
  "decimal buf n \<longleftrightarrow> list_all is_digit buf \<and> dec_acc 0 buf = n \<and> (buf \<noteq> [] \<longrightarrow> hd buf \<noteq> 48)"

lemma decimal_Nil: "decimal [] 0"
  by (simp add: decimal_def)

lemma decimal_snoc:
  assumes "decimal buf n" and "d \<le> 9" and "buf = [] \<Longrightarrow> 0 < d"
  shows "decimal (buf @ [word_of_nat (48 + d)]) (10 * n + d)"
  using assms is_digit_digit [of d] digit_val_digit [of d] digit_bytes [of d]
  by (cases "buf = []") (simp_all add: decimal_def dec_acc_append del: of_nat_add)

lemma dec_acc_shift: "dec_acc a cs = a * 10 ^ length cs + dec_acc 0 cs"
proof (induction cs arbitrary: a)
  case (Cons c cs)
  from Cons.IH [of "10 * a + digit_val c"] Cons.IH [of "digit_val c"] show ?case by (simp add: algebra_simps)
qed simp

lemma decimal_size: "decimal buf n \<Longrightarrow> buf \<noteq> [] \<Longrightarrow> 10 ^ (length buf - 1) \<le> n"
proof -
  assume d: "decimal buf n" and ne: "buf \<noteq> []"
  then obtain c cs where buf: "buf = c # cs" by (cases buf) auto
  with d have "is_digit c" "c \<noteq> 48" by (auto simp: decimal_def)
  then have "1 \<le> digit_val c" by (auto simp: is_digit_iff digit_val_def word_unat_eq_iff)
  then have "1 * 10 ^ length cs \<le> digit_val c * 10 ^ length cs" by (rule mult_le_mono1)
  moreover have "n = digit_val c * 10 ^ length cs + dec_acc 0 cs"
    using d dec_acc_shift [of "digit_val c" cs] by (simp add: decimal_def buf)
  ultimately have "10 ^ length cs \<le> n" by linarith
  then show ?thesis by (simp add: buf)
qed

text \<open>
  Rounding changes the last digit only, to a smaller one that is not zero; the number stays within
  \<open>delta\<close> of the last one it was compared with. \<open>u\<close> is the unit of the last digit.
\<close>

lemma round_decimal:
  assumes dec: "decimal buf n" and d: "d \<le> 9" "buf = [] \<Longrightarrow> 0 < d"
    and round: "rest \<le> delta" "dist \<le> delta" "0 < ten_k" "unat delta < unat rest + d * unat ten_k"
    and total: "(10 * n + d) * unat ten_k + unat rest = M" "unat delta \<le> M"
  obtains buf' n' where "grisu2_round (buf @ [word_of_nat (48 + d)]) dist delta rest ten_k = Done buf'"
    and "decimal buf' n'" and "length buf' = length buf + 1" and "n' \<le> 10 * n + d"
    and "M - unat delta \<le> n' * unat ten_k" and "n' * unat ten_k \<le> M"
proof -
  obtain i where i: "i < d" "unat rest + i * unat ten_k \<le> unat delta"
    and r: "grisu2_round (buf @ [word_of_nat (48 + d)]) dist delta rest ten_k = Done (buf @ [word_of_nat (48 + (d - i))])"
    using grisu2_round_ok [OF round d(1), of buf] by blast
  have eq: "(10 * n + (d - i)) * unat ten_k + (unat rest + i * unat ten_k) = M"
  proof -
    have "(d - i) * unat ten_k + i * unat ten_k = d * unat ten_k" using i(1) by (simp flip: add_mult_distrib)
    then show ?thesis using total(1) by (simp add: add_mult_distrib)
  qed
  show thesis
  proof (rule that [OF r])
    show "decimal (buf @ [word_of_nat (48 + (d - i))]) (10 * n + (d - i))"
      using decimal_snoc [OF dec, of "d - i"] d(1) i(1) by simp
  qed (use eq i(2) total(2) in simp_all)
qed

section \<open>The integral part\<close>

text \<open>
  What the digit generation promises: the number \<open>n * u\<close> it has written, of which \<open>u\<close> is the unit of
  the last digit, is between \<open>M - delta\<close> and \<open>M\<close>, and the digits before it left more than \<open>delta\<close>.
\<close>

definition generated :: "nat \<Rightarrow> nat \<Rightarrow> bytes \<Rightarrow> nat \<Rightarrow> nat \<Rightarrow> bool" where
  "generated M delta buf n u \<longleftrightarrow>
     decimal buf n \<and> buf \<noteq> [] \<and> M - delta \<le> n * u \<and> n * u \<le> M \<and> delta < 10 * u \<and> 10 ^ (length buf - 1) * u \<le> M"

lemma digit_char_of: "unat d \<le> 9 \<Longrightarrow> digit_char d = word_of_nat (48 + unat d)"
  by (simp add: digit_char_def)

lemma generated_round:
  assumes "decimal buf n" and "d \<le> 9" and "buf = [] \<Longrightarrow> 0 < d"
    and "rest \<le> delta" and "dist \<le> delta" and "0 < ten_k" and "unat delta < unat rest + d * unat ten_k"
    and total: "(10 * n + d) * unat ten_k + unat rest = M" and le: "unat delta \<le> M" and ten: "unat delta < 10 * unat ten_k"
  obtains buf' n' where "grisu2_round (buf @ [word_of_nat (48 + d)]) dist delta rest ten_k = Done buf'"
    and "generated M (unat delta) buf' n' (unat ten_k)"
proof -
  obtain buf' n' where r: "grisu2_round (buf @ [word_of_nat (48 + d)]) dist delta rest ten_k = Done buf'"
    and b: "decimal buf' n'" "length buf' = length buf + 1" "n' \<le> 10 * n + d"
      "M - unat delta \<le> n' * unat ten_k" "n' * unat ten_k \<le> M"
    by (rule round_decimal [OF assms(1-9)])
  have ne: "buf' \<noteq> []" using b(2) by auto
  have "10 ^ (length buf' - 1) * unat ten_k \<le> n' * unat ten_k" using decimal_size [OF b(1) ne] by (rule mult_le_mono1)
  with b(5) have "10 ^ (length buf' - 1) * unat ten_k \<le> M" by linarith
  with that [OF r] b ne ten show thesis by (simp add: generated_def)
qed

lemma integral_digits_ok:
  fixes p1 pow10 :: u32
  assumes s: "s \<le> 60" and p2: "unat p2 < 2 ^ s" and d: "dist \<le> delta"
  shows "unat p1 < 10 ^ n \<Longrightarrow> 0 < n \<longrightarrow> unat pow10 = 10 ^ (n - 1) \<Longrightarrow> decimal buf B \<Longrightarrow>
      buf = [] \<longrightarrow> 0 < n \<and> unat pow10 \<le> unat p1 \<Longrightarrow>
      unat delta < unat p1 * 2 ^ s + unat p2 \<Longrightarrow> B * (10 ^ n * 2 ^ s) + unat p1 * 2 ^ s + unat p2 = M \<Longrightarrow> M < 2 ^ 64 \<Longrightarrow>
      (\<exists>buf' B' k. integral_digits s p2 delta dist n p1 pow10 buf = Done (Inl (buf', int k)) \<and>
         generated M (unat delta) buf' B' (10 ^ k * 2 ^ s)) \<or>
      (\<exists>buf' B'. integral_digits s p2 delta dist n p1 pow10 buf = Done (Inr buf') \<and> decimal buf' B' \<and> buf' \<noteq> [] \<and>
         B' * 2 ^ s + unat p2 = M \<and> delta < p2)"
proof (induction n arbitrary: p1 pow10 buf B)
  case 0
  then show ?case by (auto simp: word_less_nat_alt)
next
  case (Suc n)
  let ?d = "p1 div pow10" and ?r = "p1 mod pow10"
  have pw: "unat pow10 = 10 ^ n" using Suc.prems(2) by simp
  have pos: "0 < (10 :: nat) ^ n" by simp
  then have "pow10 \<noteq> 0" using pw by auto
  have ud: "unat ?d = unat p1 div 10 ^ n" and ur: "unat ?r = unat p1 mod 10 ^ n"
    by (simp_all add: unat_div unat_mod pw)
  have d9: "unat ?d \<le> 9" unfolding ud using Suc.prems(1) less_mult_imp_div_less [of "unat p1" 10 "10 ^ n"] by simp
  have split: "unat ?d * 10 ^ n + unat ?r = unat p1" unfolding ud ur by (rule div_mult_mod_eq)
  let ?buf = "buf @ [digit_char (ucast ?d)]" and ?B = "10 * B + unat ?d"
  have uc: "unat (ucast ?d :: u64) = unat ?d" "unat (ucast ?r :: u64) = unat ?r" "unat (ucast pow10 :: u64) = unat pow10"
    by (simp_all only: unat_ucast_u32)
  have chr: "digit_char (ucast ?d) = word_of_nat (48 + unat ?d)" using digit_char_of [of "ucast ?d"] uc(1) d9 by simp
  have dn: "buf = [] \<Longrightarrow> 0 < unat ?d" using Suc.prems(4) pw pos by (simp add: ud div_greater_zero_iff)
  have dec: "decimal ?buf ?B" unfolding chr using decimal_snoc [OF Suc.prems(3) d9] dn by simp
  have total: "?B * (10 ^ n * 2 ^ s) + unat ?r * 2 ^ s + unat p2 = M"
    using Suc.prems(6) split by (simp add: algebra_simps flip: split)
  define rest where "rest = push_bit s (ucast ?r :: u64) + p2"
  have r10: "unat ?r < 10 ^ n" unfolding ur using pos by simp
  have r_s: "unat (push_bit s (ucast ?r :: u64)) = unat ?r * 2 ^ s"
    using unat_push_bit [of "ucast ?r" s] uc(2) total Suc.prems(7) by simp
  have big: "10 ^ n * 2 ^ s \<le> M"
  proof (cases "buf = []")
    case True
    then have "10 ^ n * 2 ^ s \<le> unat p1 * 2 ^ s" using Suc.prems(4) pw by (intro mult_le_mono1) simp
    then show ?thesis using Suc.prems(6) by linarith
  next
    case False
    then have "1 \<le> B" using decimal_size [OF Suc.prems(3)] by (metis le_trans one_le_numeral one_le_power)
    then have "1 * (10 ^ Suc n * 2 ^ s) \<le> B * (10 ^ Suc n * 2 ^ s)" by (rule mult_le_mono1)
    then have "10 ^ Suc n * 2 ^ s \<le> M" using Suc.prems(6) by linarith
    moreover have "10 ^ n * 2 ^ s \<le> 10 ^ Suc n * (2 :: nat) ^ s" by simp
    ultimately show ?thesis by linarith
  qed
  have u_s: "unat (push_bit s (ucast pow10 :: u64)) = 10 ^ n * 2 ^ s"
    using unat_push_bit [of "ucast pow10" s] uc(3) pw big Suc.prems(7) by simp
  have rest: "unat rest = unat ?r * 2 ^ s + unat p2"
    unfolding rest_def using total Suc.prems(7) by (subst unat_add_small) (simp_all add: r_s)
  have step: "integral_digits s p2 delta dist (Suc n) p1 pow10 buf =
      (if rest \<le> delta then bind_out (grisu2_round ?buf dist delta rest (push_bit s (ucast pow10))) (\<lambda>b. Done (Inl (b, int n)))
       else integral_digits s p2 delta dist n ?r (pow10 div 10) ?buf)"
    using \<open>pow10 \<noteq> 0\<close> d9 by (simp add: JSON_ASSERT_def Let_def rest_def word_le_nat_alt)
  show ?case
  proof (cases "rest \<le> delta")
    case True
    have "unat p1 + 1 \<le> 10 ^ Suc n" using Suc.prems(1) by simp
    then have "(unat p1 + 1) * 2 ^ s \<le> 10 ^ Suc n * 2 ^ s" by (rule mult_le_mono1)
    then have "unat p1 * 2 ^ s + 2 ^ s \<le> 10 * (10 ^ n * 2 ^ s)" by (simp add: algebra_simps)
    then have ten: "unat delta < 10 * (10 ^ n * 2 ^ s)" using Suc.prems(5) p2 by linarith
    have lt: "unat delta < unat ?r * 2 ^ s + unat p2 + unat ?d * (10 ^ n * 2 ^ s)"
      using Suc.prems(5) unfolding split [symmetric] by (simp add: algebra_simps)
    have le: "unat delta \<le> M" using Suc.prems(5,6) by linarith
    have pos_ten: "0 < push_bit s (ucast pow10 :: u64)" using u_s by (simp add: word_less_nat_alt)
    have tot: "?B * (10 ^ n * 2 ^ s) + (unat ?r * 2 ^ s + unat p2) = M" using total by (simp only: add.assoc)
    obtain buf' n' where
      "grisu2_round (buf @ [word_of_nat (48 + unat ?d)]) dist delta rest (push_bit s (ucast pow10)) = Done buf'"
      "generated M (unat delta) buf' n' (10 ^ n * 2 ^ s)"
      by (rule generated_round [OF Suc.prems(3) d9 dn True d pos_ten, unfolded u_s rest, OF _ lt tot le ten])
    then show ?thesis unfolding step chr using True by auto
  next
    case False
    then have lt: "unat delta < unat ?r * 2 ^ s + unat p2" using rest by (simp add: word_le_nat_alt)
    have fin: "integral_digits s p2 delta dist (Suc n) p1 pow10 buf = integral_digits s p2 delta dist n ?r (pow10 div 10) ?buf"
      unfolding step using False by simp
    show ?thesis
    proof (cases n)
      case 0
      then have "unat ?r = 0" using r10 by simp
      then show ?thesis unfolding fin using 0 dec total lt by (intro disjI2) (auto simp: word_less_nat_alt)
    next
      case (Suc m)
      have "unat (pow10 div 10) = 10 ^ (n - 1)" by (simp add: unat_div pw Suc)
      then show ?thesis
        unfolding fin using Suc.IH [of ?r "pow10 div 10" ?buf ?B] r10 dec lt total Suc.prems(7) by simp
    qed
  qed
qed

section \<open>The fractional part\<close>

lemma unat_mult10: "unat x * 10 < 2 ^ 64 \<Longrightarrow> unat (x * 10 :: u64) = unat x * 10"
  by (simp add: unat_word_ariths)

lemma and_one_less: "s < 64 \<Longrightarrow> unat (x AND (push_bit s 1 - 1) :: u64) = unat x mod 2 ^ s"
  using unat_mask_and [of s x] by (simp add: push_bit_eq_mult)

lemma fraction_digits_ok:
  "s \<le> 60 \<Longrightarrow> unat p2 < 2 ^ s \<Longrightarrow> delta < p2 \<Longrightarrow> dist \<le> delta \<Longrightarrow> decimal buf B \<Longrightarrow> buf \<noteq> [] \<Longrightarrow>
   B * 2 ^ s + unat p2 = N \<Longrightarrow>
   \<exists>buf' B' j. fraction_digits s p2 delta dist buf m = Done (buf', m + int j) \<and>
     generated (N * 10 ^ j) (unat delta * 10 ^ j) buf' B' (2 ^ s)"
proof (induction s p2 delta dist buf m arbitrary: B N rule: fraction_digits.induct)
  case (1 s p2 delta dist buf m)
  let ?one = "push_bit s 1 :: u64" and ?p = "p2 * 10" and ?delta = "delta * 10" and ?dist = "dist * 10"
  let ?d = "drop_bit s ?p" and ?r = "?p AND (?one - 1)"
  have "(2 :: nat) ^ s \<le> 2 ^ 60" using "1.prems"(1) by (rule power_increasing) simp
  then have p2: "unat p2 < 2 ^ 60" using "1.prems"(2) by linarith
  then have up: "unat ?p = unat p2 * 10" by (intro unat_mult10) simp
  have ud: "unat ?d = unat p2 * 10 div 2 ^ s" unfolding unat_drop_div up ..
  have ur: "unat ?r = unat p2 * 10 mod 2 ^ s" using and_one_less [of s ?p] up "1.prems"(1) by simp
  have uone: "unat ?one = 2 ^ s" using unat_push_bit [of 1 s] \<open>2 ^ s \<le> 2 ^ 60\<close> by simp
  have le: "unat delta < unat p2" "unat dist \<le> unat delta"
    using "1.prems"(3,4) by (simp_all add: word_less_nat_alt word_le_nat_alt)
  have ude: "unat ?delta = unat delta * 10" "unat ?dist = unat dist * 10"
    using le p2 by (intro unat_mult10; simp)+
  have d9: "unat ?d \<le> 9"
    unfolding ud using "1.prems"(2) less_mult_imp_div_less [of "unat p2 * 10" 10 "2 ^ s"] by simp
  have chr: "digit_char ?d = word_of_nat (48 + unat ?d)" using digit_char_of d9 by blast
  have split: "unat ?d * 2 ^ s + unat ?r = unat p2 * 10" unfolding ud ur by (rule div_mult_mod_eq)
  have dec: "decimal (buf @ [digit_char ?d]) (10 * B + unat ?d)"
    unfolding chr using decimal_snoc [OF "1.prems"(5) d9] "1.prems"(6) by simp
  have total: "(10 * B + unat ?d) * 2 ^ s + unat ?r = N * 10"
    using "1.prems"(7) split by (simp add: algebra_simps)
  have as: "p2 \<le> (- 1) div 10"
  proof -
    have "unat ((- 1) div 10 :: u64) = 1844674407370955161" by (simp add: unat_div unsigned_minus_1_eq_mask mask_eq_exp_minus_1)
    then show ?thesis using p2 by (simp add: word_le_nat_alt)
  qed
  have step: "fraction_digits s p2 delta dist buf m =
      (if ?r \<le> ?delta then bind_out (grisu2_round (buf @ [digit_char ?d]) ?dist ?delta ?r ?one) (\<lambda>b. Done (b, m + 1))
       else fraction_digits s ?r ?delta ?dist (buf @ [digit_char ?d]) (m + 1))"
    using as d9 by (subst fraction_digits.simps) (simp add: JSON_ASSERT_def Let_def word_le_nat_alt)
  show ?case
  proof (cases "?r \<le> ?delta")
    case True
    have tot: "(10 * B + unat ?d) * unat ?one + unat ?r = N * 10" using total uone by simp
    have "unat delta * 10 < N * 10" using le(1) "1.prems"(7) by simp
    then have ln: "unat ?delta \<le> N * 10" using ude(1) by simp
    obtain buf' n' where "grisu2_round (buf @ [word_of_nat (48 + unat ?d)]) ?dist ?delta ?r ?one = Done buf'"
      "generated (N * 10) (unat ?delta) buf' n' (unat ?one)"
    proof (rule generated_round [OF "1.prems"(5) d9 _ True _ _ _ tot ln])
      show "?dist \<le> ?delta" using le ude by (simp add: word_le_nat_alt)
      show "0 < ?one" using uone by (simp add: word_less_nat_alt)
      show "unat ?delta < unat ?r + unat ?d * unat ?one" using split ude(1) le(1) uone by simp
      show "unat ?delta < 10 * unat ?one" using ude(1) uone le(1) "1.prems"(2) by simp
    qed (use "1.prems"(6) in auto)
    then show ?thesis
      unfolding step chr using True ude(1) uone by (intro exI [of _ buf'] exI [of _ n'] exI [of _ 1]) simp
  next
    case False
    have "\<exists>buf' B' j. fraction_digits s ?r ?delta ?dist (buf @ [digit_char ?d]) (m + 1) = Done (buf', m + 1 + int j) \<and>
        generated (N * 10 * 10 ^ j) (unat ?delta * 10 ^ j) buf' B' (2 ^ s)"
    proof (rule "1.IH")
      show "unat ?r < 2 ^ s" unfolding ur by simp
      show "?delta < ?r" using False by simp
      show "?dist \<le> ?delta" using le ude by (simp add: word_le_nat_alt)
    qed (use "1.prems"(1) dec total False d9 as in \<open>simp_all add: word_le_nat_alt\<close>)
    then obtain buf' B' j where
      "fraction_digits s ?r ?delta ?dist (buf @ [digit_char ?d]) (m + 1) = Done (buf', m + 1 + int j)"
      "generated (N * 10 * 10 ^ j) (unat ?delta * 10 ^ j) buf' B' (2 ^ s)" by blast
    then show ?thesis
      unfolding step using False ude(1) by (intro exI [of _ buf'] exI [of _ B'] exI [of _ "Suc j"]) (simp add: mult.assoc)
  qed
qed

end
