(* ===== verification/Grisu_Scale.thy ===== *)
theory Grisu_Scale
  imports Grisu Complex_Main
begin

text \<open>
  What the arithmetic of Grisu2 computes: the rounded product of \<open>diyfp\<close>, the normalized value of
  a double and its boundaries, which are the midpoints to its neighbours, the accuracy of the
  cached powers of ten, and the choice of one for each exponent.
\<close>

section \<open>The product\<close>

text \<open>In natural numbers: the four partial products, of which the lowest half word is dropped.\<close>

lemma product_columns:
  fixes ac ad bc bd Q :: nat
  assumes "ac = l0 + 2 ^ 32 * h0" "ad = l1 + 2 ^ 32 * h1" "bc = l2 + 2 ^ 32 * h2"
    and "Q = h0 + l1 + l2 + 2 ^ 31" "Q = lq + 2 ^ 32 * hq"
  shows "ac + 2 ^ 32 * ad + 2 ^ 32 * bc + 2 ^ 64 * bd + 2 ^ 63 =
    (l0 + 2 ^ 32 * lq) + 2 ^ 64 * (bd + h2 + h1 + hq)"
  using assms by simp

lemma div_column: "l < k \<Longrightarrow> (l + k * h) div k = (h :: nat)"
  by simp

lemma nat_product:
  fixes a b c d :: nat
  assumes "a < 2 ^ 32" "b < 2 ^ 32" "c < 2 ^ 32" "d < 2 ^ 32"
  defines "Q \<equiv> a * c div 2 ^ 32 + a * d mod 2 ^ 32 + b * c mod 2 ^ 32 + 2 ^ 31"
  shows "((a + 2 ^ 32 * b) * (c + 2 ^ 32 * d) + 2 ^ 63) div 2 ^ 64 =
      b * d + b * c div 2 ^ 32 + a * d div 2 ^ 32 + Q div 2 ^ 32"
    and "Q < 2 ^ 64"
proof -
  have split: "x = x mod 2 ^ 32 + 2 ^ 32 * (x div 2 ^ 32)" for x :: nat by simp
  have "(a + 2 ^ 32 * b) * (c + 2 ^ 32 * d) + 2 ^ 63 =
      a * c + 2 ^ 32 * (a * d) + 2 ^ 32 * (b * c) + 2 ^ 64 * (b * d) + 2 ^ 63"
    by (simp add: algebra_simps)
  also have "\<dots> = (a * c mod 2 ^ 32 + 2 ^ 32 * (Q mod 2 ^ 32)) +
      2 ^ 64 * (b * d + b * c div 2 ^ 32 + a * d div 2 ^ 32 + Q div 2 ^ 32)"
    by (rule product_columns [OF split [of "a * c"] split [of "a * d"] split [of "b * c"] _ split [of Q]])
      (simp add: Q_def)
  finally have eq: "(a + 2 ^ 32 * b) * (c + 2 ^ 32 * d) + 2 ^ 63 =
      (a * c mod 2 ^ 32 + 2 ^ 32 * (Q mod 2 ^ 32)) +
      2 ^ 64 * (b * d + b * c div 2 ^ 32 + a * d div 2 ^ 32 + Q div 2 ^ 32)" .
  have "a * c mod 2 ^ 32 < 2 ^ 32" "Q mod 2 ^ 32 < 2 ^ 32" by simp_all
  then have "a * c mod 2 ^ 32 + 2 ^ 32 * (Q mod 2 ^ 32) < 2 ^ 64" by simp
  then show "((a + 2 ^ 32 * b) * (c + 2 ^ 32 * d) + 2 ^ 63) div 2 ^ 64 =
      b * d + b * c div 2 ^ 32 + a * d div 2 ^ 32 + Q div 2 ^ 32"
    unfolding eq by (rule div_column)
  have "a * c < 2 ^ 32 * 2 ^ 32" using assms(1,3) by (intro mult_strict_mono) simp_all
  then have "a * c div 2 ^ 32 < 2 ^ 32" by (simp add: less_mult_imp_div_less)
  then show "Q < 2 ^ 64" unfolding Q_def by simp
qed

lemma unat_mult_half: "unat x < 2 ^ 32 \<Longrightarrow> unat y < 2 ^ 32 \<Longrightarrow> unat (x * y :: u64) = unat x * unat y"
proof -
  assume "unat x < 2 ^ 32" "unat y < 2 ^ 32"
  then have "unat x * unat y < 2 ^ 32 * 2 ^ 32" by (intro mult_strict_mono) simp_all
  then show ?thesis by (simp add: unat_word_ariths)
qed

lemma unat_low_high:
  fixes x :: u64
  shows "unat (x AND 0xFFFFFFFF) = unat x mod 2 ^ 32" and "unat (drop_bit 32 x) = unat x div 2 ^ 32"
proof -
  have "(0xFFFFFFFF :: u64) = mask 32" by (simp add: mask_eq_exp_minus_1)
  then show "unat (x AND 0xFFFFFFFF) = unat x mod 2 ^ 32"
    using unat_mask_and [of 32 x] by (simp add: mask_eq_exp_minus_1)
  show "unat (drop_bit 32 x) = unat x div 2 ^ 32" by (metis drop_bit_eq_div unat_drop_bit_eq)
qed

lemma unat_add4:
  fixes a b c d :: u64
  assumes "unat a + unat b + unat c + unat d < 2 ^ 64"
  shows "unat (a + b + c + d) = unat a + unat b + unat c + unat d"
proof -
  have "unat (a + b) = unat a + unat b" using assms by (intro unat_add_small) simp
  moreover from this have "unat (a + b + c) = unat a + unat b + unat c" using assms by (subst unat_add_small) simp_all
  ultimately show ?thesis using assms by (subst unat_add_small) simp_all
qed

lemma unat_diyfp_mul:
  "unat (fp_f (diyfp_mul x y)) = (unat (fp_f x) * unat (fp_f y) + 2 ^ 63) div 2 ^ 64"
  "fp_e (diyfp_mul x y) = fp_e x + fp_e y + 64"
proof -
  let ?a = "unat (fp_f x) mod 2 ^ 32" and ?b = "unat (fp_f x) div 2 ^ 32"
  let ?c = "unat (fp_f y) mod 2 ^ 32" and ?d = "unat (fp_f y) div 2 ^ 32"
  show "unat (fp_f (diyfp_mul x y)) = (unat (fp_f x) * unat (fp_f y) + 2 ^ 63) div 2 ^ 64"
  proof -
    have b: "?a < 2 ^ 32" "?b < 2 ^ 32" "?c < 2 ^ 32" "?d < 2 ^ 32"
      using unat_lt2p [of "fp_f x"] unat_lt2p [of "fp_f y"] by (simp_all add: less_mult_imp_div_less)
    let ?Q = "?a * ?c div 2 ^ 32 + ?a * ?d mod 2 ^ 32 + ?b * ?c mod 2 ^ 32 + 2 ^ 31"
    note n = nat_product [OF b]
    define u_lo u_hi v_lo v_hi where "u_lo = fp_f x AND 0xFFFFFFFF" and "u_hi = drop_bit 32 (fp_f x)"
      and "v_lo = fp_f y AND 0xFFFFFFFF" and "v_hi = drop_bit 32 (fp_f y)"
    have u: "unat u_lo = ?a" "unat u_hi = ?b" "unat v_lo = ?c" "unat v_hi = ?d"
      by (simp_all add: u_lo_def u_hi_def v_lo_def v_hi_def unat_low_high)
    have m: "unat (u_lo * v_lo) = ?a * ?c" "unat (u_lo * v_hi) = ?a * ?d" "unat (u_hi * v_lo) = ?b * ?c"
      "unat (u_hi * v_hi) = ?b * ?d"
      using b by (simp_all add: unat_mult_half u)
    define Q where "Q = drop_bit 32 (u_lo * v_lo) + (u_lo * v_hi AND 0xFFFFFFFF) + (u_hi * v_lo AND 0xFFFFFFFF) + push_bit 31 1"
    have "unat (push_bit 31 1 :: u64) = 2 ^ 31" by (simp add: push_bit_eq_mult)
    then have Q: "unat Q = ?Q"
      unfolding Q_def using n(2) by (subst unat_add4) (simp_all only: unat_low_high m)
    have tot: "(unat (fp_f x) * unat (fp_f y) + 2 ^ 63) div 2 ^ 64 =
        ?b * ?d + ?b * ?c div 2 ^ 32 + ?a * ?d div 2 ^ 32 + ?Q div 2 ^ 32"
      using n(1) by simp
    have "unat (fp_f x) * unat (fp_f y) \<le> (2 ^ 64 - 1) * (2 ^ 64 - 1)"
      using unat_lt2p [of "fp_f x"] unat_lt2p [of "fp_f y"] by (intro mult_mono) simp_all
    then have "(unat (fp_f x) * unat (fp_f y) + 2 ^ 63) div 2 ^ 64 < 2 ^ 64"
      by (intro less_mult_imp_div_less) simp
    then have "unat (u_hi * v_hi + drop_bit 32 (u_hi * v_lo) + drop_bit 32 (u_lo * v_hi) + drop_bit 32 Q) =
        ?b * ?d + ?b * ?c div 2 ^ 32 + ?a * ?d div 2 ^ 32 + ?Q div 2 ^ 32"
      unfolding tot by (subst unat_add4) (simp_all only: unat_low_high m Q)
    then show ?thesis
      unfolding tot by (simp add: diyfp_mul_def diyfp_of_def Let_def u_lo_def u_hi_def v_lo_def v_hi_def Q_def)
  qed
  show "fp_e (diyfp_mul x y) = fp_e x + fp_e y + 64"
    by (simp add: diyfp_mul_def diyfp_of_def Let_def)
qed

section \<open>Doubles\<close>

text \<open>
  The value of the double with the bits \<open>n\<close>, sign aside; the one with the bits \<open>2047 * 2 ^ 52\<close>,
  which stands for infinity, comes out as \<open>2 ^ 1024\<close>. What rounds to a double lies between the
  midpoints to its neighbours.
\<close>

definition float_value :: "nat \<Rightarrow> real" where
  "float_value n =
     (if n < 2 ^ 52 then real n * 2 powi (- 1074)
      else real (2 ^ 52 + n mod 2 ^ 52) * 2 powi (int (n div 2 ^ 52) - 1075))"

definition lower :: "nat \<Rightarrow> real" where
  "lower n = (float_value (n - 1) + float_value n) / 2"

definition upper :: "nat \<Rightarrow> real" where
  "upper n = (float_value n + float_value (n + 1)) / 2"

definition fp_value :: "diyfp \<Rightarrow> real" where
  "fp_value x = real (unat (fp_f x)) * 2 powi fp_e x"

text \<open>Significand and exponent of the double, before it is normalized.\<close>

definition significand :: "nat \<Rightarrow> nat" where
  "significand n = (if n < 2 ^ 52 then n else 2 ^ 52 + n mod 2 ^ 52)"

definition exponent :: "nat \<Rightarrow> int" where
  "exponent n = (if n < 2 ^ 52 then - 1074 else int (n div 2 ^ 52) - 1075)"

lemma float_value_parts: "float_value n = real (significand n) * 2 powi exponent n"
  by (simp add: float_value_def significand_def exponent_def)

lemma significand_bounds:
  "significand n < 2 ^ 53" "0 < n \<Longrightarrow> 0 < significand n" "2 ^ 52 \<le> n \<Longrightarrow> 2 ^ 52 \<le> significand n"
  by (auto simp: significand_def intro: less_le_trans [of _ "2 ^ 52 + 2 ^ 52"])

lemma powi_Suc: "2 powi (e + 1) = 2 * (2 :: real) powi e"
  by (simp add: power_int_add)

lemma next_bits:
  obtains (1) "n + 1 < 2 ^ 52" | (2) "n + 1 = 2 ^ 52" | (3) "2 ^ 52 \<le> n" "(n + 1) mod 2 ^ 52 \<noteq> 0"
  | (4) "2 ^ 52 \<le> n" "(n + 1) mod 2 ^ 52 = (0 :: nat)"
  by linarith

lemma next_bits_carry:
  fixes n :: nat
  shows "(n + 1) mod 2 ^ 52 \<noteq> 0 \<Longrightarrow> (n + 1) mod 2 ^ 52 = n mod 2 ^ 52 + 1"
    and "(n + 1) mod 2 ^ 52 \<noteq> 0 \<Longrightarrow> (n + 1) div 2 ^ 52 = n div 2 ^ 52"
    and "(n + 1) mod 2 ^ 52 = 0 \<Longrightarrow> n mod 2 ^ 52 + 1 = 2 ^ 52"
    and "(n + 1) mod 2 ^ 52 = 0 \<Longrightarrow> (n + 1) div 2 ^ 52 = n div 2 ^ 52 + 1"
  by (metis Suc_eq_plus1 mod_Suc, metis Suc_eq_plus1 div_Suc, metis Suc_eq_plus1 mod_Suc nat.distinct(1),
      metis Suc_eq_plus1 div_Suc)

text \<open>The step from a double to the next is one unit of its exponent.\<close>

lemma float_value_Suc: "float_value (n + 1) = real (significand n + 1) * 2 powi exponent n"
proof -
  show ?thesis
  proof (cases rule: next_bits [of n])
    case 3
    with next_bits_carry(1,2) [of n] show ?thesis by (simp add: float_value_def significand_def exponent_def)
  next
    case 4
    note m = next_bits_carry(3,4) [OF 4(2)]
    have "float_value (n + 1) = 2 ^ 52 * 2 powi (int (n div 2 ^ 52) - 1075 + 1)"
      using 4 m(2) by (simp add: float_value_def algebra_simps)
    also have "\<dots> = 2 ^ 53 * 2 powi (int (n div 2 ^ 52) - 1075)" by (simp only: powi_Suc) simp
    finally show ?thesis using 4 m(1) by (simp add: significand_def exponent_def)
  qed (simp_all add: float_value_def significand_def exponent_def)
qed

definition closer_below :: "nat \<Rightarrow> bool" where
  "closer_below n \<longleftrightarrow> n mod 2 ^ 52 = 0 \<and> 1 < n div 2 ^ 52"

lemma closer_significand: "closer_below n \<Longrightarrow> significand n = 2 ^ 52"
proof -
  assume c: "closer_below n"
  then have "2 ^ 52 \<le> n" by (metis closer_below_def div_less linorder_not_le not_less_zero)
  with c show ?thesis by (simp add: significand_def closer_below_def)
qed

lemma float_value_pred:
  assumes "0 < n"
  shows "float_value (n - 1) =
    (if closer_below n then real (2 * significand n - 1) * 2 powi (exponent n - 1) else real (significand n - 1) * 2 powi exponent n)"
proof -
  obtain k where k: "n = k + 1" using assms by (metis Suc_eq_plus1 gr0_implies_Suc)
  show ?thesis
    unfolding k add_diff_cancel_right'
  proof (cases rule: next_bits [of k])
    case 3
    with next_bits_carry(1,2) [of k]
    show "float_value k = (if closer_below (k + 1) then real (2 * significand (k + 1) - 1) * 2 powi (exponent (k + 1) - 1)
        else real (significand (k + 1) - 1) * 2 powi exponent (k + 1))"
      by (simp add: float_value_def significand_def exponent_def closer_below_def)
  next
    case 4
    note m = next_bits_carry(3,4) [OF 4(2)]
    have "1 \<le> k div 2 ^ 52" using 4(1) by (simp add: Suc_le_eq div_greater_zero_iff)
    then show "float_value k = (if closer_below (k + 1) then real (2 * significand (k + 1) - 1) * 2 powi (exponent (k + 1) - 1)
        else real (significand (k + 1) - 1) * 2 powi exponent (k + 1))"
      using 4 m by (simp add: float_value_def significand_def exponent_def closer_below_def)
  qed (simp_all add: float_value_def significand_def exponent_def closer_below_def)
qed

lemma boundary_values:
  assumes "0 < n"
  shows "upper n = real (2 * significand n + 1) * 2 powi (exponent n - 1)"
    and "lower n = (if closer_below n then real (4 * significand n - 1) * 2 powi (exponent n - 2)
      else real (2 * significand n - 1) * 2 powi (exponent n - 1))"
proof -
  have s: "1 \<le> significand n" using significand_bounds(2) [OF assms] by simp
  have e: "2 powi exponent n = 2 * (2 :: real) powi (exponent n - 1)" "2 powi (exponent n - 1) = 2 * (2 :: real) powi (exponent n - 2)"
    using powi_Suc [of "exponent n - 1"] powi_Suc [of "exponent n - 2"] by simp_all
  show "upper n = real (2 * significand n + 1) * 2 powi (exponent n - 1)"
    unfolding upper_def float_value_Suc unfolding float_value_parts e(1) by (simp add: field_simps)
  show "lower n = (if closer_below n then real (4 * significand n - 1) * 2 powi (exponent n - 2)
      else real (2 * significand n - 1) * 2 powi (exponent n - 1))"
    unfolding lower_def float_value_pred [OF assms] unfolding float_value_parts e using s
    by (simp add: of_nat_diff field_simps)
qed

section \<open>Normalization\<close>

lemma normalize_loop_shift:
  "fp_f x \<noteq> 0 \<Longrightarrow> \<exists>k. normalize_loop x = Done (diyfp_of (push_bit k (fp_f x)) (fp_e x - int k)) \<and>
     2 ^ 63 \<le> unat (fp_f x) * 2 ^ k \<and> unat (fp_f x) * 2 ^ k < 2 ^ 64"
proof (induction x rule: normalize_loop.induct)
  case (1 x)
  have high: "drop_bit 63 (fp_f x) = 0 \<longleftrightarrow> unat (fp_f x) < 2 ^ 63"
  proof -
    have "drop_bit 63 (fp_f x) = 0 \<longleftrightarrow> drop_bit 63 (unat (fp_f x)) = 0"
      by (metis unat_0 unat_drop_bit_eq unat_eq_zero)
    then show ?thesis unfolding drop_bit_eq_div [of 63 "unat (fp_f x)"] by (simp add: div_eq_0_iff)
  qed
  show ?case
  proof (cases "unat (fp_f x) < 2 ^ 63")
    case True
    let ?y = "diyfp_of (push_bit 1 (fp_f x)) (fp_e x - 1)"
    have u: "unat (push_bit 1 (fp_f x)) = unat (fp_f x) * 2" using unat_push_bit [of "fp_f x" 1] True by simp
    moreover have "0 < unat (fp_f x)" using "1.prems" by (simp add: unat_gt_0)
    ultimately have "fp_f ?y \<noteq> 0" by (auto simp: diyfp_of_def)
    then obtain k where k: "normalize_loop ?y = Done (diyfp_of (push_bit k (push_bit 1 (fp_f x))) (fp_e x - 1 - int k))"
      "2 ^ 63 \<le> unat (fp_f x) * 2 * 2 ^ k" "unat (fp_f x) * 2 * 2 ^ k < 2 ^ 64"
      using "1.IH" True high "1.prems" u by (auto simp: diyfp_of_def)
    have "normalize_loop x = normalize_loop ?y"
      using True high "1.prems" by (subst normalize_loop.simps) simp
    with k show ?thesis by (intro exI [of _ "Suc k"]) (simp add: algebra_simps)
  next
    case False
    have "normalize_loop x = Done x" using False high by (subst normalize_loop.simps) simp
    with False show ?thesis using unat_lt2p [of "fp_f x"] by (intro exI [of _ 0]) (simp add: diyfp_of_def)
  qed
qed

lemma normalize_of:
  assumes "2 ^ 63 \<le> unat f * 2 ^ k" and "unat f * 2 ^ k < 2 ^ 64"
  shows "diyfp_normalize (diyfp_of f e) = Done (diyfp_of (push_bit k f) (e - int k))"
proof -
  have f: "f \<noteq> 0" using assms(1) by auto
  then have pos: "0 < unat f" by (simp add: unat_gt_0)
  obtain j where j: "normalize_loop (diyfp_of f e) = Done (diyfp_of (push_bit j f) (e - int j))"
    "2 ^ 63 \<le> unat f * 2 ^ j" "unat f * 2 ^ j < 2 ^ 64"
    using normalize_loop_shift [of "diyfp_of f e"] f by (auto simp: diyfp_of_def)
  have "unat f * 2 ^ a < unat f * 2 ^ (b + 1)" if "2 ^ 63 \<le> unat f * 2 ^ b" "unat f * 2 ^ a < 2 ^ 64" for a b
  proof -
    have "(2 :: nat) ^ 64 = 2 * 2 ^ 63" by simp
    with that have "unat f * 2 ^ a < 2 * (unat f * 2 ^ b)" by linarith
    then show ?thesis by (simp only: power_add power_one_right mult.assoc mult.commute [of 2])
  qed
  then have "a < b + 1" if "2 ^ 63 \<le> unat f * 2 ^ b" "unat f * 2 ^ a < 2 ^ 64" for a b
    using that pos by (metis nat_mult_less_cancel1 one_less_numeral_iff power_strict_increasing_iff semiring_norm(76))
  from this [OF assms(1) j(3)] this [OF j(2) assms(2)] have "j = k" by simp
  with j(1) f show ?thesis by (simp add: diyfp_normalize_def JSON_ASSERT_def diyfp_of_def)
qed

lemma normalize_to_of:
  assumes "unat f * 2 ^ k < 2 ^ 64" and "k < 64"
  shows "normalize_to (diyfp_of f e) (e - int k) = Done (diyfp_of (push_bit k f) (e - int k))"
proof -
  have "unat (drop_bit k (push_bit k f)) = unat f"
    using unat_push_bit [OF assms(1)] unfolding unat_drop_bit_eq drop_bit_eq_div [of k "unat _"] by simp
  then have "drop_bit k (push_bit k f) = f" by (metis word_unat_eq_iff)
  with assms(2) show ?thesis by (simp add: normalize_to_def JSON_ASSERT_def diyfp_of_def Let_def)
qed

section \<open>Boundaries\<close>

lemma sign_bit_nat: "sign_bit b \<longleftrightarrow> 2 ^ 63 \<le> unat b"
proof -
  have "sign_bit b \<longleftrightarrow> odd (unat b div 2 ^ 63)"
    unfolding sign_bit_def bit_iff_odd [symmetric] by (simp add: bit_unsigned_iff)
  moreover have "unat b div 2 ^ 63 < 2" using unat_lt2p [of b] by (intro less_mult_imp_div_less) simp
  ultimately show ?thesis by (cases "unat b div 2 ^ 63 = 0") (auto simp: div_eq_0_iff)
qed

lemma is_finite_nat:
  assumes "\<not> sign_bit b"
  shows "is_finite b \<longleftrightarrow> unat b < 2047 * 2 ^ 52"
proof -
  have n: "unat b < 2 ^ 63" using assms by (simp add: sign_bit_nat)
  have e: "unat (drop_bit 52 b) = unat b div 2 ^ 52" by (rule unat_drop_div)
  also have "\<dots> < 2 ^ 11" using n by (intro less_mult_imp_div_less) simp
  finally have lt: "unat (drop_bit 52 b) < 2 ^ 11" .
  have "unat (drop_bit 52 b AND 0x7FF) = unat (drop_bit 52 b) mod 2 ^ 11"
    using unat_mask_and [of 11 "drop_bit 52 b"] by simp
  with lt have "unat (drop_bit 52 b AND 0x7FF) = unat b div 2 ^ 52" using e by simp
  then have "is_finite b \<longleftrightarrow> unat b div 2 ^ 52 \<noteq> 2047"
    by (simp add: is_finite_def word_unat_eq_iff)
  also have "\<dots> \<longleftrightarrow> unat b div 2 ^ 52 < 2047" using lt unfolding e by auto
  also have "\<dots> \<longleftrightarrow> unat b < 2047 * 2 ^ 52" by (rule div_less_iff_less_mult) simp
  finally show ?thesis .
qed

lemma unat_multiples:
  fixes x :: u64
  assumes "unat x < 2 ^ 60" and "0 < unat x"
  shows "unat (2 * x + 1) = 2 * unat x + 1" and "unat (2 * x - 1) = 2 * unat x - 1" and "unat (4 * x - 1) = 4 * unat x - 1"
proof -
  have m: "unat (2 * x) = 2 * unat x" "unat (4 * x) = 4 * unat x"
    using assms(1) by (simp_all add: unat_word_ariths)
  show "unat (2 * x + 1) = 2 * unat x + 1" using m(1) assms(1) by (subst unat_add_small) simp_all
  show "unat (2 * x - 1) = 2 * unat x - 1" using m(1) assms(2) by (subst unat_sub) (simp_all add: word_le_nat_alt)
  show "unat (4 * x - 1) = 4 * unat x - 1" using m(2) assms(2) by (subst unat_sub) (simp_all add: word_le_nat_alt)
qed

lemma compute_boundaries_ok:
  assumes fin: "is_finite b" and pos: "\<not> sign_bit b" "b \<noteq> 0"
  obtains w wm wp j where "compute_boundaries b = Done (w, wm, wp)"
    and "unat (fp_f w) = significand (unat b) * 2 ^ j"
    and "unat (fp_f wp) = (2 * significand (unat b) + 1) * 2 ^ (j - 1)"
    and "unat (fp_f wm) = (if closer_below (unat b) then (4 * significand (unat b) - 1) * 2 ^ (j - 2)
      else (2 * significand (unat b) - 1) * 2 ^ (j - 1))"
    and "fp_e w = exponent (unat b) - int j" "fp_e wm = exponent (unat b) - int j" "fp_e wp = exponent (unat b) - int j"
    and "11 \<le> j" "j \<le> 63" "2 ^ 63 \<le> significand (unat b) * 2 ^ j" "significand (unat b) * 2 ^ j < 2 ^ 64"
proof -
  let ?n = "unat b" and ?f = "significand (unat b)"
  define F E v where "F = b AND (push_bit 52 1 - 1)" and "E = drop_bit 52 b"
    and "v = (if E = 0 then diyfp_of F (- 1074) else diyfp_of (F + push_bit 52 1) (int (unat E) - 1075))"
  have n: "0 < ?n" using pos(2) by (simp add: unat_gt_0)
  have uF: "unat F = ?n mod 2 ^ 52" using unat_mask_and [of 52 b] by (simp add: F_def)
  have uE: "unat E = ?n div 2 ^ 52" by (simp add: E_def unat_drop_div)
  have "unat (F + push_bit 52 1) = unat F + 2 ^ 52"
    using uF pos_mod_bound [of "2 ^ 52" ?n] by (subst unat_add_small) (simp_all add: push_bit_eq_mult)
  moreover have "E = 0 \<longleftrightarrow> ?n < 2 ^ 52" using uE by (metis div_eq_0_iff unat_eq_zero power_not_zero zero_neq_numeral)
  ultimately have v: "unat (fp_f v) = ?f" "fp_e v = exponent ?n"
    using uF uE by (simp_all add: v_def diyfp_of_def significand_def exponent_def)
  have cl: "F = 0 \<and> 1 < E \<longleftrightarrow> closer_below ?n"
    using uF uE by (simp add: closer_below_def word_less_nat_alt flip: unat_eq_zero)
  have f: "?f < 2 ^ 53" "0 < ?f" using significand_bounds(1,2) n by simp_all
  have fv: "fp_f v \<noteq> 0" using v(1) f(2) by auto
  from normalize_loop_shift [OF this] obtain j where j: "2 ^ 63 \<le> ?f * 2 ^ j" "?f * 2 ^ j < 2 ^ 64"
    unfolding v(1) by blast
  have "?f * 2 ^ j < 2 ^ 53 * 2 ^ j" using f(1) by simp
  from le_less_trans [OF j(1) this] have "2 ^ 63 < (2 :: nat) ^ (53 + j)" unfolding power_add .
  then have "63 < 53 + j" by (rule power_less_imp_less_exp [rotated]) simp
  then have j1: "11 \<le> j" by simp
  have "1 * 2 ^ j \<le> ?f * 2 ^ j" using f(2) by (intro mult_le_mono1) simp
  then have "(2 :: nat) ^ j < 2 ^ 64" using j(2) by linarith
  then have "j < 64" by (rule power_less_imp_less_exp [rotated]) simp
  then have j2: "j \<le> 63" by simp
  have pj: "(2 :: nat) ^ j = 2 * 2 ^ (j - 1)" "(2 :: nat) ^ (j - 1) = 2 * 2 ^ (j - 2)" "(2 :: nat) ^ 64 = 2 ^ (64 - j) * 2 ^ j"
    using j1 j2 by (simp_all flip: power_Suc power_add)
  have "?f < 2 ^ (64 - j)" using j(2) unfolding pj(3) by simp
  then have "(?f + 1) * 2 ^ j \<le> 2 ^ (64 - j) * 2 ^ j" by (intro mult_le_mono1) simp
  then have top: "(?f + 1) * 2 ^ j \<le> 2 ^ 64" unfolding pj(3) .
  have "?f * 2 ^ j \<le> (2 * ?f + 1) * 2 ^ (j - 1)" "(2 * ?f + 1) * 2 ^ (j - 1) < (?f + 1) * 2 ^ j"
    unfolding pj(1) by (simp_all add: algebra_simps)
  with j(1) top have up: "2 ^ 63 \<le> (2 * ?f + 1) * 2 ^ (j - 1)" "(2 * ?f + 1) * 2 ^ (j - 1) < 2 ^ 64" by linarith+
  have small: "unat (2 * fp_f v + 1) = 2 * ?f + 1" "unat (2 * fp_f v - 1) = 2 * ?f - 1" "unat (4 * fp_f v - 1) = 4 * ?f - 1"
    using unat_multiples [of "fp_f v"] v(1) f by simp_all
  define wp where "wp = diyfp_of (push_bit (j - 1) (2 * fp_f v + 1)) (exponent ?n - int j)"
  have plus: "diyfp_normalize (diyfp_of (2 * fp_f v + 1) (fp_e v - 1)) = Done wp"
    using normalize_of [of "2 * fp_f v + 1" "j - 1" "fp_e v - 1"] up j1 unfolding small(1) wp_def v(2)
    by (simp add: of_nat_diff)
  have low: "(4 * ?f - 1) * 2 ^ (j - 2) < 2 ^ 64" "(2 * ?f - 1) * 2 ^ (j - 1) < 2 ^ 64"
  proof -
    have "(4 * ?f - 1) * 2 ^ (j - 2) \<le> ?f * 2 ^ j" "(2 * ?f - 1) * 2 ^ (j - 1) \<le> ?f * 2 ^ j"
      unfolding pj(1) by (simp_all only: pj(2)) (simp_all add: diff_mult_distrib)
    then show "(4 * ?f - 1) * 2 ^ (j - 2) < 2 ^ 64" "(2 * ?f - 1) * 2 ^ (j - 1) < 2 ^ 64" using j(2) by linarith+
  qed
  define wm where "wm = (if closer_below ?n then diyfp_of (push_bit (j - 2) (4 * fp_f v - 1)) (exponent ?n - int j)
    else diyfp_of (push_bit (j - 1) (2 * fp_f v - 1)) (exponent ?n - int j))"
  have minus: "normalize_to (if closer_below ?n then diyfp_of (4 * fp_f v - 1) (fp_e v - 2)
      else diyfp_of (2 * fp_f v - 1) (fp_e v - 1)) (exponent ?n - int j) = Done wm"
    using normalize_to_of [of "4 * fp_f v - 1" "j - 2" "fp_e v - 2"]
      normalize_to_of [of "2 * fp_f v - 1" "j - 1" "fp_e v - 1"] low j1 j2
    unfolding small wm_def v(2) by (simp add: of_nat_diff)
  define w where "w = diyfp_of (push_bit j (fp_f v)) (exponent ?n - int j)"
  have veq: "diyfp_of (fp_f v) (exponent ?n) = v" using v(2) by (simp add: diyfp_of_def)
  have mid: "diyfp_normalize v = Done w"
    using normalize_of [of "fp_f v" j "exponent ?n"] j unfolding v(1) veq w_def by simp
  have cb: "compute_boundaries b =
      bind_out (diyfp_normalize (diyfp_of (2 * fp_f v + 1) (fp_e v - 1))) (\<lambda>w_plus.
        bind_out (normalize_to (if closer_below ?n then diyfp_of (4 * fp_f v - 1) (fp_e v - 2)
          else diyfp_of (2 * fp_f v - 1) (fp_e v - 1)) (fp_e w_plus)) (\<lambda>w_minus.
        bind_out (diyfp_normalize v) (\<lambda>w. Done (w, w_minus, w_plus))))"
    unfolding compute_boundaries_def Let_def F_def [symmetric] E_def [symmetric] v_def [symmetric] cl
    using fin pos by (simp only: JSON_ASSERT_def if_True not_False_eq_True simp_thms)
  have ewp: "fp_e wp = exponent ?n - int j" by (simp add: wp_def diyfp_of_def)
  show thesis
  proof (rule that [of w wm wp j])
    show "compute_boundaries b = Done (w, wm, wp)"
      unfolding cb plus bind_out_simps ewp minus mid ..
  qed (use j j1 j2 up low small v in \<open>auto simp: w_def wm_def wp_def diyfp_of_def unat_push_bit\<close>)
qed

end
