(* ===== verification/Grisu_Cached.thy ===== *)
theory Grisu_Cached
  imports Grisu_Scale
begin

text \<open>
  The table of cached powers: each row is within half a unit of the power of ten it stands for,
  and the row chosen for an exponent brings the product into the range the digit generation needs.
\<close>

section \<open>The table\<close>

text \<open>
  In integers, so that the rows can be computed: \<open>f * 2 ^ e\<close> against \<open>10 ^ k\<close>, both multiplied by
  what makes them integers, with the power of five carried from row to row.
\<close>

fun rows_below :: "nat \<Rightarrow> int \<Rightarrow> (u64 \<times> int \<times> int) list \<Rightarrow> bool" where
  "rows_below m P [] \<longleftrightarrow> True"
| "rows_below m P ((f, e, k) # rs) \<longleftrightarrow>
     k = - int m \<and> e \<le> k \<and> \<bar>uint f * P - 2 ^ nat (k - e)\<bar> * 2 \<le> P \<and> rows_below (m + 8) (P * 390625) rs"

fun rows_above :: "nat \<Rightarrow> int \<Rightarrow> (u64 \<times> int \<times> int) list \<Rightarrow> bool" where
  "rows_above m P [] \<longleftrightarrow> True"
| "rows_above m P ((f, e, k) # rs) \<longleftrightarrow>
     k = int m \<and> \<bar>uint f * 2 ^ nat (e - k) - P * 2 ^ nat (k - e)\<bar> * 2 \<le> 2 ^ nat (e - k) \<and>
     rows_above (m + 8) (P * 390625) rs"

lemma first_rows: "rows_below 156 (5 ^ 156) (rev (take 19 kCachedPowers))"
  by (simp add: kCachedPowers_def)

lemma second_rows: "rows_below 4 625 (rev (take 19 (drop 19 kCachedPowers)))"
  by (simp add: kCachedPowers_def)

lemma third_rows: "rows_above 4 625 (take 20 (drop 38 kCachedPowers))"
  by (simp add: kCachedPowers_def)

lemma fourth_rows: "rows_above 164 (5 ^ 164) (drop 58 kCachedPowers)"
  by (simp add: kCachedPowers_def)

definition close_to_power :: "u64 \<times> int \<times> int \<Rightarrow> bool" where
  "close_to_power = (\<lambda>(f, e, k). \<bar>real_of_int (uint f) * 2 powi e - 10 powi k\<bar> * 2 \<le> 2 powi e)"

lemma scaled_abs: "0 < (c :: real) \<Longrightarrow> \<bar>a * c - b * c\<bar> * 2 \<le> u * c \<longleftrightarrow> \<bar>a - b\<bar> * 2 \<le> u"
proof -
  assume c: "0 < c"
  have "\<bar>a * c - b * c\<bar> * 2 = \<bar>a - b\<bar> * 2 * c" using c by (simp add: abs_mult flip: left_diff_distrib)
  then show ?thesis using c by simp
qed

lemma powi_diff: "(2 :: real) powi (a - b) * 2 powi b = 2 powi a"
  by (simp flip: power_int_add)

lemma powi_nat: "0 \<le> n \<Longrightarrow> (2 :: real) powi n = 2 ^ nat n"
  by (simp add: power_int_def)

lemma powi_nats: "(2 :: real) powi n * 2 ^ nat (- n) = 2 ^ nat n"
  by (cases "0 \<le> n") (simp_all add: power_int_def field_simps)

lemma rows_below_close:
  "rows_below m P rs \<Longrightarrow> P = 5 ^ m \<Longrightarrow> list_all close_to_power rs"
proof (induction m P rs rule: rows_below.induct)
  case (2 m P f e k rs)
  let ?c = "5 ^ m * (2 :: real) powi (- e)"
  have k: "k = - int m" "e \<le> k" and b: "\<bar>uint f * P - 2 ^ nat (k - e)\<bar> * 2 \<le> P" using "2.prems"(1) unfolding rows_below.simps by blast+
  have "\<bar>real_of_int (uint f) * 5 ^ m - 2 ^ nat (k - e)\<bar> * 2 \<le> 5 ^ m"
    using of_int_le_iff [where ?'a = real, THEN iffD2, OF b] "2.prems"(2) by simp
  moreover have "real_of_int (uint f) * 5 ^ m = (uint f * 2 powi e) * ?c" "5 ^ m = 2 powi e * ?c"
    using powi_diff [of 0 e] by (simp_all add: field_simps)
  moreover have "(2 :: real) ^ nat (k - e) = 10 powi k * ?c"
  proof -
    have "(10 :: real) powi k * 5 ^ m = 2 powi k"
      by (simp add: k(1) power_int_minus field_simps flip: power_mult_distrib)
    then have "10 powi k * ?c = 2 powi k * (2 :: real) powi (- e)" by (simp add: mult.assoc)
    also have "\<dots> = 2 powi (k - e)" by (simp flip: power_int_add)
    finally show ?thesis using k(2) by (simp add: powi_nat)
  qed
  ultimately have "\<bar>real_of_int (uint f) * 2 powi e * ?c - 10 powi k * ?c\<bar> * 2 \<le> 2 powi e * ?c" by metis
  then have "close_to_power (f, e, k)"
    by (subst (asm) scaled_abs) (simp_all add: close_to_power_def)
  moreover have "list_all close_to_power rs"
    using "2.IH" "2.prems" by (simp add: power_add)
  ultimately show ?case by simp
qed simp

lemma rows_above_close:
  "rows_above m P rs \<Longrightarrow> P = 5 ^ m \<Longrightarrow> list_all close_to_power rs"
proof (induction m P rs rule: rows_above.induct)
  case (2 m P f e k rs)
  let ?c = "(2 :: real) ^ nat (k - e) * 2 powi (- k)"
  have k: "k = int m" and b: "\<bar>uint f * 2 ^ nat (e - k) - P * 2 ^ nat (k - e)\<bar> * 2 \<le> 2 ^ nat (e - k)"
    using "2.prems"(1) unfolding rows_above.simps by blast+
  have "\<bar>real_of_int (uint f) * 2 ^ nat (e - k) - 5 ^ m * 2 ^ nat (k - e)\<bar> * 2 \<le> 2 ^ nat (e - k)"
    using of_int_le_iff [where ?'a = real, THEN iffD2, OF b] "2.prems"(2) by simp
  moreover have e: "(2 :: real) ^ nat (e - k) = 2 powi e * ?c"
  proof -
    have "2 powi e * ?c = 2 powi (e - k) * (2 :: real) ^ nat (k - e)" by (simp add: power_int_diff power_int_minus field_simps)
    also have "\<dots> = 2 ^ nat (e - k)" using powi_nats [of "e - k"] by simp
    finally show ?thesis ..
  qed
  moreover have "5 ^ m * (2 :: real) ^ nat (k - e) = 10 powi k * ?c"
  proof -
    have "(10 :: real) powi k * 2 powi (- k) = 5 ^ m"
      by (simp add: k power_int_minus field_simps flip: power_mult_distrib)
    then show ?thesis by simp
  qed
  ultimately have "\<bar>real_of_int (uint f) * 2 powi e * ?c - 10 powi k * ?c\<bar> * 2 \<le> 2 powi e * ?c" by (metis mult.assoc)
  then have "close_to_power (f, e, k)"
    by (subst (asm) scaled_abs) (simp_all add: close_to_power_def)
  moreover have "list_all close_to_power rs"
    using "2.IH" "2.prems" by (simp add: power_add)
  ultimately show ?case by simp
qed simp

lemma rows_close: "list_all close_to_power kCachedPowers"
proof -
  have "list_all close_to_power (rev (take 19 kCachedPowers))"
    "list_all close_to_power (rev (take 19 (drop 19 kCachedPowers)))"
    "list_all close_to_power (take 20 (drop 38 kCachedPowers))" "list_all close_to_power (drop 58 kCachedPowers)"
    using rows_below_close [OF first_rows] rows_below_close [OF second_rows]
      rows_above_close [OF third_rows] rows_above_close [OF fourth_rows] by simp_all
  moreover have "kCachedPowers = take 19 kCachedPowers @ take 19 (drop 19 kCachedPowers) @ take 20 (drop 38 kCachedPowers) @ drop 58 kCachedPowers"
    by (simp add: kCachedPowers_def)
  ultimately show ?thesis by (metis list_all_append list_all_rev)
qed

text \<open>The exponents of the rows, against \<open>78913 / 262144\<close>, the approximation of the logarithm.\<close>

definition row_in_range :: "u64 \<times> int \<times> int \<Rightarrow> bool" where
  "row_in_range = (\<lambda>(f, e, k). 2 ^ 63 \<le> uint f \<and> k * 262144 < (64 + e) * 78913 \<and> (34 + e) * 78913 < (k - 8) * 262144)"

lemma rows_in_range: "list_all row_in_range kCachedPowers"
  by (simp add: kCachedPowers_def row_in_range_def)

lemma rows_exponents: "map (snd \<circ> snd) kCachedPowers = map (\<lambda>i. 8 * int i - 300) [0..<79]"
  by (simp add: kCachedPowers_def upt_rec)

section \<open>The choice of a row\<close>

text \<open>The index is the row whose power is between the scaled exponent and seven above it.\<close>

lemma sdiv_nonneg: "0 \<le> a \<Longrightarrow> 0 < b \<Longrightarrow> a sdiv b = a div (b :: int)"
  by (simp add: signed_divide_int_def sgn_if)

lemma sdiv_neg: "a < 0 \<Longrightarrow> 0 < b \<Longrightarrow> a sdiv b = - ((- a) div (b :: int))"
  by (simp add: signed_divide_int_def sgn_if)

lemma scaled_exponent:
  fixes f :: int
  defines "k \<equiv> (f * 78913) sdiv 262144 + (if 0 < f then 1 else 0)"
  shows "(k - 1) * 262144 \<le> f * 78913" and "f * 78913 \<le> k * 262144"
proof -
  have "(k - 1) * 262144 \<le> f * 78913 \<and> f * 78913 \<le> k * 262144"
  proof (cases "0 < f")
    case True
    then have "k = f * 78913 div 262144 + 1" by (simp add: k_def sdiv_nonneg)
    then show ?thesis by (intro conjI) (simp_all add: algebra_simps)
  next
    case False
    then have "k = - ((- (f * 78913)) div 262144)"
      by (cases "f = 0") (simp_all add: k_def sdiv_neg signed_divide_int_def)
    then show ?thesis by (intro conjI) (simp_all add: algebra_simps)
  qed
  then show "(k - 1) * 262144 \<le> f * 78913" and "f * 78913 \<le> k * 262144" by blast+
qed

lemma cached_power_ok:
  assumes "- 1137 \<le> e" and "e \<le> 960"
  obtains cf ce ck where "get_cached_power_for_binary_exponent e = Done (cf, ce, ck)"
    and "2 ^ 63 \<le> unat cf" and "close_to_power (cf, ce, ck)"
    and "- 60 \<le> ce + e + 64" and "ce + e + 64 \<le> - 32"
proof -
  define f where "f = - 60 - e - 1"
  define k where "k = (f * 78913) sdiv 262144 + (if 0 < f then 1 else 0)"
  note ke = scaled_exponent [of f, folded k_def]
  have kb: "- 307 \<le> k" "k \<le> 324" using ke assms unfolding f_def by (simp_all add: algebra_simps)
  define i where "i = (307 + k) div 8"
  have idx: "cached_power_index e = i"
    using kb by (simp add: cached_power_index_def i_def k_def f_def sdiv_nonneg Let_def algebra_simps)
  have i: "0 \<le> i" "i < 79" and ik: "8 * i \<le> 307 + k" "300 + k \<le> 8 * i" using kb unfolding i_def by linarith+
  obtain cf ce ck where row: "kCachedPowers ! nat i = (cf, ce, ck)" by (cases "kCachedPowers ! nat i") auto
  have len: "length kCachedPowers = 79" by (simp add: kCachedPowers_def)
  then have mem: "(cf, ce, ck) \<in> set kCachedPowers" using row i by (metis nat_less_iff nth_mem of_nat_numeral)
  have "map (snd \<circ> snd) kCachedPowers ! nat i = 8 * i - 300"
    unfolding rows_exponents using i by (simp add: nth_append)
  then have ck: "ck = 8 * i - 300" using row len i by simp
  have rng: "2 ^ 63 \<le> uint cf" "ck * 262144 < (64 + ce) * 78913" "(34 + ce) * 78913 < (ck - 8) * 262144"
    using rows_in_range mem unfolding list_all_iff row_in_range_def by auto
  have "f * 78913 < (64 + ce) * 78913" "(34 + ce) * 78913 < f * 78913" using ke rng(2,3) ik unfolding ck by (simp_all add: algebra_simps)
  then have ab: "- 60 \<le> ce + e + 64" "ce + e + 64 \<le> - 32" unfolding f_def by simp_all
  show thesis
  proof (rule that [OF _ _ _ ab])
    show "get_cached_power_for_binary_exponent e = Done (cf, ce, ck)"
      using assms i ab by (simp add: get_cached_power_for_binary_exponent_def JSON_ASSERT_def Let_def idx len row)
    show "2 ^ 63 \<le> unat cf" using nat_mono [OF rng(1)] unfolding unat_eq_nat_uint by simp
    show "close_to_power (cf, ce, ck)" using rows_close mem by (simp add: list_all_iff)
  qed
qed

end
