(* ===== verification/Grisu_Spec.thy ===== *)
theory Grisu_Spec
  imports Grisu_Digits Grisu_Cached
begin

text \<open>
  Grisu2 as a whole: for every finite double the digits and the exponent it returns denote a number
  strictly between the midpoints to the neighbouring doubles, and there are at most 17 digits.
\<close>

section \<open>All digits\<close>

lemma find_largest_pow10_ok:
  assumes "0 < n"
  obtains k p where "find_largest_pow10 n = (k, p)" and "0 < k" and "unat p = 10 ^ (k - 1)" and "p \<le> n"
    and "unat n < 10 ^ k"
proof -
  have "0 < fst (find_largest_pow10 n) \<and> unat (snd (find_largest_pow10 n)) = 10 ^ (fst (find_largest_pow10 n) - 1) \<and>
      snd (find_largest_pow10 n) \<le> n \<and> unat n < 10 ^ fst (find_largest_pow10 n)"
    using assms unat_lt2p [of n] by (auto simp: find_largest_pow10_def word_le_nat_alt word_less_nat_alt)
  with that show thesis by (metis surjective_pairing)
qed

lemma generated_length:
  assumes "generated M delta buf n u" and "M < 10 ^ 16 * delta"
  shows "length buf \<le> 17"
proof (rule ccontr)
  assume "\<not> length buf \<le> 17"
  then have "(10 :: nat) ^ 17 \<le> 10 ^ (length buf - 1)" by (intro power_increasing) simp_all
  moreover have "(10 :: nat) ^ 17 = 100000000000000000" by simp
  ultimately have "100000000000000000 * u \<le> 10 ^ (length buf - 1) * u" by (metis mult_le_mono1)
  moreover have "M < 10000000000000000 * delta" using assms(2) by simp
  moreover have "10 ^ (length buf - 1) * u \<le> M" "delta < 10 * u" using assms(1) by (simp_all add: generated_def)
  ultimately show False by linarith
qed

text \<open>The number written, in units of the last digit, as a real number.\<close>

lemma generated_real:
  assumes "generated (M * 10 ^ j) (delta * 10 ^ j) buf n (10 ^ k * 2 ^ s)" and "delta \<le> M"
  shows "real (M - delta) \<le> real n * 10 powi (int k - int j) * 2 ^ s"
    and "real n * 10 powi (int k - int j) * 2 ^ s \<le> real M"
proof -
  have b: "(M - delta) * 10 ^ j \<le> n * (10 ^ k * 2 ^ s)" "n * (10 ^ k * 2 ^ s) \<le> M * 10 ^ j"
    using assms(1) by (simp_all add: generated_def diff_mult_distrib)
  have eq: "real n * 10 powi (int k - int j) * 2 ^ s = real (n * (10 ^ k * 2 ^ s)) / 10 ^ j"
    by (simp add: power_int_diff)
  have "real ((M - delta) * 10 ^ j) \<le> real (n * (10 ^ k * 2 ^ s))" "real (n * (10 ^ k * 2 ^ s)) \<le> real (M * 10 ^ j)"
    using b by (simp_all only: of_nat_le_iff)
  then show "real (M - delta) \<le> real n * 10 powi (int k - int j) * 2 ^ s"
    and "real n * 10 powi (int k - int j) * 2 ^ s \<le> real M"
    unfolding eq by (simp_all add: pos_le_divide_eq pos_divide_le_eq del: of_nat_diff)
qed

lemma grisu2_digit_gen_ok:
  assumes e: "fp_e Mp = - int s" "fp_e Mm = - int s" "fp_e w = - int s" and s: "32 \<le> s" "s \<le> 60"
    and le: "0 < fp_f Mm" "fp_f Mm \<le> fp_f w" "fp_f w \<le> fp_f Mp" and big: "2 ^ s \<le> unat (fp_f Mp)"
  obtains buf n x where "grisu2_digit_gen dexp Mm w Mp = Done (buf, dexp + x)"
    and "decimal buf n" and "buf \<noteq> []"
    and "real (unat (fp_f Mm)) \<le> real n * 10 powi x * 2 ^ s" and "real n * 10 powi x * 2 ^ s \<le> real (unat (fp_f Mp))"
    and "unat (fp_f Mp) < 10 ^ 16 * (unat (fp_f Mp) - unat (fp_f Mm)) \<Longrightarrow> length buf \<le> 17"
proof -
  let ?M = "unat (fp_f Mp)" and ?m = "unat (fp_f Mm)"
  define delta dst p1 p2 where "delta = fp_f Mp - fp_f Mm" and "dst = fp_f Mp - fp_f w"
    and "p1 = (ucast (drop_bit s (fp_f Mp)) :: u32)" and "p2 = fp_f Mp AND (push_bit s 1 - 1)"
  have le': "0 < ?m" "?m \<le> unat (fp_f w)" "unat (fp_f w) \<le> ?M"
    using le by (simp_all add: word_le_nat_alt word_less_nat_alt)
  have ud: "unat delta = ?M - ?m" "unat dst = ?M - unat (fp_f w)"
    using le by (auto simp: delta_def dst_def unat_sub)
  have dd: "dst \<le> delta" using ud le' by (simp add: word_le_nat_alt)
  have "unat (drop_bit s (fp_f Mp)) = ?M div 2 ^ s" by (rule unat_drop_div)
  moreover have "?M div 2 ^ s < 2 ^ 32"
  proof (rule less_mult_imp_div_less)
    have "(2 :: nat) ^ 32 * 2 ^ 32 \<le> 2 ^ 32 * 2 ^ s" using s(1) by (intro mult_le_mono2 power_increasing) simp_all
    then show "?M < 2 ^ 32 * 2 ^ s" using unat_lt2p [of "fp_f Mp"] by simp
  qed
  ultimately have up1: "unat p1 = ?M div 2 ^ s" unfolding p1_def by (subst unat_ucast_trunc) simp_all
  have up2: "unat p2 = ?M mod 2 ^ s" unfolding p2_def using s(2) by (intro and_one_less) simp
  have total: "unat p1 * 2 ^ s + unat p2 = ?M" unfolding up1 up2 by (rule div_mult_mod_eq)
  have p1: "0 < p1" using up1 big by (simp add: word_less_nat_alt div_greater_zero_iff)
  obtain k pow10 where fl: "find_largest_pow10 p1 = (k, pow10)" and k: "0 < k" "unat pow10 = 10 ^ (k - 1)" "pow10 \<le> p1"
    "unat p1 < 10 ^ k"
    using find_largest_pow10_ok [OF p1] by metis
  have gen: "grisu2_digit_gen dexp Mm w Mp =
      bind_out (integral_digits s p2 delta dst k p1 pow10 []) (\<lambda>r. case r of
        Inl (buffer, n) \<Rightarrow> Done (buffer, dexp + n)
      | Inr buffer \<Rightarrow> JSON_ASSERT (delta < p2) (bind_out (fraction_digits s p2 delta dst buffer 0) (\<lambda>(buffer1, m).
          Done (buffer1, dexp - m))))"
  proof -
    have sub: "diyfp_sub Mp Mm = Done (diyfp_of delta (- int s))" "diyfp_sub Mp w = Done (diyfp_of dst (- int s))"
      using e le by (simp_all add: diyfp_sub_def JSON_ASSERT_def delta_def dst_def)
    have ns: "nat (- (- int s)) = s" by simp
    have as: "- 60 \<le> - int s" "- int s \<le> - 32" using s by simp_all
    show ?thesis
      unfolding grisu2_digit_gen_def sub e bind_out_simps Let_def diyfp_of_def diyfp.simps ns p1_def [symmetric]
        p2_def [symmetric] fl prod.case JSON_ASSERT_def
      using p1 as by (simp only: if_True)
  qed
  have len: "?M < 10 ^ 16 * (?M - ?m) \<Longrightarrow> ?M * 10 ^ j < 10 ^ 16 * (unat delta * 10 ^ j)" for j
    unfolding ud by simp
  have "(\<exists>buf' B' i. integral_digits s p2 delta dst k p1 pow10 [] = Done (Inl (buf', int i)) \<and>
         generated ?M (unat delta) buf' B' (10 ^ i * 2 ^ s)) \<or>
      (\<exists>buf' B'. integral_digits s p2 delta dst k p1 pow10 [] = Done (Inr buf') \<and> decimal buf' B' \<and> buf' \<noteq> [] \<and>
         B' * 2 ^ s + unat p2 = ?M \<and> delta < p2)"
    using integral_digits_ok [OF s(2) _ dd, of p2 p1 k pow10 "[]" 0 ?M] up2 k total le' ud unat_lt2p [of "fp_f Mp"]
    by (simp add: decimal_Nil word_le_nat_alt)
  then show thesis
  proof (elim disjE exE conjE)
    fix buf n i
    assume "integral_digits s p2 delta dst k p1 pow10 [] = Done (Inl (buf, int i))"
      and g: "generated ?M (unat delta) buf n (10 ^ i * 2 ^ s)"
    then have r: "grisu2_digit_gen dexp Mm w Mp = Done (buf, dexp + int i)" unfolding gen by simp
    note real = generated_real [of ?M 0 "unat delta" buf n i s]
    show thesis
      by (rule that [OF r]) (use g real generated_length [OF g] ud le' in \<open>auto simp: generated_def\<close>)
  next
    fix buf0 B
    assume "integral_digits s p2 delta dst k p1 pow10 [] = Done (Inr buf0)" "decimal buf0 B" "buf0 \<noteq> []"
      "B * 2 ^ s + unat p2 = ?M" "delta < p2"
    moreover from this obtain buf n j where "fraction_digits s p2 delta dst buf0 0 = Done (buf, 0 + int j)"
      and g: "generated (?M * 10 ^ j) (unat delta * 10 ^ j) buf n (2 ^ s)"
      using fraction_digits_ok [OF s(2), of p2 delta dst buf0 B ?M 0] up2 dd by auto
    ultimately have r: "grisu2_digit_gen dexp Mm w Mp = Done (buf, dexp + - int j)"
      unfolding gen by (simp add: JSON_ASSERT_def)
    note real = generated_real [of ?M j "unat delta" buf n 0 s]
    show thesis
      by (rule that [OF r]) (use g real generated_length [OF g] len [of j] ud le' in \<open>auto simp: generated_def\<close>)
  qed
qed

section \<open>The scaled boundaries\<close>

text \<open>The rounded product is off by at most a half, and by less than one from the exact power of ten.\<close>

lemma mul_error:
  fixes v c :: nat
  defines "W \<equiv> (v * c + 2 ^ 63) div 2 ^ 64"
  shows "\<bar>real W - real v * (real c / 2 ^ 64)\<bar> \<le> 1 / 2"
proof -
  have "W * 2 ^ 64 \<le> v * c + 2 ^ 63" "v * c + 2 ^ 63 < (W + 1) * 2 ^ 64"
    unfolding W_def by (simp_all add: div_times_less_eq_dividend dividend_less_div_times)
  then have "real (W * 2 ^ 64) \<le> real (v * c + 2 ^ 63)" "real (v * c + 2 ^ 63) < real ((W + 1) * 2 ^ 64)"
    by (simp_all only: of_nat_le_iff of_nat_less_iff)
  then have "real W * 2 ^ 64 \<le> real v * real c + 2 ^ 63" "real v * real c + 2 ^ 63 < (real W + 1) * 2 ^ 64" by simp_all
  then show ?thesis by (simp add: abs_le_iff field_simps)
qed

lemma power_error:
  assumes close: "close_to_power (cf, ce, ck)" and v: "v < 2 ^ 64"
  shows "\<bar>real v * (real (unat cf) / 2 ^ 64) - real v * 10 powi ck / 2 powi (ce + 64)\<bar> < 1 / 2"
proof -
  define r where "r = (10 :: real) powi ck / 2 powi ce"
  have t: "10 powi ck = r * 2 powi ce" by (simp add: r_def)
  have "\<bar>real (unat cf) * 2 powi ce - r * 2 powi ce\<bar> * 2 \<le> 1 * 2 powi ce"
    using close unfolding t [symmetric] by (simp add: close_to_power_def)
  then have c: "\<bar>real (unat cf) - r\<bar> \<le> 1 / 2" by (subst (asm) scaled_abs) simp_all
  have eq: "real v * (real (unat cf) / 2 ^ 64) - real v * 10 powi ck / 2 powi (ce + 64) = real v / 2 ^ 64 * (real (unat cf) - r)"
    unfolding t by (simp add: power_int_add right_diff_distrib)
  have "\<bar>real v / 2 ^ 64 * (real (unat cf) - r)\<bar> \<le> real v / 2 ^ 64 * (1 / 2)"
    unfolding abs_mult using c by (intro mult_mono) simp_all
  also have "\<dots> < 1 * (1 / 2)"
  proof (rule mult_strict_right_mono)
    have "real v < real (2 ^ 64)" using v by (simp only: of_nat_less_iff)
    then show "real v / 2 ^ 64 < 1" by simp
  qed simp
  finally show ?thesis unfolding eq by simp
qed

lemma scaled_error:
  assumes "close_to_power (cf, ce, ck)"
  shows "\<bar>real (unat (fp_f (diyfp_mul x (diyfp_of cf ce)))) - real (unat (fp_f x)) * (real (unat cf) / 2 ^ 64)\<bar> \<le> 1 / 2"
    and "\<bar>real (unat (fp_f (diyfp_mul x (diyfp_of cf ce)))) - real (unat (fp_f x)) * 10 powi ck / 2 powi (ce + 64)\<bar> < 1"
proof -
  show a: "\<bar>real (unat (fp_f (diyfp_mul x (diyfp_of cf ce)))) - real (unat (fp_f x)) * (real (unat cf) / 2 ^ 64)\<bar> \<le> 1 / 2"
    using mul_error [of "unat (fp_f x)" "unat cf"] by (simp add: unat_diyfp_mul diyfp_of_def)
  show "\<bar>real (unat (fp_f (diyfp_mul x (diyfp_of cf ce)))) - real (unat (fp_f x)) * 10 powi ck / 2 powi (ce + 64)\<bar> < 1"
  proof -
    have "unat (fp_f x) < 2 ^ 64" using unat_lt2p [of "fp_f x"] by simp
    from a power_error [OF assms this] show ?thesis by linarith
  qed
qed

text \<open>What the code needs of the three scaled numbers, from the gap between the boundaries.\<close>

lemma scaled_gaps:
  fixes wp w wm c :: nat and Wp W Wm :: nat
  assumes c: "2 ^ 63 \<le> c" and big: "2 ^ 63 \<le> wp"
    and gaps: "w + 2 ^ 10 \<le> wp" "wm + 2 ^ 9 \<le> w" "wp \<le> 2 ^ 53 * (wp - wm)"
    and err: "\<bar>real Wp - real wp * (real c / 2 ^ 64)\<bar> \<le> 1 / 2" "\<bar>real W - real w * (real c / 2 ^ 64)\<bar> \<le> 1 / 2"
      "\<bar>real Wm - real wm * (real c / 2 ^ 64)\<bar> \<le> 1 / 2"
  shows "Wm + 1 \<le> W" and "W + 1 \<le> Wp" and "2 ^ 60 < Wp" and "Wp - 1 < 10 ^ 16 * ((Wp - 1) - (Wm + 1))"
proof -
  define t where "t = real c / 2 ^ 64"
  have "real (2 ^ 63) \<le> real c" using c by (simp only: of_nat_le_iff)
  then have t: "1 / 2 \<le> t" by (simp add: t_def)
  have scale: "(real y - real x) * t \<ge> real d * (1 / 2)" if "x + d \<le> y" for x y d :: nat
    using that t by (intro mult_mono) simp_all
  have e: "\<bar>real Wp - real wp * t\<bar> \<le> 1 / 2" "\<bar>real W - real w * t\<bar> \<le> 1 / 2" "\<bar>real Wm - real wm * t\<bar> \<le> 1 / 2"
    using err unfolding t_def .
  have d: "512 \<le> real wp * t - real w * t" "256 \<le> real w * t - real wm * t" "768 \<le> real wp * t - real wm * t"
    using scale [OF gaps(1)] scale [OF gaps(2)] by (simp_all add: left_diff_distrib)
  have "real Wm + 1 \<le> real W" "real W + 1 \<le> real Wp" using e d unfolding abs_le_iff by linarith+
  then show le: "Wm + 1 \<le> W" "W + 1 \<le> Wp" by simp_all
  have "real (2 ^ 63) \<le> real wp" using big by (simp only: of_nat_le_iff)
  then have "real (2 ^ 63) * (1 / 2) \<le> real wp * t" using t by (intro mult_mono) simp_all
  then have "real (2 ^ 60) < real Wp" using e(1) unfolding abs_le_iff by simp
  then show "2 ^ 60 < Wp" by (simp only: of_nat_less_iff)
  have "real wp \<le> real (2 ^ 53 * (wp - wm))" using gaps(3) by (simp only: of_nat_le_iff)
  then have "real wp \<le> 2 ^ 53 * (real wp - real wm)" using gaps(1,2) by (simp add: of_nat_diff)
  then have "real wp * t \<le> 2 ^ 53 * (real wp - real wm) * t" using t by (intro mult_right_mono) simp_all
  then have "real wp * t \<le> 9007199254740992 * (real wp * t) - 9007199254740992 * (real wm * t)"
    by (simp add: algebra_simps)
  then have "real Wp - 1 < 10000000000000000 * real Wp - 10000000000000000 * real Wm - 20000000000000000"
    using e(1,3) d(3) unfolding abs_le_iff by linarith
  moreover have "real ((Wp - 1) - (Wm + 1)) = real Wp - real Wm - 2" "real (Wp - 1) = real Wp - 1" using le by (simp_all add: of_nat_diff)
  ultimately have "real (Wp - 1) < real (10 ^ 16 * ((Wp - 1) - (Wm + 1)))" by simp
  then show "Wp - 1 < 10 ^ 16 * ((Wp - 1) - (Wm + 1))" by (simp only: of_nat_less_iff)
qed

lemma boundary_gaps:
  assumes "0 < n" and j: "11 \<le> j"
    and w: "w = significand n * 2 ^ j" and wp: "wp = (2 * significand n + 1) * 2 ^ (j - 1)"
    and wm: "wm = (if closer_below n then (4 * significand n - 1) * 2 ^ (j - 2) else (2 * significand n - 1) * 2 ^ (j - 1))"
  shows "w + 2 ^ 10 \<le> wp" and "wm + 2 ^ 9 \<le> w" and "wp \<le> 2 ^ 53 * (wp - wm)"
proof -
  define p where "p = (2 :: nat) ^ (j - 2)"
  have pj: "(2 :: nat) ^ j = 4 * p" "(2 :: nat) ^ (j - 1) = 2 * p"
  proof -
    obtain i where "j = Suc (Suc i)" by (rule that [of "j - 2"]) (use j in simp)
    then show "(2 :: nat) ^ j = 4 * p" "(2 :: nat) ^ (j - 1) = 2 * p" by (simp_all add: p_def)
  qed
  have "(2 :: nat) ^ 9 \<le> 2 ^ (j - 2)" using j by (intro power_increasing) simp_all
  then have p: "512 \<le> p" by (simp add: p_def)
  have f: "0 < significand n" "significand n < 2 ^ 53" using significand_bounds assms(1) by simp_all
  have eqs: "w = 4 * (significand n * p)" "wp = 4 * (significand n * p) + 2 * p"
    "wm = (if closer_below n then 4 * (significand n * p) - p else 4 * (significand n * p) - 2 * p)"
    unfolding w wp wm pj by (simp_all add: algebra_simps p_def)
  have sp: "p \<le> significand n * p" using f(1) by simp
  show "w + 2 ^ 10 \<le> wp" unfolding eqs using p by simp
  have "4 * (significand n * p) - p + 512 \<le> 4 * (significand n * p)" using p sp by linarith
  moreover have "4 * (significand n * p) - 2 * p + 512 \<le> 4 * (significand n * p)" using p sp by linarith
  ultimately show "wm + 2 ^ 9 \<le> w" unfolding eqs by simp
  have "wp - wm = (if closer_below n then 3 * p else 4 * p)" unfolding eqs using sp by simp
  moreover have "(4 * significand n + 2) * p \<le> 2 ^ 55 * p" if "\<not> closer_below n" using f(2) by (intro mult_le_mono1) simp
  moreover have "(4 * significand n + 2) * p \<le> 3 * 2 ^ 53 * p" if "closer_below n"
    using closer_significand [OF that] by (intro mult_le_mono1) simp
  ultimately show "wp \<le> 2 ^ 53 * (wp - wm)" unfolding eqs(2) by (simp add: algebra_simps)
qed

lemma grisu2_ok:
  assumes fin: "is_finite b" and pos: "\<not> sign_bit b" "b \<noteq> 0"
  obtains buf n x where "grisu2 b = Done (buf, x)" and "decimal buf n" and "buf \<noteq> []" and "length buf \<le> 17"
    and "lower (unat b) < real n * 10 powi x" and "real n * 10 powi x < upper (unat b)"
proof -
  let ?n = "unat b"
  obtain w wm wp j where cb: "compute_boundaries b = Done (w, wm, wp)"
    and f: "unat (fp_f w) = significand ?n * 2 ^ j" "unat (fp_f wp) = (2 * significand ?n + 1) * 2 ^ (j - 1)"
      "unat (fp_f wm) = (if closer_below ?n then (4 * significand ?n - 1) * 2 ^ (j - 2)
        else (2 * significand ?n - 1) * 2 ^ (j - 1))"
    and e: "fp_e w = exponent ?n - int j" "fp_e wm = exponent ?n - int j" "fp_e wp = exponent ?n - int j"
    and j: "11 \<le> j" "j \<le> 63" "2 ^ 63 \<le> significand ?n * 2 ^ j"
    by (rule compute_boundaries_ok [OF assms])
  have n: "0 < ?n" "?n < 2047 * 2 ^ 52" using pos fin is_finite_nat by (simp_all add: unat_gt_0)
  note gaps = boundary_gaps [OF n(1) j(1) f]
  have "?n div 2 ^ 52 < 2047" using n(2) by (intro less_mult_imp_div_less) simp
  then have ex: "- 1137 \<le> exponent ?n - int j" "exponent ?n - int j \<le> 960"
    using j(1,2) by (auto simp: exponent_def)
  obtain cf ce ck where gc: "get_cached_power_for_binary_exponent (exponent ?n - int j) = Done (cf, ce, ck)"
    and c: "2 ^ 63 \<le> unat cf" "close_to_power (cf, ce, ck)"
    and rng: "- 60 \<le> ce + (exponent ?n - int j) + 64" "ce + (exponent ?n - int j) + 64 \<le> - 32"
    by (rule cached_power_ok [OF ex])
  define s where "s = nat (- (ce + (exponent ?n - int j) + 64))"
  have s: "32 \<le> s" "s \<le> 60" "- int s = exponent ?n - int j + ce + 64" using rng by (simp_all add: s_def)
  let ?W = "\<lambda>x. diyfp_mul x (diyfp_of cf ce)"
  define Mm Mp where "Mm = diyfp_of (fp_f (?W wm) + 1) (- int s)" and "Mp = diyfp_of (fp_f (?W wp) - 1) (- int s)"
  note err = scaled_error [OF c(2)]
  have big: "2 ^ 63 \<le> unat (fp_f wp)" using gaps(1) j(3) f(1) by linarith
  note g = scaled_gaps [OF c(1) big gaps err(1) err(1) err(1)]
  have um: "unat (fp_f Mm) = unat (fp_f (?W wm)) + 1" "unat (fp_f Mp) = unat (fp_f (?W wp)) - 1"
  proof -
    have "unat (fp_f (?W wm) + 1) = unat (fp_f (?W wm)) + 1"
      using g(1) unat_lt2p [of "fp_f (?W w)"] by (subst unat_add_small) simp_all
    then show "unat (fp_f Mm) = unat (fp_f (?W wm)) + 1" by (simp add: Mm_def diyfp_of_def)
    have "unat (fp_f (?W wp) - 1) = unat (fp_f (?W wp)) - 1"
      using g(2) by (subst unat_sub) (simp_all add: word_le_nat_alt)
    then show "unat (fp_f Mp) = unat (fp_f (?W wp)) - 1" by (simp add: Mp_def diyfp_of_def)
  qed
  have We: "fp_e (?W w) = - int s" "fp_e (?W wm) = - int s" "fp_e (?W wp) = - int s"
    using s(3) e by (simp_all add: unat_diyfp_mul diyfp_of_def)
  have gr: "grisu2 b = grisu2_digit_gen (- ck) Mm (?W w) Mp"
    using fin pos gc by (simp add: grisu2_def cb grisu2_scaled_def JSON_ASSERT_def e We Mm_def Mp_def Let_def)
  obtain buf n x where r: "grisu2_digit_gen (- ck) Mm (?W w) Mp = Done (buf, - ck + x)"
    and d: "decimal buf n" "buf \<noteq> []"
    and v: "real (unat (fp_f Mm)) \<le> real n * 10 powi x * 2 ^ s" "real n * 10 powi x * 2 ^ s \<le> real (unat (fp_f Mp))"
    and l: "unat (fp_f Mp) < 10 ^ 16 * (unat (fp_f Mp) - unat (fp_f Mm)) \<Longrightarrow> length buf \<le> 17"
  proof (rule grisu2_digit_gen_ok [of Mp s Mm "?W w" "- ck"])
    have "(2 :: nat) ^ s \<le> 2 ^ 60" using s(2) by (intro power_increasing) simp_all
    then show "2 ^ s \<le> unat (fp_f Mp)" using g(3) um(2) by linarith
  qed (use s We um g in \<open>simp_all add: Mm_def Mp_def diyfp_of_def word_le_nat_alt word_less_nat_alt\<close>)
  have len: "length buf \<le> 17" using l g(4) unfolding um .
  have two: "(2 :: real) powi (ce + 64) = 2 powi (- int s) / 2 powi (exponent ?n - int j)"
    unfolding s(3) by (simp add: power_int_diff power_int_add)
  have exact: "real f * 10 powi ck / 2 powi (ce + 64) = real f * 2 powi (exponent ?n - int j) * 10 powi ck * 2 ^ s" for f :: nat
    unfolding two by (simp add: power_int_minus field_simps)
  note bv = boundary_values [OF n(1)]
  have shift: "real (a * 2 ^ (j - i)) * 2 powi (exponent ?n - int j) = real a * 2 powi (exponent ?n - int i)"
    if "i \<le> 2" for a i
  proof -
    have "(2 :: real) ^ (j - i) = 2 powi (int j - int i)" using that j(1) by (simp add: power_int_def nat_diff_distrib)
    then show ?thesis by (simp add: mult.assoc flip: power_int_add)
  qed
  have up: "real (unat (fp_f wp)) * 2 powi (exponent ?n - int j) = upper ?n"
    unfolding f bv(1) using shift [of 1] by (simp only: of_nat_1 one_le_numeral)
  have lo: "real (unat (fp_f wm)) * 2 powi (exponent ?n - int j) = lower ?n"
    unfolding f bv(2) using shift [of 1] shift [of 2]
    by (cases "closer_below ?n") (simp_all only: if_True if_False of_nat_1 of_nat_numeral one_le_numeral order_refl)
  have "lower ?n * 10 powi ck * 2 ^ s < real (unat (fp_f Mm))"
    using err(2) [of wm] unfolding exact lo um(1) abs_less_iff by simp
  then have "lower ?n * 10 powi ck * 2 ^ s < real n * 10 powi x * 2 ^ s" using v(1) by linarith
  then have a: "lower ?n * 10 powi ck < real n * 10 powi x" by simp
  have "real (unat (fp_f Mp)) < upper ?n * 10 powi ck * 2 ^ s"
    using err(2) [of wp] g(2) unfolding exact up um(2) abs_less_iff by (simp add: of_nat_diff)
  then have "real n * 10 powi x * 2 ^ s < upper ?n * 10 powi ck * 2 ^ s" using v(2) by linarith
  then have b: "real n * 10 powi x < upper ?n * 10 powi ck" by simp
  show thesis
  proof (rule that [OF gr [unfolded r] d len])
    have eq: "real n * 10 powi (- ck + x) = real n * 10 powi x / 10 powi ck"
      using power_int_diff [of "10 :: real" x ck] by simp
    show "lower ?n < real n * 10 powi (- ck + x)" unfolding eq using a by (simp add: pos_less_divide_eq)
    show "real n * 10 powi (- ck + x) < upper ?n" unfolding eq using b by (simp add: pos_divide_less_eq)
  qed
qed

end
