(* ===== verification/Float_Text.thy ===== *)
theory Float_Text
  imports Grisu_Spec Json_Reader_Spec
begin

text \<open>
  The text \<open>dump_float\<close> writes: what \<open>format_buffer\<close> makes of the digits denotes their value, it is a
  JSON number of at most 24 characters, and the only double this value rounds to is the one it was
  written for.
\<close>

section \<open>The value of a decimal text\<close>

definition decimal_value :: "bytes \<Rightarrow> real" where
  "decimal_value t = (case float_parts t of (m, e) \<Rightarrow> real m * 10 powi e)"

lemma digit_no_mark: "is_digit c \<Longrightarrow> c \<noteq> 46 \<and> c \<noteq> 45 \<and> c \<noteq> 43 \<and> \<not> is_exp c"
  by (auto simp: is_digit_def is_exp_def)

lemma digits_no_mark:
  "list_all is_digit ds \<Longrightarrow> takeWhile (\<lambda>c. \<not> is_exp c) (ds @ r) = ds @ takeWhile (\<lambda>c. \<not> is_exp c) r"
  "list_all is_digit ds \<Longrightarrow> dropWhile (\<lambda>c. \<not> is_exp c) (ds @ r) = dropWhile (\<lambda>c. \<not> is_exp c) r"
  "list_all is_digit ds \<Longrightarrow> dropWhile (\<lambda>c. c \<noteq> 46) (ds @ r) = dropWhile (\<lambda>c. c \<noteq> 46) r"
  "list_all is_digit ds \<Longrightarrow> filter (\<lambda>c. c \<noteq> 46) ds = ds"
  by (induction ds) (auto simp: digit_no_mark)

text \<open>A fraction and an exponent as the printer writes them.\<close>

definition fraction_text :: "bytes \<Rightarrow> bytes" where
  "fraction_text fs = (if fs = [] then [] else 46 # fs)"

definition exponent_of :: "bytes \<Rightarrow> int" where
  "exponent_of ex = (if ex \<noteq> [] \<and> hd ex = 45 then - int (dec_acc 0 (tl ex)) else int (dec_acc 0 (unsign ex)))"

lemma float_parts_of:
  assumes ds: "list_all is_digit ds" "ds \<noteq> []" and fs: "list_all is_digit fs" and ex: "exs = [] \<or> exs = 101 # ex"
  shows "float_parts (ds @ fraction_text fs @ exs) = (dec_acc 0 (ds @ fs), exponent_of (tl exs) - int (length fs))"
proof -
  obtain c cs where c: "ds = c # cs" "is_digit c" using ds by (cases ds) auto
  have un: "unsign (ds @ r) = ds @ r" for r using c digit_no_mark [of c] by (auto simp: unsign_def)
  have tw: "takeWhile (\<lambda>c. \<not> is_exp c) (ds @ fraction_text fs @ exs) = ds @ fraction_text fs"
    using ex digits_no_mark(1) [OF ds(1)] digits_no_mark(1) [OF fs, of exs]
    by (auto simp: fraction_text_def is_exp_def)
  have dw: "dropWhile (\<lambda>c. \<not> is_exp c) (ds @ fraction_text fs @ exs) = exs"
    using ex digits_no_mark(2) [OF ds(1)] digits_no_mark(2) [OF fs, of exs]
    by (auto simp: fraction_text_def is_exp_def)
  have fr: "tl (dropWhile (\<lambda>c. c \<noteq> 46) (ds @ fraction_text fs)) = fs"
    using digits_no_mark(3) [OF ds(1)] by (simp add: fraction_text_def)
  have fl: "filter (\<lambda>c. c \<noteq> 46) (ds @ fraction_text fs) = ds @ fs"
    using digits_no_mark(4) [OF ds(1)] digits_no_mark(4) [OF fs] by (simp add: fraction_text_def)
  show ?thesis unfolding float_parts_def un tw dw Let_def fr fl exponent_of_def by simp
qed

lemma float_parts_minus: "list_all is_digit ds \<Longrightarrow> ds \<noteq> [] \<Longrightarrow> float_parts (45 # ds @ r) = float_parts (ds @ r)"
proof -
  assume ds: "list_all is_digit ds" "ds \<noteq> []"
  then obtain c cs where c: "ds = c # cs" "is_digit c" by (cases ds) auto
  have "unsign (45 # ds @ r) = ds @ r" "unsign (ds @ r) = ds @ r"
    using c digit_no_mark [of c] by (auto simp: unsign_def)
  then show ?thesis by (simp add: float_parts_def is_exp_def)
qed

definition exponent_digits :: "nat \<Rightarrow> bytes" where
  "exponent_digits k =
     (if k < 10 then [48, word_of_nat (48 + k)]
      else if k < 100 then [word_of_nat (48 + k div 10), word_of_nat (48 + k mod 10)]
      else [word_of_nat (48 + k div 100), word_of_nat (48 + k mod 100 div 10), word_of_nat (48 + k mod 100 mod 10)])"

lemma exponent_digits_ok:
  assumes "k < 1000"
  shows "list_all is_digit (exponent_digits k)" and "dec_acc 0 (exponent_digits k) = k"
    and "exponent_digits k \<noteq> []" and "length (exponent_digits k) \<le> 3"
proof -
  have z: "is_digit 48" "digit_val 48 = 0" by (simp_all add: is_digit_def digit_val_def)
  have k: "k div 100 < 10" "k mod 100 div 10 < 10" "k mod 100 mod 10 < 10" using assms by (auto simp: less_mult_imp_div_less)
  have eq: "10 * (10 * (k div 100) + k mod 100 div 10) + k mod 100 mod 10 = k"
    using mult_div_mod_eq [of 10 "k mod 100"] mult_div_mod_eq [of 100 k] unfolding distrib_left by linarith
  show "list_all is_digit (exponent_digits k)"
    using z k by (simp add: exponent_digits_def is_digit_digit less_mult_imp_div_less del: of_nat_add)
  show "dec_acc 0 (exponent_digits k) = k"
    using z k eq by (simp add: exponent_digits_def digit_val_digit less_mult_imp_div_less del: of_nat_add)
qed (simp_all add: exponent_digits_def)

lemma append_exponent_ok:
  assumes "- 1000 < e" and "e < 1000"
  obtains ex where "append_exponent e = Done ex" and "exponent_of ex = e" and "exp_part (101 # ex)" and "length ex \<le> 4"
proof -
  define ex where "ex = (if e < 0 then 45 else 43 :: u8) # exponent_digits (nat \<bar>e\<bar>)"
  have k: "nat \<bar>e\<bar> < 1000" using assms by linarith
  note d = exponent_digits_ok [OF k]
  have a: "append_exponent e = Done ex"
    using assms by (simp add: append_exponent_def JSON_ASSERT_def Let_def ex_def exponent_digits_def)
  show thesis
  proof (rule that [OF a])
    show "exponent_of ex = e" using d(2) by (cases "e < 0") (simp_all add: exponent_of_def ex_def unsign_def)
    show "exp_part (101 # ex)" using d(1,3) by (simp add: exp_part_def is_exp_def ex_def unsign_def)
    show "length ex \<le> 4" using d(4) by (simp add: ex_def)
  qed
qed

section \<open>Formatting\<close>

lemma dec_acc_zeros: "dec_acc a (replicate k 48 @ cs) = dec_acc (a * 10 ^ k) cs"
  by (induction k arbitrary: a) (simp_all add: digit_val_def algebra_simps)

text \<open>The text of a positive number: its parts, its value and its length.\<close>

definition printed :: "nat \<Rightarrow> int \<Rightarrow> bytes \<Rightarrow> bool" where
  "printed n x t \<longleftrightarrow>
     (\<exists>ds fs exs. t = ds @ fraction_text fs @ exs \<and> int_part ds \<and> frac_part (fraction_text fs) \<and> exp_part exs \<and>
        fraction_text fs @ exs \<noteq> []) \<and>
     (\<forall>sg. sg = [] \<or> sg = [45] \<longrightarrow> decimal_value (sg @ t) = real n * 10 powi x) \<and> length t \<le> 23"

lemma printedI:
  assumes ds: "int_part ds" and fs: "list_all is_digit fs" and exs: "exs = [] \<or> exs = 101 # ex" "exp_part exs"
    and ne: "fraction_text fs @ exs \<noteq> []" and len: "length (ds @ fraction_text fs @ exs) \<le> 23"
    and val: "real (dec_acc 0 (ds @ fs)) * 10 powi (exponent_of (tl exs) - int (length fs)) = real n * 10 powi x"
  shows "printed n x (ds @ fraction_text fs @ exs)"
proof -
  have d: "list_all is_digit ds" "ds \<noteq> []" using ds by (simp_all add: int_part_def)
  have "frac_part (fraction_text fs)" using fs by (simp add: frac_part_def fraction_text_def)
  moreover have "decimal_value (sg @ ds @ fraction_text fs @ exs) = real n * 10 powi x" if "sg = [] \<or> sg = [45]" for sg
    using that float_parts_of [OF d fs exs(1)] float_parts_minus [OF d, of "fraction_text fs @ exs"] val
    by (auto simp: decimal_value_def)
  ultimately show ?thesis using ds exs(2) ne len unfolding printed_def by blast
qed

lemma no_exponent: "exponent_of [] = 0" "exp_part []"
  by (simp_all add: exponent_of_def exp_part_def unsign_def)

lemma format_buffer_ok:
  assumes dec: "decimal buf n" and ne: "buf \<noteq> []" and len: "length buf \<le> 17"
    and x: "- 999 < int (length buf) + x" "int (length buf) + x < 1001"
  obtains t where "format_buffer buf x (- 4) 15 = Done t" and "printed n x t"
proof -
  let ?k = "length buf" and ?n = "int (length buf) + x"
  have b: "list_all is_digit buf" "dec_acc 0 buf = n" "hd buf \<noteq> 48" using dec ne by (simp_all add: decimal_def)
  have ip: "int_part (take i buf)" if "0 < i" for i
    using b(1,3) ne that by (auto simp: int_part_def list_all_iff dest: in_set_takeD)
  have z: "is_digit 48" by (simp add: is_digit_def)
  consider (A) "int ?k \<le> ?n" "?n \<le> 15" | (B) "0 < ?n" "?n \<le> 15" "?n < int ?k" | (C) "- 4 < ?n" "?n \<le> 0"
    | (D) "15 < ?n \<or> ?n \<le> - 4" by linarith
  then show thesis
  proof cases
    case A
    let ?ds = "buf @ replicate (nat ?n - nat (int ?k)) 48"
    have f: "format_buffer buf x (- 4) 15 = Done (?ds @ fraction_text [48] @ [])"
      using A by (simp add: format_buffer_def JSON_ASSERT_def Let_def fraction_text_def)
    have x0: "0 \<le> x" "nat ?n - nat (int ?k) = nat x" using A by simp_all
    show thesis
    proof (rule that [OF f], rule printedI)
      show "int_part ?ds" using b ne z by (auto simp: int_part_def list_all_iff)
      have "dec_acc 0 (?ds @ [48]) = n * 10 ^ nat x * 10"
        using b(2) x0(2) dec_acc_zeros [of n "nat x" "[48]"] by (simp add: dec_acc_append digit_val_def)
      then show "real (dec_acc 0 (?ds @ [48])) * 10 powi (exponent_of (tl []) - int (length [48 :: u8])) = real n * 10 powi x"
        using x0(1) by (simp add: no_exponent power_int_def)
    qed (use A z no_exponent in \<open>simp_all add: fraction_text_def\<close>)
  next
    case B
    let ?ds = "take (nat ?n) buf" and ?fs = "drop (nat ?n) buf"
    have fs: "?fs \<noteq> []" using B by simp
    have f: "format_buffer buf x (- 4) 15 = Done (?ds @ fraction_text ?fs @ [])"
      using B fs by (simp add: format_buffer_def JSON_ASSERT_def Let_def fraction_text_def)
    have l: "int (length ?fs) = - x" using B by (simp add: of_nat_diff)
    show thesis
    proof (rule that [OF f], rule printedI)
      show "int_part ?ds" using ip B by simp
      show "list_all is_digit ?fs" using b(1) by (auto simp: list_all_iff dest: in_set_dropD)
      show "real (dec_acc 0 (?ds @ ?fs)) * 10 powi (exponent_of (tl []) - int (length ?fs)) = real n * 10 powi x"
        unfolding l using b(2) by (simp add: no_exponent)
    qed (use B fs len no_exponent in \<open>simp_all add: fraction_text_def\<close>)
  next
    case C
    let ?fs = "replicate (nat (- ?n)) 48 @ buf"
    have "\<not> 0 \<le> x" using C ne by (cases buf) auto
    then have f: "format_buffer buf x (- 4) 15 = Done ([48] @ fraction_text ?fs @ [])"
      using C ne by (simp add: format_buffer_def JSON_ASSERT_def Let_def fraction_text_def)
    have l: "int (length ?fs) = - x" using C by simp
    show thesis
    proof (rule that [OF f], rule printedI)
      show "int_part [48]" using z by (simp add: int_part_def)
      show "list_all is_digit ?fs" using b(1) z by (auto simp: list_all_iff)
      have "dec_acc 0 ([48] @ ?fs) = n" using b(2) by (simp add: dec_acc_zeros digit_val_def)
      then show "real (dec_acc 0 ([48] @ ?fs)) * 10 powi (exponent_of (tl []) - int (length ?fs)) = real n * 10 powi x"
        unfolding l by (simp add: no_exponent)
    qed (use C ne len no_exponent in \<open>simp_all add: fraction_text_def\<close>)
  next
    case D
    obtain ex where ex: "append_exponent (?n - 1) = Done ex" "exponent_of ex = ?n - 1" "exp_part (101 # ex)" "length ex \<le> 4"
      using append_exponent_ok [of "?n - 1"] x by auto
    let ?ds = "take 1 buf" and ?fs = "drop 1 buf"
    have hd: "buf = hd buf # tl buf" using ne by simp
    have f: "format_buffer buf x (- 4) 15 = Done (?ds @ fraction_text ?fs @ (101 # ex))"
      using D ex(1) ne
      by (cases buf) (auto simp: format_buffer_def JSON_ASSERT_def Let_def fraction_text_def)
    have l: "int (length ?fs) = int ?k - 1" using ne by (cases buf) simp_all
    show thesis
    proof (rule that [OF f], rule printedI)
      show "int_part ?ds" using ip by simp
      show "list_all is_digit ?fs" using b(1) by (auto simp: list_all_iff dest: in_set_dropD)
      show "real (dec_acc 0 (?ds @ ?fs)) * 10 powi (exponent_of (tl (101 # ex)) - int (length ?fs)) = real n * 10 powi x"
        unfolding l using b(2) ex(2) by simp
      show "length (?ds @ fraction_text ?fs @ 101 # ex) \<le> 23" using ex(4) len by (auto simp: fraction_text_def)
    qed (use ex(3) in simp_all)
  qed
qed

section \<open>The doubles a number rounds to\<close>

definition rounds_to_bits :: "real \<Rightarrow> nat \<Rightarrow> bool" where
  "rounds_to_bits v n \<longleftrightarrow> (n = 0 \<or> lower n < v) \<and> v < upper n"

definition rounds_to :: "bytes \<Rightarrow> u64 \<Rightarrow> bool" where
  "rounds_to t b \<longleftrightarrow> is_finite b \<and> (sign_bit b \<longleftrightarrow> hd t = 45) \<and> rounds_to_bits (decimal_value t) (unat (b AND mask 63))"

lemma float_value_less: "float_value n < float_value (n + 1)"
  unfolding float_value_Suc unfolding float_value_parts by simp

lemma float_value_mono: "n \<le> m \<Longrightarrow> float_value n \<le> float_value m"
  by (rule lift_Suc_mono_le [of float_value]) (use float_value_less in \<open>simp add: less_imp_le\<close>)

lemma rounds_to_bits_unique: "rounds_to_bits v n \<Longrightarrow> rounds_to_bits v m \<Longrightarrow> n = m"
proof -
  have False if "rounds_to_bits v n" "rounds_to_bits v m" "n < m" for n m
  proof -
    have "float_value n \<le> float_value (m - 1)" "float_value (n + 1) \<le> float_value m"
      using that(3) by (intro float_value_mono; simp)+
    then have "upper n \<le> lower m" unfolding upper_def lower_def by simp
    with that show False by (simp add: rounds_to_bits_def)
  qed
  then show "rounds_to_bits v n \<Longrightarrow> rounds_to_bits v m \<Longrightarrow> n = m" by (metis linorder_neqE_nat)
qed

lemma low_bits_eq:
  assumes "unat (b AND mask 63) = unat (b' AND mask 63)" and "sign_bit b = sign_bit b'"
  shows "b = (b' :: u64)"
proof (rule bit_word_eqI)
  fix i :: nat
  assume "i < LENGTH(64)"
  then consider "i < 63" | "i = 63" by fastforce
  then show "bit b i = bit b' i"
  proof cases
    case 1
    have "b AND mask 63 = b' AND mask 63" using assms(1) by (metis word_unat_eq_iff)
    then have "bit (b AND mask 63) i = bit (b' AND mask 63) i" by simp
    with 1 show ?thesis by (simp add: bit_and_iff bit_mask_iff)
  next
    case 2
    with assms(2) show ?thesis by (simp add: sign_bit_def)
  qed
qed

lemma without_sign:
  "\<not> sign_bit (b AND mask 63)" "is_finite (b AND mask 63) = is_finite b"
proof -
  show "\<not> sign_bit (b AND mask 63)" by (simp add: sign_bit_def bit_and_iff bit_mask_iff)
  have "drop_bit 52 (mask 63) = (0x7FF :: u64)" by code_simp
  then show "is_finite (b AND mask 63) = is_finite b" by (simp add: is_finite_def and.assoc)
qed

text \<open>Bounds of what rounds to a finite double.\<close>

lemma boundary_range:
  assumes "0 < n" and "n < 2047 * 2 ^ 52"
  shows "10 powi (- 400) < lower n" and "upper n \<le> 2 ^ 1024 - 2 ^ 970"
proof -
  let ?N = "2047 * 2 ^ 52 - 1 :: nat"
  have "0 \<le> float_value (n - 1)" by (simp add: float_value_parts)
  moreover have "float_value 1 \<le> float_value n" using assms(1) by (intro float_value_mono) simp
  moreover have "float_value 1 = 2 powi (- 1074)" by (simp add: float_value_def)
  ultimately have "2 powi (- 1074) / 2 \<le> lower n" unfolding lower_def by simp
  moreover have "10 powi (- 400) < 2 powi (- 1074) / (2 :: real)" by (simp add: power_int_minus)
  ultimately show "10 powi (- 400) < lower n" by linarith
  have "float_value n \<le> float_value ?N" "float_value (n + 1) \<le> float_value (?N + 1)"
    using assms(2) by (intro float_value_mono; simp)+
  then have "upper n \<le> upper ?N" unfolding upper_def by simp
  also have "upper ?N = (2 ^ 54 - 1) * 2 powi 970"
    using boundary_values(1) [of ?N] by (simp add: significand_def exponent_def)
  also have "\<dots> = 2 ^ 1024 - 2 ^ 970" by (simp add: power_int_def)
  finally show "upper n \<le> 2 ^ 1024 - 2 ^ 970" .
qed

lemma dec_acc_below: "list_all is_digit ds \<Longrightarrow> dec_acc 0 ds < 10 ^ length ds"
proof (induction ds rule: rev_induct)
  case (snoc c ds)
  then have "digit_val c \<le> 9" "dec_acc 0 ds + 1 \<le> 10 ^ length ds" by (auto simp: is_digit_iff digit_val_def)
  then show ?case by (simp add: dec_acc_append)
qed simp

lemma rounds_finite:
  assumes "decimal_value t < 2 ^ 1024 - 2 ^ 970"
  shows "float_finite t"
proof -
  obtain m e where p: "float_parts t = (m, e)" by fastforce
  define c where "c = (2 ^ 1024 - 2 ^ 970 :: nat)"
  have c: "real c = 2 ^ 1024 - 2 ^ 970" by (simp add: c_def)
  have v: "real m * 10 powi e < real c" using assms unfolding decimal_value_def p c by simp
  show ?thesis
  proof (cases "0 \<le> e")
    case True
    then have "real (m * 10 ^ nat e) < real c" using v by (simp add: power_int_def)
    then have "m * 10 ^ nat e < c" by (simp only: of_nat_less_iff)
    then show ?thesis using True by (simp add: float_finite_def p c_def)
  next
    case False
    then have "real m < real c * 10 ^ nat (- e)" using v by (simp add: power_int_def field_simps)
    then have "real m < real (c * 10 ^ nat (- e))" by simp
    then have "m < c * 10 ^ nat (- e)" by (simp only: of_nat_less_iff)
    then show ?thesis using False by (simp add: float_finite_def p c_def)
  qed
qed

text \<open>The digits of a number between the boundaries have an exponent of at most three digits.\<close>

lemma powi_less: "(10 :: real) powi m < 10 powi k \<Longrightarrow> m < k"
  using power_int_increasing [of k m "10 :: real"] by (metis linorder_not_le one_le_numeral)

lemma powi_plus: "(10 :: real) powi (a + b) = 10 powi a * 10 powi b"
  by (simp add: power_int_add)

lemma exponent_range:
  assumes dec: "decimal buf n" "buf \<noteq> []" and v: "10 powi m < real n * 10 powi x" "real n * 10 powi x < 10 powi j"
  shows "m < int (length buf) + x" and "int (length buf) + x < j + 1"
proof -
  let ?k = "length buf"
  have "n < 10 ^ ?k" using dec_acc_below [of buf] dec(1) by (simp add: decimal_def)
  then have "real n < real (10 ^ ?k)" by (simp only: of_nat_less_iff)
  then have "real n < 10 powi int ?k" by simp
  then have "real n * 10 powi x < 10 powi int ?k * 10 powi x" by simp
  with v(1) have "10 powi m < 10 powi int ?k * (10 :: real) powi x" by (rule less_trans)
  then have "(10 :: real) powi m < 10 powi (int ?k + x)" unfolding powi_plus .
  then show "m < int ?k + x" by (rule powi_less)
  have "10 ^ (?k - 1) \<le> n" using decimal_size dec by blast
  then have "real (10 ^ (?k - 1)) \<le> real n" by (simp only: of_nat_le_iff)
  then have "10 ^ (?k - 1) \<le> real n" by simp
  moreover have "(10 :: real) ^ (?k - 1) = 10 powi (int ?k - 1)" using dec(2) by (cases buf) simp_all
  ultimately have "10 powi (int ?k - 1) \<le> real n" by linarith
  then have "10 powi (int ?k - 1) * 10 powi x \<le> real n * 10 powi x" by simp
  then have "(10 :: real) powi (int ?k - 1 + x) \<le> real n * 10 powi x" unfolding powi_plus .
  with v(2) have "(10 :: real) powi (int ?k - 1 + x) < 10 powi j" by linarith
  then show "int ?k + x < j + 1" using powi_less by fastforce
qed

lemma numbers_read: "printed n x t \<Longrightarrow> sg = [] \<or> sg = [45] \<Longrightarrow> number_text (sg @ t) (J_float (sg @ t))"
proof -
  assume "printed n x t" and sg: "sg = [] \<or> sg = [45]"
  then obtain ds fr exs where t: "t = ds @ fr @ exs" and p: "int_part ds" "frac_part fr" "exp_part exs" "fr @ exs \<noteq> []"
    unfolding printed_def by blast
  from float_text [OF p sg] show ?thesis by (simp add: t)
qed

lemma printed_head: "printed n x t \<Longrightarrow> t \<noteq> [] \<and> hd t \<noteq> 45"
proof -
  assume "printed n x t"
  then obtain ds r where t: "t = ds @ r" and ds: "int_part ds" unfolding printed_def by blast
  then obtain c cs where "ds = c # cs" "is_digit c" by (cases ds) (auto simp: int_part_def)
  with t digit_no_mark [of c] show ?thesis by simp
qed

lemma rounds_back:
  assumes "is_finite b" and "sign_bit b \<longleftrightarrow> hd t = 45" and "rounds_to_bits (decimal_value t) (unat (b AND mask 63))"
  shows "{b'. rounds_to t b'} = {b}"
proof -
  have "rounds_to t b" using assms by (simp add: rounds_to_def)
  moreover have "b' = b" if "rounds_to t b'" for b'
  proof (rule low_bits_eq)
    show "unat (b' AND mask 63) = unat (b AND mask 63)"
      using that unfolding rounds_to_def by (blast intro: rounds_to_bits_unique assms(3))
    show "sign_bit b' = sign_bit b" using that assms(2) unfolding rounds_to_def by blast
  qed
  ultimately show ?thesis by blast
qed

text \<open>Zero is written without the algorithm.\<close>

lemma dump_zero:
  assumes "b AND mask 63 = 0"
  shows "is_finite b" and "dump_float b = Done ((if sign_bit b then [45] else []) @ [48, 46, 48])"
proof -
  show f: "is_finite b" using without_sign(2) [of b] by (simp add: assms is_finite_def)
  then show "dump_float b = Done ((if sign_bit b then [45] else []) @ [48, 46, 48])"
    using assms by (simp add: dump_float_def to_chars_def JSON_ASSERT_def Let_def)
qed

lemma zero_text: "printed 0 0 [48, 46, 48]"
proof -
  have "is_digit 48" "digit_val 48 = 0" by (simp_all add: is_digit_def digit_val_def)
  then show ?thesis
    using printedI [of "[48]" "[48]" "[]" "[]" 0 0] no_exponent
    by (simp add: int_part_def fraction_text_def)
qed

lemma dump_nonzero:
  assumes fin: "is_finite b" and nz: "b AND mask 63 \<noteq> 0"
  obtains t n x where "dump_float b = Done ((if sign_bit b then [45] else []) @ t)" and "printed n x t"
    and "rounds_to_bits (real n * 10 powi x) (unat (b AND mask 63))" and "real n * 10 powi x < 2 ^ 1024 - 2 ^ 970"
proof -
  let ?b = "b AND mask 63"
  have m: "is_finite ?b" "\<not> sign_bit ?b" using fin without_sign by simp_all
  obtain buf n x where g: "grisu2 ?b = Done (buf, x)" and d: "decimal buf n" "buf \<noteq> []" "length buf \<le> 17"
    and v: "lower (unat ?b) < real n * 10 powi x" "real n * 10 powi x < upper (unat ?b)"
    by (rule grisu2_ok [OF m nz])
  have r: "0 < unat ?b" "unat ?b < 2047 * 2 ^ 52" using nz m is_finite_nat by (simp_all add: unat_gt_0)
  have v': "10 powi (- 400) < real n * 10 powi x" "real n * 10 powi x < 2 ^ 1024 - 2 ^ 970"
    using boundary_range [OF r] v by linarith+
  have "(2 :: real) ^ 1024 - 2 ^ 970 < 10 powi 400" by simp
  with v'(2) have "real n * 10 powi x < 10 powi 400" by (rule less_trans)
  note e = exponent_range [OF d(1,2) v'(1) this]
  have x: "- 999 < int (length buf) + x" "int (length buf) + x < 1001" using e by linarith+
  obtain t where t: "format_buffer buf x (- 4) 15 = Done t" "printed n x t"
    by (rule format_buffer_ok [OF d x])
  show thesis
  proof (rule that [OF _ t(2) _ v'(2)])
    show "dump_float b = Done ((if sign_bit b then [45] else []) @ t)"
      using fin nz g d(3) t(1) by (simp add: dump_float_def to_chars_def JSON_ASSERT_def Let_def)
    show "rounds_to_bits (real n * 10 powi x) (unat ?b)" using v by (simp add: rounds_to_bits_def)
  qed
qed

lemma dump_float_text:
  assumes "is_finite b"
  shows "\<exists>t. dump_float b = Done t \<and> number_text t (J_float t) \<and> float_finite t \<and> length t \<le> 24 \<and> {b'. rounds_to t b'} = {b}"
proof -
  let ?sg = "if sign_bit b then [45] else [] :: bytes"
  obtain t n x where t: "dump_float b = Done (?sg @ t)" "printed n x t"
    "rounds_to_bits (real n * 10 powi x) (unat (b AND mask 63))" "real n * 10 powi x < 2 ^ 1024 - 2 ^ 970"
  proof (cases "b AND mask 63 = 0")
    case True
    have "rounds_to_bits 0 0" using float_value_less [of 0] by (simp add: rounds_to_bits_def upper_def float_value_def)
    moreover have "(0 :: real) < 2 ^ 1024 - 2 ^ 970" by simp
    ultimately show thesis using dump_zero(2) [OF True] zero_text True by (intro that [of "[48, 46, 48]" 0 0]) simp_all
  qed (use dump_nonzero assms that in blast)
  have sg: "?sg = [] \<or> ?sg = [45]" by simp
  then have val: "decimal_value (?sg @ t) = real n * 10 powi x" using t(2) unfolding printed_def by blast
  have "{b'. rounds_to (?sg @ t) b'} = {b}"
    using assms t(3) val printed_head [OF t(2)] by (intro rounds_back) auto
  moreover have "length (?sg @ t) \<le> 24" using t(2) by (simp add: printed_def)
  moreover have "float_finite (?sg @ t)" using t(4) val rounds_finite by metis
  ultimately show ?thesis using t(1) numbers_read [OF t(2) sg] by blast
qed

section \<open>Round trip\<close>

text \<open>
  C11. \<open>dump_float\<close> writes every finite double (every bit pattern whose exponent field is below 2047,
  zeros and subnormal numbers among them) without failing one of the assertions of Grisu2, as a text
  of at most 24 characters (the buffer has 64) that the parser accepts as one float; and the decimal
  number it denotes rounds to that double and to no other.
\<close>

theorem dump_float_reads_back:
  assumes "is_finite b"
  shows "\<exists>t. dump_float b = Done t \<and> length t \<le> 24 \<and> {b'. rounds_to t b'} = {b} \<and>
    parse strict (Parser_ctor t comments) = Inr (J_float t)"
proof -
  obtain t where t: "dump_float b = Done t" "number_text t (J_float t)" "float_finite t" "length t \<le> 24"
      "{b'. rounds_to t b'} = {b}"
    using dump_float_text [OF assms] by blast
  moreover have "value_text t (J_float t)" using num_text t(2,3) by simp
  then have "parse strict (Parser_ctor ([] @ [] @ t @ []) comments) = Inr (J_float t)"
    by (rule parse_text) (simp_all add: bom_ok_def ends_number_def)
  ultimately show ?thesis by simp
qed

text \<open>The double nearest to -0.1 is written as \<open>-0.1\<close>.\<close>

lemma dump_float_reads_back_witness:
  "dump_float 0xBFB999999999999A = Done [45, 48, 46, 49] \<and>
   {b'. rounds_to [45, 48, 46, 49] b'} = {0xBFB999999999999A} \<and>
   parse True (Parser_ctor [45, 48, 46, 49] False) = Inr (J_float [45, 48, 46, 49])"
proof -
  have d: "dump_float 0xBFB999999999999A = Done [45, 48, 46, 49]" by code_simp
  have "is_finite 0xBFB999999999999A" by code_simp
  from dump_float_reads_back [OF this, of True False] show ?thesis by (simp add: d)
qed

end
