(* ===== verification/Json_Dump_Spec.thy ===== *)
theory Json_Dump_Spec
  imports Json_Dump Float_Text
begin

text \<open>
  What the serializer writes: integers in decimal notation, strings and values as texts of the
  grammar, so that the reader gives the value back. The automaton accepts what the encoding of
  \<open>Json_Grammar\<close> makes.
\<close>

section \<open>Decimal notation\<close>

lemma dec_digits_10: "10 \<le> n \<Longrightarrow> dec_digits n = dec_digits (n div 10) @ [word_of_nat (48 + n mod 10)]"
  by (subst dec_digits.simps) simp

lemma dec_digits_100:
  assumes "100 \<le> n"
  shows "dec_digits n =
    dec_digits (n div 100) @ [word_of_nat (48 + n mod 100 div 10), word_of_nat (48 + n mod 100 mod 10)]"
proof -
  have "n div 10 mod 10 = n mod 100 div 10" by (simp add: mod_mult2_eq [of n 10 10, simplified])
  moreover have "n div 10 div 10 = n div 100" by (simp add: div_mult2_eq [symmetric])
  moreover have "n mod 100 mod 10 = n mod 10" by (simp add: mod_mod_cancel)
  moreover have "dec_digits n = dec_digits (n div 10 div 10) @ [word_of_nat (48 + n div 10 mod 10)] @
      [word_of_nat (48 + n mod 10)]"
    using assms dec_digits_10 [of n] dec_digits_10 [of "n div 10"] by simp
  ultimately show ?thesis by (simp only: append.simps)
qed

lemma length_dec_digits_small:
  "n < 10 \<Longrightarrow> length (dec_digits n) = 1"
  "10 \<le> n \<Longrightarrow> length (dec_digits n) = length (dec_digits (n div 10)) + 1"
  by (subst dec_digits.simps, simp)+

lemma count_digits_from: "count_digits_from x n = n + length (dec_digits (unat x)) - 1"
proof (induction x n rule: count_digits_from.induct)
  case (1 x n)
  let ?n = "unat x"
  have lt: "x < 10 \<longleftrightarrow> ?n < 10" "x < 100 \<longleftrightarrow> ?n < 100" "x < 1000 \<longleftrightarrow> ?n < 1000" "x < 10000 \<longleftrightarrow> ?n < 10000"
    by (simp_all add: word_less_nat_alt)
  have d: "?n div 10 div 10 = ?n div 100" "?n div 100 div 10 = ?n div 1000" "?n div 1000 div 10 = ?n div 10000"
    by (simp_all add: div_mult2_eq [symmetric])
  have s: "10 \<le> m \<Longrightarrow> length (dec_digits m) = length (dec_digits (m div 10)) + 1" for m
    by (rule length_dec_digits_small)
  consider "?n < 10" | "10 \<le> ?n" "?n < 100" | "100 \<le> ?n" "?n < 1000" | "1000 \<le> ?n" "?n < 10000" | "10000 \<le> ?n"
    by linarith
  then show ?case
  proof cases
    case 1
    then show ?thesis by (subst count_digits_from.simps) (simp add: lt length_dec_digits_small)
  next
    case 2
    then show ?thesis
      using s [of ?n] by (subst count_digits_from.simps) (simp add: lt length_dec_digits_small(1))
  next
    case 3
    then show ?thesis
      using s [of ?n] s [of "?n div 10"]
      by (subst count_digits_from.simps) (simp add: lt d length_dec_digits_small(1))
  next
    case 4
    then show ?thesis
      using s [of ?n] s [of "?n div 10"] s [of "?n div 100"]
      by (subst count_digits_from.simps) (simp add: lt d length_dec_digits_small(1))
  next
    case 5
    have "length (dec_digits (?n div 10000)) \<noteq> 0"
      by (subst dec_digits.simps) simp
    with 5 show ?thesis
      using s [of ?n] s [of "?n div 10"] s [of "?n div 100"] s [of "?n div 1000"] "1.IH"
      by (subst count_digits_from.simps) (simp add: lt d unat_div)
  qed
qed

lemma count_digits: "count_digits x = length (dec_digits (unat x))"
  by (simp add: count_digits_def count_digits_from)

lemma write_pair_lists:
  assumes "2 \<le> p" "p \<le> length buf"
  shows "write_pair i p buf =
    take (p - 2) buf @ [word_of_nat (48 + unat i div 10), word_of_nat (48 + unat i mod 10)] @ drop p buf"
proof -
  obtain q where q: "p = Suc (Suc q)" using assms(1) by (metis add_2_eq_Suc le_Suc_ex)
  then have "buf = take q buf @ buf ! q # buf ! Suc q # drop p buf"
    using assms(2) by (simp add: Cons_nth_drop_Suc)
  then have "write_pair i p buf = (take q buf @ buf ! q # buf ! Suc q # drop p buf)
      [Suc q := word_of_nat (48 + unat i mod 10), q := word_of_nat (48 + unat i div 10)]"
    using q by (simp add: write_pair_def digits_to_99_def)
  then show ?thesis using assms(2) q by (simp add: list_update_append min_def)
qed

lemma splice:
  "k \<le> q \<Longrightarrow> q \<le> length buf \<Longrightarrow>
    take k (take q buf @ ds @ t) @ D @ drop q (take q buf @ ds @ t) = take k buf @ (D @ ds) @ t"
  by (simp add: min_def)

lemma unat_numeral_100: "unat (100 :: u64) = 100"
  by simp

lemma write_digits:
  assumes "length (dec_digits (unat x)) \<le> p" "p \<le> length buf"
  shows "write_digits x p buf =
    take (p - length (dec_digits (unat x))) buf @ dec_digits (unat x) @ drop p buf"
  using assms
proof (induction x p buf rule: write_digits.induct)
  case (1 x p buf)
  let ?n = "unat x"
  have ge: "100 \<le> x \<longleftrightarrow> 100 \<le> ?n" "10 \<le> x \<longleftrightarrow> 10 \<le> ?n" by (simp_all add: word_le_nat_alt)
  consider "100 \<le> ?n" | "10 \<le> ?n" "?n < 100" | "?n < 10" by linarith
  then show ?case
  proof cases
    case 1
    let ?m = "?n div 100"
    have dd: "dec_digits ?n = dec_digits ?m @
        [word_of_nat (48 + ?n mod 100 div 10), word_of_nat (48 + ?n mod 100 mod 10)]"
      by (rule dec_digits_100 [OF 1])
    have len: "length (dec_digits ?n) = length (dec_digits ?m) + 2" by (subst dd) simp
    have p: "2 \<le> p" "length (dec_digits ?m) \<le> p - 2" using "1.prems" len by linarith+
    note wp = write_pair_lists [OF p(1) "1.prems"(2), of "x mod 100"]
    have lw: "length (write_pair (x mod 100) p buf) = length buf"
      by (simp add: write_pair_def digits_to_99_def)
    have "write_digits x p buf = write_digits (x div 100) (p - 2) (write_pair (x mod 100) p buf)"
      using 1 by (subst write_digits.simps) (simp add: ge)
    also have "\<dots> = take (p - 2 - length (dec_digits ?m)) (write_pair (x mod 100) p buf) @
        dec_digits ?m @ drop (p - 2) (write_pair (x mod 100) p buf)"
      using "1.IH" [unfolded lw] 1 p "1.prems" by (simp add: ge unat_div)
    also have "\<dots> = take (p - 2 - length (dec_digits ?m)) buf @
        (dec_digits ?m @ [word_of_nat (48 + ?n mod 100 div 10), word_of_nat (48 + ?n mod 100 mod 10)]) @ drop p buf"
      unfolding wp unat_mod unat_numeral_100
      by (rule splice [OF diff_le_self]) (use "1.prems"(2) in linarith)
    also have "\<dots> = take (p - length (dec_digits ?n)) buf @ dec_digits ?n @ drop p buf"
      unfolding dd [symmetric] len by (simp add: add.commute)
    finally show ?thesis .
  next
    case 2
    then have dd: "dec_digits ?n = [word_of_nat (48 + ?n div 10), word_of_nat (48 + ?n mod 10)]"
      using dec_digits_10 [of ?n] by (simp add: dec_digits.simps [of "?n div 10"])
    then have "2 \<le> p" using "1.prems" by simp
    with 2 show ?thesis
      by (subst write_digits.simps)
        (simp add: ge write_pair_lists "1.prems" dd del: of_nat_add, simp add: numeral_2_eq_2)
  next
    case 3
    then have dd: "dec_digits ?n = [word_of_nat (48 + ?n)]" by (simp add: dec_digits.simps [of ?n])
    then obtain q where q: "p = Suc q" using "1.prems" by (cases p) auto
    have "buf[q := word_of_nat (48 + ?n)] = take q buf @ word_of_nat (48 + ?n) # drop p buf"
      using "1.prems"(2) unfolding q by (rule upd_conv_take_nth_drop [OF Suc_le_lessD])
    with 3 q show ?thesis
      by (subst write_digits.simps) (simp add: ge dd not_le)
  qed
qed

lemma length_dec_digits_le: "n < 10 ^ k \<Longrightarrow> 0 < k \<Longrightarrow> length (dec_digits n) \<le> k"
proof (induction k arbitrary: n)
  case (Suc k)
  show ?case
  proof (cases "n < 10")
    case False
    then have "n div 10 < 10 ^ k" "0 < k" using Suc.prems by (auto intro: ccontr)
    then show ?thesis using Suc.IH [of "n div 10"] length_dec_digits_small(2) [of n] False by simp
  qed (simp add: length_dec_digits_small)
qed simp

lemma length_dec_digits_size: "length (dec_digits (unat (x :: u64))) \<le> 20"
  using unat_lt2p [of x] by (intro length_dec_digits_le) simp_all

lemma unat_remove_sign: "sint (x :: u64) < 0 \<Longrightarrow> unat (remove_sign x) = nat (- sint x)"
proof -
  assume neg: "sint x < 0"
  have "remove_sign x = - x" by (simp add: remove_sign_def)
  moreover have "uint (- x) = - sint x"
  proof -
    have "- x = word_of_int (- sint x)" by simp
    then have "uint (- x) = uint (word_of_int (- sint x) :: u64)" by (rule arg_cong)
    also have "\<dots> = (- sint x) mod 2 ^ 64" by (subst uint_word_of_int) simp
    finally have "uint (- x) = (- sint x) mod 2 ^ 64" .
    moreover have "- sint x < 2 ^ 64" using sint_greater_eq [of x] by simp
    ultimately show ?thesis using neg by simp
  qed
  ultimately show ?thesis by (simp add: nat_uint_eq [symmetric])
qed

lemma dec_digits_zero: "dec_digits 0 = [48]"
  by (simp add: dec_digits.simps)

text \<open>The fast routine writes decimal notation, whatever the buffer held.\<close>

lemma dump_integer_unsigned:
  assumes "length buf = 64"
  shows "dump_integer buf False x = dec_digits (unat x)"
proof (cases "x = 0")
  case False
  then show ?thesis
    using write_digits [of x "count_digits x" buf] length_dec_digits_size [of x] assms
    by (simp add: dump_integer_def count_digits)
qed (simp add: dump_integer_def dec_digits_zero)

lemma dump_integer_negative:
  assumes "length buf = 64" and "sint x < 0"
  shows "dump_integer buf True x = 45 # dec_digits (nat (- sint x))"
proof -
  let ?y = "remove_sign x" and ?buf = "buf[0 := 45]"
  have "x \<noteq> 0" using assms(2) by auto
  moreover have "take (Suc 0) ?buf = [45]" using assms(1) by (cases buf) auto
  moreover have "write_digits ?y (1 + count_digits ?y) ?buf =
      take 1 ?buf @ dec_digits (unat ?y) @ drop (1 + count_digits ?y) ?buf"
    using write_digits [of ?y "1 + count_digits ?y" ?buf] length_dec_digits_size [of ?y] assms(1)
    by (simp add: count_digits)
  ultimately show ?thesis
    using assms unat_remove_sign [OF assms(2)]
    by (simp add: dump_integer_def Let_def count_digits)
qed

section \<open>The automaton on encodings\<close>

text \<open>The classes of the bytes and the transitions that well-formed sequences take.\<close>

lemma length_classes: "length utf8_classes = 256"
  by (simp add: utf8_classes_def)

lemma utf8d_class: "c < 256 \<Longrightarrow> utf8d ! c = utf8_classes ! c"
  by (simp add: utf8d_def nth_append length_classes)

lemma utf8d_state: "utf8d ! (256 + i) = utf8_states ! i"
  by (simp add: utf8d_def nth_append length_classes)

lemma class_low: "c < 128 \<Longrightarrow> utf8d ! c = 0"
  by (simp add: utf8d_class) (simp add: utf8_classes_def nth_append)

lemma class_cont: "m < 64 \<Longrightarrow> utf8d ! (128 + m) = (if m < 16 then 1 else if m < 32 then 9 else 7)"
  by (simp add: utf8d_class) (auto simp: utf8_classes_def nth_append)

lemma class_two: "2 \<le> k \<Longrightarrow> k < 32 \<Longrightarrow> utf8d ! (0xC0 + k) = 2"
  by (simp add: utf8d_class) (simp add: utf8_classes_def nth_append)

lemma class_three_table:
  "map (\<lambda>k. utf8d ! (0xE0 + k)) [0..<16] = [0xA, 3, 3, 3, 3, 3, 3, 3, 3, 3, 3, 3, 3, 4, 3, 3]"
  by code_simp

lemma class_four_table: "map (\<lambda>k. utf8d ! (0xF0 + k)) [0..<5] = [0xB, 6, 6, 6, 5]"
  by code_simp

lemma class_three: "k < 16 \<Longrightarrow> utf8d ! (0xE0 + k) = (if k = 0 then 0xA else if k = 13 then 4 else 3)"
proof -
  assume k: "k < 16"
  then have "utf8d ! (0xE0 + k) = map (\<lambda>k. utf8d ! (0xE0 + k)) [0..<16] ! k" by simp
  also have "\<dots> = (if k = 0 then 0xA else if k = 13 then 4 else 3)"
    unfolding class_three_table using k by (auto simp: nth_Cons less_Suc_eq numeral_eq_Suc split: nat.splits)
  finally show ?thesis .
qed

lemma class_four: "k < 5 \<Longrightarrow> utf8d ! (0xF0 + k) = (if k = 0 then 0xB else if k = 4 then 5 else 6)"
proof -
  assume k: "k < 5"
  then have "utf8d ! (0xF0 + k) = map (\<lambda>k. utf8d ! (0xF0 + k)) [0..<5] ! k" by simp
  also have "\<dots> = (if k = 0 then 0xB else if k = 4 then 5 else 6)"
    unfolding class_four_table using k by (auto simp: nth_Cons less_Suc_eq numeral_eq_Suc split: nat.splits)
  finally show ?thesis .
qed

lemma transitions:
  "utf8_states ! 0 = 0" "utf8_states ! 2 = 2" "utf8_states ! 3 = 3" "utf8_states ! 0xA = 4"
  "utf8_states ! 4 = 5" "utf8_states ! 0xB = 6" "utf8_states ! 6 = 7" "utf8_states ! 5 = 8"
  by (simp_all add: utf8_states_def)

lemma cont_transitions:
  "utf8_states ! 33 = 0" "utf8_states ! 39 = 0" "utf8_states ! 41 = 0"
  "utf8_states ! 49 = 2" "utf8_states ! 55 = 2" "utf8_states ! 57 = 2"
  "utf8_states ! 71 = 2" "utf8_states ! 81 = 2" "utf8_states ! 89 = 2"
  "utf8_states ! 103 = 3" "utf8_states ! 105 = 3"
  "utf8_states ! 113 = 3" "utf8_states ! 119 = 3" "utf8_states ! 121 = 3" "utf8_states ! 129 = 3"
  by (simp_all add: utf8_states_def)

text \<open>The state after a byte \<open>0x80 + m\<close>; the automaton is in one of these inside a sequence.\<close>

definition after :: "nat \<Rightarrow> nat \<Rightarrow> nat option" where
  "after st m =
     (if st = 2 then Some 0
      else if st = 3 \<or> st = 4 \<and> 32 \<le> m \<or> st = 5 \<and> m < 32 then Some 2
      else if st = 6 \<and> 16 \<le> m \<or> st = 7 \<or> st = 8 \<and> m < 16 then Some 3
      else None)"

lemma after_transition:
  assumes "m < 64" and "after st m = Some st'"
  shows "utf8d ! (256 + st * 16 + utf8d ! (128 + m)) = st'" "st \<noteq> 0"
proof -
  have c: "m < 16 \<or> 16 \<le> m \<and> m < 32 \<or> 32 \<le> m" by linarith
  have s: "st = 2 \<or> st = 3 \<or> st = 4 \<or> st = 5 \<or> st = 6 \<or> st = 7 \<or> st = 8"
    using assms(2) by (auto simp: after_def split: if_splits)
  have "utf8_states ! (st * 16 + utf8d ! (128 + m)) = st'"
    using c s assms by (elim disjE) (auto simp: class_cont after_def cont_transitions)
  then show "utf8d ! (256 + st * 16 + utf8d ! (128 + m)) = st'"
    by (simp add: add.assoc utf8d_state)
  show "st \<noteq> 0" using s by auto
qed

lemma unat_numeral_64: "unat (64 :: u32) = 64"
  by simp

lemma unat_widen: "unat (ucast (b :: u8) :: u32) = unat b"
proof -
  have "unat b < 2 ^ 32" using unat_lt2p [of b] by simp
  then show ?thesis by (simp add: unsigned_ucast_eq take_bit_nat_eq_self)
qed

text \<open>The code point so far and six more bits.\<close>

lemma unat_or_push:
  fixes w codep :: u32
  assumes "unat codep < 2 ^ 20"
  shows "unat ((w AND 0x3F) OR push_bit 6 codep) = unat codep * 64 + unat w mod 64"
proof -
  define v where "v = w AND 0x3F"
  have v: "unat v = unat w mod 64" by (simp add: v_def low_bits)
  then have "unat v < 2 ^ 6" by simp
  from or_low [OF take_bit_of_less [OF this]] have "v OR push_bit 6 codep = push_bit 6 codep + v"
    by (subst or.commute)
  moreover have m: "unat (push_bit 6 codep) = unat codep * 64"
  proof -
    have "push_bit 6 codep = codep * 64" by (simp add: push_bit_eq_mult)
    moreover have "unat codep * unat (64 :: u32) < 2 ^ LENGTH(32)" using assms by simp
    ultimately show ?thesis by (metis unat_mult_lem unat_numeral_64)
  qed
  moreover have "unat (push_bit 6 codep + v) = unat (push_bit 6 codep) + unat v"
    by (rule unat_add_lem [THEN iffD1]) (use m v assms in simp)
  ultimately show ?thesis by (simp add: v_def v [symmetric])
qed

lemma mod_low: "m < q \<Longrightarrow> (q * j + m) mod q = (m :: nat)"
  by simp

lemma decode_cont:
  assumes "m < 64" "after st m = Some st'" "unat codep < 2 ^ 20"
  shows "\<exists>cp'. decode st codep (word_of_nat (0x80 + m)) = (st', cp') \<and> unat cp' = unat codep * 64 + m"
proof -
  let ?b = "word_of_nat (0x80 + m) :: u8"
  have b: "unat ?b = 128 + m" using assms(1) by (simp add: unat_byte del: of_nat_add)
  have "unat (ucast ?b :: u32) mod 64 = m"
    unfolding unat_widen b using mod_low [of m 64 2] assms(1) by simp
  then have cp: "unat ((ucast ?b AND 0x3F) OR push_bit 6 codep) = unat codep * 64 + m"
    using unat_or_push [OF assms(3), of "ucast ?b"] by simp
  show ?thesis
    using after_transition [OF assms(1,2)] cp
    by (simp add: decode_def b UTF8_ACCEPT_def Let_def del: of_nat_add)
qed

text \<open>The bits of a lead byte.\<close>

lemma lead_bits:
  "unat (0xFF AND (w :: u32)) = unat w mod 256" "unat (0x3F AND w) = unat w mod 64"
  "unat (0x1F AND w) = unat w mod 32" "unat (0x0F AND w) = unat w mod 16"
  "unat (7 AND w) = unat w mod 8" "unat (3 AND w) = unat w mod 4"
proof -
  have t: "unat (mask k AND w) = unat w mod 2 ^ k" for k
  proof -
    have "mask k AND w = take_bit k w" by (simp add: take_bit_eq_mask and.commute)
    then show ?thesis by (simp add: unsigned_take_bit_eq take_bit_nat_def)
  qed
  show "unat (0xFF AND w) = unat w mod 256" "unat (0x3F AND w) = unat w mod 64"
    "unat (0x1F AND w) = unat w mod 32" "unat (0x0F AND w) = unat w mod 16"
    "unat (7 AND w) = unat w mod 8" "unat (3 AND w) = unat w mod 4"
    using t [of 8] t [of 6] t [of 5] t [of 4] t [of 3] t [of 2] by (simp_all add: mask_eq_exp_minus_1)
qed

lemma decode_start:
  assumes "c < 256" and "utf8d ! c = cls"
  shows "decode 0 codep (word_of_nat c) = (utf8_states ! cls, drop_bit cls 0xFF AND ucast (word_of_nat c :: u8))"
  using assms utf8d_state [of cls] by (simp add: decode_def unat_byte UTF8_ACCEPT_def Let_def)

lemma unat_lead: "c < 256 \<Longrightarrow> unat (ucast (word_of_nat c :: u8) :: u32) = c"
  by (simp add: unat_widen unat_byte)

lemma decode_low:
  "n < 128 \<Longrightarrow> \<exists>cp'. decode 0 codep (word_of_nat n) = (0, cp') \<and> unat cp' = n"
  using decode_start [OF _ class_low, of n codep]
  by (simp add: transitions lead_bits unat_lead)

lemma decode_two:
  "2 \<le> k \<Longrightarrow> k < 32 \<Longrightarrow> \<exists>cp'. decode 0 codep (word_of_nat (0xC0 + k)) = (2, cp') \<and> unat cp' = k"
  using decode_start [OF _ class_two, of k codep] unat_lead [of "0xC0 + k"] mod_low [of k 64 3]
  by (simp add: transitions lead_bits del: of_nat_add)

lemma decode_three:
  assumes "k < 16"
  shows "\<exists>cp'. decode 0 codep (word_of_nat (0xE0 + k)) = (if k = 0 then 4 else if k = 13 then 5 else 3, cp') \<and>
    unat cp' = k"
proof -
  consider "k = 0" | "k = 13" | "k \<noteq> 0" "k \<noteq> 13" by blast
  then show ?thesis
  proof cases
    case 3
    then have "decode 0 codep (word_of_nat (0xE0 + k)) =
        (3, 0x1F AND ucast (word_of_nat (0xE0 + k) :: u8))"
      using decode_start [OF _ class_three [OF assms], of codep] assms
      by (simp add: transitions del: of_nat_add)
    moreover have "(0xE0 + k) mod 32 = k" using mod_low [of k 32 7] assms by simp
    ultimately show ?thesis
      using 3 assms unat_lead [of "0xE0 + k"] by (simp add: lead_bits del: of_nat_add)
  qed (use decode_start [OF _ class_three [OF assms], of codep] unat_lead [of "0xED"] in
      \<open>simp_all add: transitions lead_bits\<close>)
qed

lemma decode_four:
  assumes "k < 5"
  shows "\<exists>cp'. decode 0 codep (word_of_nat (0xF0 + k)) = (if k = 0 then 6 else if k = 4 then 8 else 7, cp') \<and>
    unat cp' = k"
proof -
  consider "k = 0" | "k = 4" | "k \<noteq> 0" "k \<noteq> 4" by blast
  then show ?thesis
  proof cases
    case 3
    then have "decode 0 codep (word_of_nat (0xF0 + k)) =
        (7, 3 AND ucast (word_of_nat (0xF0 + k) :: u8))"
      using decode_start [OF _ class_four [OF assms], of codep] assms
      by (simp add: transitions del: of_nat_add)
    moreover have "(0xF0 + k) mod 4 = k" using mod_low [of k 4 60] assms 3 by simp
    ultimately show ?thesis
      using 3 assms unat_lead [of "0xF0 + k"] by (simp add: lead_bits del: of_nat_add)
  qed (use decode_start [OF _ class_four [OF assms], of codep] unat_lead [of "0xF4"] in
      \<open>simp_all add: transitions lead_bits\<close>)
qed

section \<open>Escaped strings\<close>

definition total :: "Escape \<Rightarrow> bytes" where
  "total e = written e @ string_buffer e"

lemma flush_total [simp]: "total (flush e) = total e" "state (flush e) = state e"
  by (simp_all add: flush_def total_def)

lemma accept_total:
  "total (accept asc b e) = total e @ escape_codepoint asc (codepoint e) b"
  "state (accept asc b e) = state e"
proof -
  have u: "total (e\<lparr>bytes_after_last_accept := x, undumped_chars := y\<rparr>) = total e"
    "total (e\<lparr>string_buffer := string_buffer e @ z\<rparr>) = total e @ z" for e :: Escape and x y z
    by (simp_all add: total_def)
  show "total (accept asc b e) = total e @ escape_codepoint asc (codepoint e) b"
    "state (accept asc b e) = state e"
    by (simp_all add: accept_def Let_def u)
qed

lemma loop_more:
  assumes "decode (state e) (codepoint e) b = (st, cp)" and "st \<noteq> 0" "st \<noteq> 1"
  shows "\<exists>e'. escape_loop h asc i (b # bs) e = escape_loop h asc (i + 1) bs e' \<and> state e' = st \<and>
    codepoint e' = cp \<and> total e' = total e @ (if asc then [] else [b])"
  using assms
  by (intro exI [of _ "incomplete asc b (e\<lparr>state := st, codepoint := cp\<rparr>)"])
    (simp add: UTF8_ACCEPT_def UTF8_REJECT_def incomplete_def Let_def total_def)

lemma loop_last:
  assumes "decode (state e) (codepoint e) b = (0, cp)"
  shows "\<exists>e'. escape_loop h asc i (b # bs) e = escape_loop h asc (i + 1) bs e' \<and> state e' = 0 \<and>
    total e' = total e @ escape_codepoint asc cp b"
  using assms
  by (intro exI [of _ "accept asc b (e\<lparr>state := 0, codepoint := cp\<rparr>)"])
    (simp add: UTF8_ACCEPT_def Let_def accept_total, simp add: total_def)

declare escape_loop.simps(2) [simp del]

lemma cont_more:
  assumes "m < 64" "after (state e) m = Some st" "st \<noteq> 0" "unat (codepoint e) < 2 ^ 20"
  shows "\<exists>e'. escape_loop h asc i (word_of_nat (0x80 + m) # bs) e = escape_loop h asc (i + 1) bs e' \<and>
    state e' = st \<and> unat (codepoint e') = unat (codepoint e) * 64 + m \<and>
    total e' = total e @ (if asc then [] else [word_of_nat (0x80 + m)])"
proof -
  have "st \<noteq> 1" using assms(2) by (auto simp: after_def split: if_splits)
  obtain cp where "decode (state e) (codepoint e) (word_of_nat (0x80 + m)) = (st, cp)"
    "unat cp = unat (codepoint e) * 64 + m"
    using decode_cont [OF assms(1,2,4)] by blast
  then show ?thesis using loop_more [OF _ assms(3) \<open>st \<noteq> 1\<close>, of e _ cp h asc i bs] by metis
qed

lemma cont_last:
  assumes "m < 64" "after (state e) m = Some 0" "unat (codepoint e) < 2 ^ 20"
  shows "\<exists>e' cp. escape_loop h asc i (word_of_nat (0x80 + m) # bs) e = escape_loop h asc (i + 1) bs e' \<and>
    state e' = 0 \<and> unat cp = unat (codepoint e) * 64 + m \<and>
    total e' = total e @ escape_codepoint asc cp (word_of_nat (0x80 + m))"
  using decode_cont [OF assms] loop_last [of e "word_of_nat (0x80 + m)" _ h asc i bs] by metis

text \<open>The text for one code point.\<close>

definition codepoint_text :: "bool \<Rightarrow> nat \<Rightarrow> bytes" where
  "codepoint_text asc n =
     (if n < 0x80 then escape_codepoint asc (word_of_nat n) (word_of_nat n)
      else if asc then
        (if n \<le> 0xFFFF then print_u n
         else print_u (0xD7C0 + n div 1024) @ print_u (0xDC00 + n mod 1024))
      else utf8 n)"

lemma escape_codepoint_high:
  assumes "0x80 \<le> unat cp" "unat cp < 0x110000"
  shows "escape_codepoint asc cp b = (if asc then codepoint_text True (unat cp) else [b])"
proof -
  let ?n = "unat cp"
  have "cp \<noteq> 8" "cp \<noteq> 9" "cp \<noteq> 10" "cp \<noteq> 12" "cp \<noteq> 13" "cp \<noteq> 0x22" "cp \<noteq> 0x5C"
    using assms(1) by auto
  then have s: "short_escape cp = None" by (simp add: short_escape_def)
  have "unat (drop_bit 10 cp) = ?n div 1024" by (simp add: high_bits)
  then have h: "unat (0xD7C0 + drop_bit 10 cp) = 0xD7C0 + ?n div 1024"
    using assms(2) by (subst unat_add_lem [THEN iffD1]) simp_all
  have "cp AND 0x3FF = take_bit 10 cp" by (simp add: take_bit_eq_mask mask_eq_exp_minus_1)
  then have "unat (cp AND 0x3FF) = ?n mod 1024" by (simp add: unsigned_take_bit_eq take_bit_nat_def)
  then have l: "unat (0xDC00 + (cp AND 0x3FF)) = 0xDC00 + ?n mod 1024"
    by (subst unat_add_lem [THEN iffD1]) simp_all
  have c: "\<not> cp \<le> 0x1F" "0x7F \<le> cp" "cp \<le> 0xFFFF \<longleftrightarrow> ?n \<le> 0xFFFF"
    using assms(1) by (simp_all add: word_le_nat_alt)
  have "\<not> ?n < 0x80" using assms(1) by simp
  then show ?thesis
    by (simp add: escape_codepoint_def s c h l codepoint_text_def)
qed

lemma div_mod_64: "n div 64 * 64 + n mod 64 = (n :: nat)"
  by simp

lemma div_4096: "n div 4096 * 64 + n div 64 mod 64 = (n :: nat) div 64"
  using div_mod_64 [of "n div 64"] by (simp add: div_mult2_eq [symmetric])

lemma div_262144: "n div 262144 * 64 + n div 4096 mod 64 = (n :: nat) div 4096"
  using div_mod_64 [of "n div 4096"] by (simp add: div_mult2_eq [symmetric])

text \<open>The text added for a code point at or above 128.\<close>

lemma high_text:
  "0x80 \<le> n \<Longrightarrow> n < 0x110000 \<Longrightarrow> unat cp = n \<Longrightarrow>
    (if asc then [] else xs) @ escape_codepoint asc cp b = (if asc then codepoint_text True n else xs @ [b])"
  by (simp add: escape_codepoint_high)

lemma codepoint_loop_two:
  assumes "0x80 \<le> n" "n < 0x800" "state e = 0"
    and u: "utf8 n = [word_of_nat (0xC0 + n div 64), word_of_nat (0x80 + n mod 64)]"
  shows "\<exists>e'. escape_loop h asc i (utf8 n @ bs) e = escape_loop h asc (i + 2) bs e' \<and> state e' = 0 \<and>
    total e' = total e @ codepoint_text asc n"
proof -
  have k: "2 \<le> n div 64" "n div 64 < 32" using assms by simp_all
  let ?l = "word_of_nat (0xC0 + n div 64) :: u8" and ?b = "word_of_nat (0x80 + n mod 64) :: u8"
  obtain cp1 where d1: "decode (state e) (codepoint e) ?l = (2, cp1)" "unat cp1 = n div 64"
    using decode_two [OF k, of "codepoint e"] assms(3) by auto
  obtain e1 where e1: "escape_loop h asc i (?l # ?b # bs) e = escape_loop h asc (i + 1) (?b # bs) e1"
    "state e1 = 2" "codepoint e1 = cp1" "total e1 = total e @ (if asc then [] else [?l])"
    using loop_more [OF d1(1), of h asc i "?b # bs"] by (auto simp del: of_nat_add)
  have a: "n mod 64 < 64" "after (state e1) (n mod 64) = Some 0" "unat (codepoint e1) < 2 ^ 20"
    using k by (simp_all add: e1 after_def d1)
  obtain e2 cp2 where e2: "escape_loop h asc (i + 1) (?b # bs) e1 = escape_loop h asc (i + 1 + 1) bs e2"
    "state e2 = 0" "unat cp2 = n div 64 * 64 + n mod 64" "total e2 = total e1 @ escape_codepoint asc cp2 ?b"
    using cont_last [OF a, of h asc "i + 1" bs] unfolding e1(3) d1(2) by blast
  have cp2: "unat cp2 = n" using e2(3) by simp
  have "total e2 = total e @ codepoint_text asc n"
    using high_text [OF _ _ cp2, of asc "[?l]" ?b] assms e1(4) e2(4) by (simp add: codepoint_text_def)
  then show ?thesis using e1(1) e2(1,2) u by auto
qed

lemma codepoint_loop_three:
  assumes "0x800 \<le> n" "n < 0x10000" "n < 0xD800 \<or> 0xE000 \<le> n" "state e = 0"
    and u: "utf8 n = [word_of_nat (0xE0 + n div 4096), word_of_nat (0x80 + n div 64 mod 64), word_of_nat (0x80 + n mod 64)]"
  shows "\<exists>e'. escape_loop h asc i (utf8 n @ bs) e = escape_loop h asc (i + 3) bs e' \<and> state e' = 0 \<and>
    total e' = total e @ codepoint_text asc n"
proof -
  have k: "n div 4096 < 16" using assms by simp
  let ?st = "if n div 4096 = 0 then 4 else if n div 4096 = 13 then 5 else 3 :: nat"
  let ?l = "word_of_nat (0xE0 + n div 4096) :: u8" and ?a = "word_of_nat (0x80 + n div 64 mod 64) :: u8"
    and ?b = "word_of_nat (0x80 + n mod 64) :: u8"
  obtain cp1 where d1: "decode (state e) (codepoint e) ?l = (?st, cp1)" "unat cp1 = n div 4096"
    using decode_three [OF k, of "codepoint e"] assms(4) by auto
  have st: "?st \<noteq> 0" "?st \<noteq> 1" by simp_all
  obtain e1 where e1: "escape_loop h asc i (?l # ?a # ?b # bs) e = escape_loop h asc (i + 1) (?a # ?b # bs) e1"
    "state e1 = ?st" "codepoint e1 = cp1" "total e1 = total e @ (if asc then [] else [?l])"
    using loop_more [OF d1(1) st, of h asc i "?a # ?b # bs"] by blast
  have m: "n div 64 mod 64 = n div 64 - 64 * (n div 4096)"
    by (simp add: minus_mult_div_eq_mod [symmetric] div_mult2_eq [symmetric])
  have c: "n div 4096 = 0 \<Longrightarrow> 32 \<le> n div 64 mod 64" "n div 4096 = 13 \<Longrightarrow> n div 64 mod 64 < 32"
    using assms(1-3) unfolding m by auto
  have a: "n div 64 mod 64 < 64" "after (state e1) (n div 64 mod 64) = Some 2" "2 \<noteq> (0 :: nat)"
    "unat (codepoint e1) < 2 ^ 20"
    using k c by (simp_all add: e1 after_def d1 del: div_eq_0_iff)
  obtain e2 where e2: "escape_loop h asc (i + 1) (?a # ?b # bs) e1 = escape_loop h asc (i + 1 + 1) (?b # bs) e2"
    "state e2 = 2" "unat (codepoint e2) = n div 4096 * 64 + n div 64 mod 64"
    "total e2 = total e1 @ (if asc then [] else [?a])"
    using cont_more [OF a, of h asc "i + 1" "?b # bs"] unfolding e1(3) d1(2) by blast
  then have "unat (codepoint e2) = n div 64" unfolding div_4096 by simp
  moreover have a2: "n mod 64 < 64" "after (state e2) (n mod 64) = Some 0" "unat (codepoint e2) < 2 ^ 20"
    using calculation assms(2) by (simp_all add: e2(2) after_def)
  ultimately obtain e3 cp3 where e3: "escape_loop h asc (i + 1 + 1) (?b # bs) e2 = escape_loop h asc (i + 1 + 1 + 1) bs e3"
    "state e3 = 0" "unat cp3 = n div 64 * 64 + n mod 64" "total e3 = total e2 @ escape_codepoint asc cp3 ?b"
    using cont_last [OF a2, of h asc "i + 1 + 1" bs] by metis
  have cp3: "unat cp3 = n" using e3(3) by simp
  have "total e3 = total e @ codepoint_text asc n"
    using high_text [OF _ _ cp3, of asc "[?l, ?a]" ?b] assms(1,2) e1(4) e2(4) e3(4) u
    by (cases asc) (simp_all add: codepoint_text_def del: of_nat_add)
  moreover have "i + 1 + 1 + 1 = i + 3" by simp
  ultimately show ?thesis using e1(1) e2(1) e3(1,2) u by (metis append_Cons append_Nil)
qed

lemma codepoint_loop_four:
  assumes "0x10000 \<le> n" "n < 0x110000" "state e = 0"
    and u: "utf8 n = [word_of_nat (0xF0 + n div 262144), word_of_nat (0x80 + n div 4096 mod 64),
      word_of_nat (0x80 + n div 64 mod 64), word_of_nat (0x80 + n mod 64)]"
  shows "\<exists>e'. escape_loop h asc i (utf8 n @ bs) e = escape_loop h asc (i + 4) bs e' \<and> state e' = 0 \<and>
    total e' = total e @ codepoint_text asc n"
proof -
  have k: "n div 262144 < 5" using assms by simp
  let ?st = "if n div 262144 = 0 then 6 else if n div 262144 = 4 then 8 else 7 :: nat"
  let ?l = "word_of_nat (0xF0 + n div 262144) :: u8" and ?d = "word_of_nat (0x80 + n div 4096 mod 64) :: u8"
    and ?a = "word_of_nat (0x80 + n div 64 mod 64) :: u8" and ?b = "word_of_nat (0x80 + n mod 64) :: u8"
  obtain cp1 where d1: "decode (state e) (codepoint e) ?l = (?st, cp1)" "unat cp1 = n div 262144"
    using decode_four [OF k, of "codepoint e"] assms(3) by auto
  have st: "?st \<noteq> 0" "?st \<noteq> 1" by simp_all
  obtain e1 where e1: "escape_loop h asc i (?l # ?d # ?a # ?b # bs) e = escape_loop h asc (i + 1) (?d # ?a # ?b # bs) e1"
    "state e1 = ?st" "codepoint e1 = cp1" "total e1 = total e @ (if asc then [] else [?l])"
    using loop_more [OF d1(1) st, of h asc i "?d # ?a # ?b # bs"] by blast
  have m: "n div 4096 mod 64 = n div 4096 - 64 * (n div 262144)"
    by (simp add: minus_mult_div_eq_mod [symmetric] div_mult2_eq [symmetric])
  have c: "n div 262144 = 0 \<Longrightarrow> 16 \<le> n div 4096 mod 64" "n div 262144 = 4 \<Longrightarrow> n div 4096 mod 64 < 16"
    using assms(1-2) unfolding m by auto
  have a: "n div 4096 mod 64 < 64" "after (state e1) (n div 4096 mod 64) = Some 3" "3 \<noteq> (0 :: nat)"
    "unat (codepoint e1) < 2 ^ 20"
    using k c by (simp_all add: e1 after_def d1 del: div_eq_0_iff)
  obtain e2 where e2: "escape_loop h asc (i + 1) (?d # ?a # ?b # bs) e1 = escape_loop h asc (i + 1 + 1) (?a # ?b # bs) e2"
    "state e2 = 3" "unat (codepoint e2) = n div 262144 * 64 + n div 4096 mod 64"
    "total e2 = total e1 @ (if asc then [] else [?d])"
    using cont_more [OF a, of h asc "i + 1" "?a # ?b # bs"] unfolding e1(3) d1(2) by blast
  then have c2: "unat (codepoint e2) = n div 4096" unfolding div_262144 by simp
  have a2: "n div 64 mod 64 < 64" "after (state e2) (n div 64 mod 64) = Some 2" "2 \<noteq> (0 :: nat)"
    "unat (codepoint e2) < 2 ^ 20"
    using assms(2) by (simp_all add: e2(2) after_def c2)
  obtain e3 where e3: "escape_loop h asc (i + 1 + 1) (?a # ?b # bs) e2 = escape_loop h asc (i + 1 + 1 + 1) (?b # bs) e3"
    "state e3 = 2" "unat (codepoint e3) = n div 4096 * 64 + n div 64 mod 64"
    "total e3 = total e2 @ (if asc then [] else [?a])"
    using cont_more [OF a2, of h asc "i + 1 + 1" "?b # bs"] unfolding c2 by blast
  then have c3: "unat (codepoint e3) = n div 64" unfolding div_4096 by simp
  have a3: "n mod 64 < 64" "after (state e3) (n mod 64) = Some 0" "unat (codepoint e3) < 2 ^ 20"
    using assms(2) by (simp_all add: e3(2) after_def c3)
  obtain e4 cp4 where e4: "escape_loop h asc (i + 1 + 1 + 1) (?b # bs) e3 = escape_loop h asc (i + 1 + 1 + 1 + 1) bs e4"
    "state e4 = 0" "unat cp4 = n div 64 * 64 + n mod 64" "total e4 = total e3 @ escape_codepoint asc cp4 ?b"
    using cont_last [OF a3, of h asc "i + 1 + 1 + 1" bs] unfolding c3 by blast
  have cp4: "unat cp4 = n" using e4(3) by simp
  have "total e4 = total e @ codepoint_text asc n"
    using high_text [OF _ _ cp4, of asc "[?l, ?d, ?a]" ?b] assms(1,2) e1(4) e2(4) e3(4) e4(4) u
    by (cases asc) (simp_all add: codepoint_text_def del: of_nat_add)
  moreover have "i + 1 + 1 + 1 + 1 = i + 4" by simp
  ultimately show ?thesis using e1(1) e2(1) e3(1) e4(1,2) u by (metis append_Cons append_Nil)
qed

lemma codepoint_loop:
  assumes "scalar_value n" "state e = 0"
  shows "\<exists>e' j. escape_loop h asc i (utf8 n @ bs) e = escape_loop h asc j bs e' \<and> state e' = 0 \<and>
    total e' = total e @ codepoint_text asc n"
  using assms(1)
proof (cases rule: utf8_cases)
  case one
  obtain cp where d: "decode (state e) (codepoint e) (word_of_nat n) = (0, cp)" "unat cp = n"
    using decode_low [of n "codepoint e"] one(1) assms(2) by auto
  then have "cp = word_of_nat n" by (metis of_nat_unat ucast_id)
  then show ?thesis
    using loop_last [OF d(1), of h asc i bs] one by (auto simp: codepoint_text_def)
next
  case two
  show ?thesis using codepoint_loop_two [OF two(1,2) assms(2) two(3)] by blast
next
  case three
  show ?thesis using codepoint_loop_three [OF three(1-3) assms(2) three(4)] by blast
next
  case four
  show ?thesis using codepoint_loop_four [OF four(1,2) assms(2) four(3)] by blast
qed

lemma string_loop:
  assumes "list_all scalar_value ns" "state e = 0"
  shows "\<exists>e'. escape_loop h asc i (utf8_string ns) e = Inr e' \<and> state e' = 0 \<and>
    total e' = total e @ concat (map (codepoint_text asc) ns)"
  using assms
proof (induction ns arbitrary: i e)
  case (Cons n ns)
  obtain e1 j where e1: "escape_loop h asc i (utf8 n @ utf8_string ns) e = escape_loop h asc j (utf8_string ns) e1"
    "state e1 = 0" "total e1 = total e @ codepoint_text asc n"
    using codepoint_loop [of n e h asc i "utf8_string ns"] Cons.prems by auto
  from Cons.IH [OF _ e1(2), of j] Cons.prems(1) obtain e2 where
    "escape_loop h asc j (utf8_string ns) e1 = Inr e2" "state e2 = 0"
    "total e2 = total e1 @ concat (map (codepoint_text asc) ns)" by auto
  then show ?case using e1 by (simp add: utf8_string_def)
qed (simp add: utf8_string_def)

lemma dump_escaped_utf8:
  assumes "list_all scalar_value ns"
  shows "dump_escaped h asc (utf8_string ns) = Inr (concat (map (codepoint_text asc) ns))"
proof -
  have "state Escape_init = 0" by (simp add: Escape_init_def UTF8_ACCEPT_def)
  from string_loop [OF assms this, of h asc 0] obtain e where
    "escape_loop h asc 0 (utf8_string ns) Escape_init = Inr e" "state e = 0"
    "total e = total Escape_init @ concat (map (codepoint_text asc) ns)" by blast
  then show ?thesis
    by (simp add: dump_escaped_def UTF8_ACCEPT_def total_def Escape_init_def)
qed

section \<open>Dumped texts are texts of the grammar\<close>

lemma hex_value_lower:
  assumes "d < 16"
  shows "hex_value (hex_lower d) = Some d"
proof (cases "d < 10")
  case True
  then have "unat (word_of_nat (48 + d) :: u8) = 48 + d" by (simp add: unat_byte del: of_nat_add)
  then show ?thesis
    using True by (simp add: hex_lower_def hex_value_def word_le_nat_alt del: of_nat_add)
next
  case False
  then have "unat (word_of_nat (87 + d) :: u8) = 87 + d" using assms by (simp add: unat_byte del: of_nat_add)
  then show ?thesis
    using False assms by (simp add: hex_lower_def hex_value_def word_le_nat_alt del: of_nat_add)
qed

lemma print_u_hex4:
  assumes "n < 0x10000"
  shows "\<exists>h. print_u n = 0x5C # 0x75 # h \<and> hex4 h = Some n"
proof -
  let ?a = "n div 4096 mod 16" and ?b = "n div 256 mod 16" and ?c = "n div 16 mod 16" and ?d = "n mod 16"
  have "?a < 16" "?b < 16" "?c < 16" "?d < 16" by simp_all
  then have "hex4 [hex_lower ?a, hex_lower ?b, hex_lower ?c, hex_lower ?d] = Some (?a * 4096 + ?b * 256 + ?c * 16 + ?d)"
    by (simp add: hex4_def hex_value_lower)
  moreover have "?a * 4096 + ?b * 256 + ?c * 16 + ?d = n"
  proof -
    have s: "m div 16 * 16 + m mod 16 = m" for m :: nat by simp
    have "n div 4096 < 16" using assms by simp
    then have "?a * 16 + ?b = n div 256" using s [of "n div 256"] by (simp add: div_mult2_eq [symmetric])
    moreover have "n div 256 * 16 + ?c = n div 16" using s [of "n div 16"] by (simp add: div_mult2_eq [symmetric])
    moreover have "n div 16 * 16 + ?d = n" by (rule s)
    ultimately show ?thesis by linarith
  qed
  ultimately show ?thesis
    by (intro exI [of _ "[hex_lower ?a, hex_lower ?b, hex_lower ?c, hex_lower ?d]"]) (simp only: print_u_def simp_thms)
qed

lemma surrogate_pair:
  fixes n :: nat
  assumes "0x10000 \<le> n" "n < 0x110000"
  defines "a \<equiv> 0xD7C0 + n div 1024" and "b \<equiv> 0xDC00 + n mod 1024"
  shows "0xD800 \<le> a" "a < 0xDC00" "0xDC00 \<le> b" "b < 0xE000"
    "0x10000 + (a - 0xD800) * 1024 + (b - 0xDC00) = n"
proof -
  have q: "0x40 \<le> n div 1024" "n div 1024 < 0x440" using assms(1,2) by simp_all
  then show "0xD800 \<le> a" "a < 0xDC00" by (simp_all add: a_def)
  have "n mod 1024 < 1024" by simp
  then show "0xDC00 \<le> b" "b < 0xE000" by (simp_all add: b_def)
  have "0x10000 + (a - 0xD800) * 1024 = n div 1024 * 1024"
    unfolding a_def using q by (simp add: diff_mult_distrib)
  then show "0x10000 + (a - 0xD800) * 1024 + (b - 0xDC00) = n" by (simp add: b_def)
qed

lemma string_text_codepoint:
  assumes "scalar_value n" "string_text t s"
  shows "string_text (codepoint_text asc n @ t) (utf8 n @ s)"
proof (cases "n < 0x80")
  case True
  let ?c = "word_of_nat n :: u8" and ?w = "word_of_nat n :: u32"
  have u: "utf8 n = [?c]" using True by (simp add: utf8_def)
  have w: "unat ?w = n" using True by (simp add: unat_word_of_nat_small)
  show ?thesis
  proof (cases "short_escape ?w")
    case (Some e)
    then have "simple_escape e = Some ?c"
      using True by (auto simp: short_escape_def simple_escape_def word_unat_eq_iff w unat_byte split: if_splits)
    from escape_text [OF assms(2) this] show ?thesis
      using True Some by (simp add: codepoint_text_def escape_codepoint_def u)
  next
    case None
    have ne: "n \<noteq> 0x22" "n \<noteq> 0x5C"
      using None by (auto simp: short_escape_def word_unat_eq_iff w split: if_splits)
    show ?thesis
    proof (cases "?w \<le> 0x1F \<or> asc \<and> 0x7F \<le> ?w")
      case c: True
      obtain h where h: "print_u n = 0x5C # 0x75 # h" "hex4 h = Some n"
        using print_u_hex4 [of n] True by auto
      have "?w \<le> 0xFFFF" using True by (simp add: word_le_nat_alt w)
      then have "codepoint_text asc n = 0x5C # 0x75 # h"
        using True None c h w by (simp add: codepoint_text_def escape_codepoint_def)
      then show ?thesis using unicode_text [OF assms(2) h(2) assms(1)] by simp
    next
      case False
      then have "0x20 \<le> n" by (simp add: word_le_nat_alt w)
      moreover have "codepoint_text asc n = utf8 n"
        using True None False by (auto simp: codepoint_text_def escape_codepoint_def u)
      ultimately show ?thesis using plain_text [OF assms(2,1) _ ne] by simp
    qed
  qed
next
  case high: False
  show ?thesis
  proof (cases asc)
    case False
    then show ?thesis
      using plain_text [OF assms(2,1)] high by (simp add: codepoint_text_def)
  next
    case True
    show ?thesis
    proof (cases "n \<le> 0xFFFF")
      case le: True
      obtain h where h: "print_u n = 0x5C # 0x75 # h" "hex4 h = Some n"
        using print_u_hex4 [of n] le by auto
      then show ?thesis
        using unicode_text [OF assms(2) h(2) assms(1)] high True le by (simp add: codepoint_text_def)
    next
      case gt: False
      then have n: "0x10000 \<le> n" "n < 0x110000" using assms(1) by (auto simp: scalar_value_def)
      note sp = surrogate_pair [OF n]
      obtain h l where h: "print_u (0xD7C0 + n div 1024) = 0x5C # 0x75 # h" "hex4 h = Some (0xD7C0 + n div 1024)"
        and l: "print_u (0xDC00 + n mod 1024) = 0x5C # 0x75 # l" "hex4 l = Some (0xDC00 + n mod 1024)"
        using print_u_hex4 [of "0xD7C0 + n div 1024"] print_u_hex4 [of "0xDC00 + n mod 1024"] sp by auto
      show ?thesis
        using pair_text [OF assms(2) h(2) l(2) sp(1-4)] high True gt
        unfolding sp(5) by (simp add: codepoint_text_def h l)
    qed
  qed
qed

lemma string_text_dump:
  "list_all scalar_value ns \<Longrightarrow> string_text (concat (map (codepoint_text asc) ns)) (utf8_string ns)"
  by (induction ns) (auto simp: utf8_string_def intro: empty_text string_text_codepoint)

section \<open>Values\<close>

text \<open>
  The values that are written so that they can be read back: strings are UTF-8, objects are in the
  order of their keys, signed integers are negative (the reader takes the others for unsigned), floats
  are finite doubles, and there is no binary value and no discarded one.
\<close>

fun printable :: "(bytes \<Rightarrow> u64) \<Rightarrow> json \<Rightarrow> bool" where
  "printable nf (J_string s) \<longleftrightarrow> valid_utf8 s"
| "printable nf (J_integer x) \<longleftrightarrow> sint x < 0"
| "printable nf (J_float t) \<longleftrightarrow> is_finite (nf t)"
| "printable nf (J_array xs) \<longleftrightarrow> list_all (printable nf) xs"
| "printable nf (J_object o1) \<longleftrightarrow>
     obj_sorted o1 \<and> list_all (\<lambda>(k, v). valid_utf8 k \<and> printable nf v) o1"
| "printable nf (J_binary bs st) \<longleftrightarrow> False"
| "printable nf J_discarded \<longleftrightarrow> False"
| "printable nf j \<longleftrightarrow> True"

text \<open>
  Two values that differ at most in the texts of their floats: the text on the right is a decimal
  number for which the double of the float on the left is the nearest, and the only nearest one.
\<close>

inductive same_value :: "(bytes \<Rightarrow> u64) \<Rightarrow> json \<Rightarrow> json \<Rightarrow> bool" for nf where
  same_float: "{b. rounds_to t' b} = {nf t} \<Longrightarrow> same_value nf (J_float t) (J_float t')"
| same_scalar: "(case j of J_float t \<Rightarrow> False | J_array xs \<Rightarrow> False | J_object o1 \<Rightarrow> False | _ \<Rightarrow> True) \<Longrightarrow>
    same_value nf j j"
| same_array: "list_all2 (same_value nf) xs ys \<Longrightarrow> same_value nf (J_array xs) (J_array ys)"
| same_object: "list_all2 (rel_prod (=) (same_value nf)) o1 o2 \<Longrightarrow>
    same_value nf (J_object o1) (J_object o2)"

text \<open>The value the reader makes of a printed value.\<close>

fun reprinted :: "(bytes \<Rightarrow> u64) \<Rightarrow> json \<Rightarrow> json" where
  "reprinted nf (J_float t) = J_float (case dump_float (nf t) of Done w \<Rightarrow> w | _ \<Rightarrow> t)"
| "reprinted nf (J_array xs) = J_array (map (reprinted nf) xs)"
| "reprinted nf (J_object o1) = J_object (map (\<lambda>(k, v). (k, reprinted nf v)) o1)"
| "reprinted nf j = j"

lemma same_value_reprinted: "printable nf j \<Longrightarrow> same_value nf j (reprinted nf j)"
proof (induction nf j rule: printable.induct)
  case (3 nf t)
  then show ?case using dump_float_text [of "nf t"] by (auto intro: same_float)
next
  case (4 nf xs)
  then show ?case by (auto intro!: same_array simp: list_all2_map2 list_all2_same list_all_iff)
next
  case (5 nf o1)
  then show ?case by (force intro!: same_object simp: list_all2_map2 list_all2_same list_all_iff)
qed (auto intro: same_scalar)

lemma obj_sorted_reprinted [simp]:
  "obj_sorted (map (\<lambda>(k, v). (k, f v)) o1) = obj_sorted o1"
  by (simp add: obj_sorted_def sorted_wrt_map split_beta comp_def)

text \<open>How deep containers are nested in a value.\<close>

fun depth :: "json \<Rightarrow> nat" where
  "depth (J_array xs) = Suc (Max (insert 0 (depth ` set xs)))"
| "depth (J_object o1) = Suc (Max (insert 0 ((\<lambda>kv. depth (snd kv)) ` set o1)))"
| "depth _ = 0"

lemma depth_element: "x \<in> set xs \<Longrightarrow> depth x \<le> Max (insert 0 (depth ` set xs))"
  by (intro Max_ge) simp_all

lemma depth_member: "kv \<in> set o1 \<Longrightarrow> depth (snd kv) \<le> Max (insert 0 ((\<lambda>kv. depth (snd kv)) ` set o1))"
  by (intro Max_ge) simp_all

lemma hd_dec_digits: "0 < n \<Longrightarrow> hd (dec_digits n) \<noteq> 48"
proof (induction n rule: dec_digits.induct)
  case (1 n)
  show ?case
  proof (cases "n < 10")
    case True
    have "unat (word_of_nat (48 + n) :: u8) = 48 + n" using True by (simp add: unat_byte del: of_nat_add)
    then have "(word_of_nat (48 + n) :: u8) \<noteq> 48" using "1.prems" by (auto simp: word_unat_eq_iff simp del: of_nat_add)
    then show ?thesis using True by (subst dec_digits.simps) (simp del: of_nat_add)
  next
    case False
    then have "hd (dec_digits (n div 10)) \<noteq> 48" using "1.IH" by simp
    then show ?thesis using False by (subst dec_digits.simps) simp
  qed
qed

lemma int_part_dec_digits: "int_part (dec_digits n)"
proof -
  have "list_all is_digit (dec_digits n)" using dec_digits_digit by (auto simp: list_all_iff)
  moreover have "hd (dec_digits n) = 48 \<Longrightarrow> tl (dec_digits n) = []"
    using hd_dec_digits [of n] dec_digits_zero by (cases "n = 0") auto
  ultimately show ?thesis by (simp add: int_part_def)
qed

lemma unsigned_text: "value_text (dump_integer number_buffer False x) (J_unsigned x)"
proof -
  have "number_text (dec_digits (unat x)) (integer_of False (dec_digits (unat x)))"
    by (rule natural_text [OF int_part_dec_digits])
  moreover have "integer_of False (dec_digits (unat x)) = J_unsigned x"
    using unat_lt2p [of x] by (simp add: integer_of_def dec_acc_dec_digits)
  ultimately show ?thesis
    by (simp add: dump_integer_unsigned number_buffer_def num_text)
qed

lemma negative_integer_text:
  assumes "sint x < 0"
  shows "value_text (dump_integer number_buffer True x) (J_integer x)"
proof -
  let ?n = "nat (- sint x)"
  have "?n \<le> 2 ^ 63" using sint_greater_eq [of x] by simp
  moreover have "- word_of_nat ?n = x" using assms by (simp add: of_nat_nat)
  ultimately have "integer_of True (dec_digits ?n) = J_integer x"
    by (simp add: integer_of_def dec_acc_dec_digits)
  then show ?thesis
    using negative_text [OF int_part_dec_digits, of ?n] assms
    by (simp add: dump_integer_negative number_buffer_def num_text)
qed

lemma dump_escaped_text:
  "valid_utf8 s \<Longrightarrow> \<exists>t. dump_escaped h asc s = Inr t \<and> string_text t s"
  using dump_escaped_utf8 string_text_dump by (metis valid_utf8_def)

lemma obj_set_last:
  "(\<forall>k' \<in> set (map fst o1). bytes_less k' k) \<Longrightarrow> obj_set k v o1 = o1 @ [(k, v)]"
proof (induction o1)
  case (Cons a o1)
  obtain k' v' where a: "a = (k', v')" by fastforce
  have "bytes_less k' k" using Cons.prems a by simp
  then have "k \<noteq> k'" "\<not> bytes_less k k'" using bytes_less_trans bytes_less_irrefl by blast+
  then show ?case using Cons by (simp add: a)
qed simp

lemma object_of_sorted: "obj_sorted o1 \<Longrightarrow> object_of o1 = o1"
proof (induction o1 rule: rev_induct)
  case (snoc a o1)
  obtain k v where a: "a = (k, v)" by fastforce
  have "obj_sorted o1" "\<forall>k' \<in> set (map fst o1). bytes_less k' k"
    using snoc.prems by (auto simp: obj_sorted_def sorted_wrt_append a)
  then show ?case using snoc.IH by (simp add: object_of_def a obj_set_last)
qed (simp add: object_of_def)

lemma no_white [simp]: "white []"
  by simp

text \<open>White space before and after the elements of a container belongs to them.\<close>

lemma elements_white_before: "elements_text t vs \<Longrightarrow> white u \<Longrightarrow> elements_text (u @ t) vs"
proof (erule elements_text.cases)
  fix w1 t1 v w2
  assume "white w1" "value_text t1 v" "white w2" "t = w1 @ t1 @ w2" "vs = [v]" "white u"
  then show ?thesis using last_element [of "u @ w1" t1 v w2] by simp
next
  fix w1 t1 v w2 ts vs'
  assume "white w1" "value_text t1 v" "white w2" "elements_text ts vs'" "t = w1 @ t1 @ w2 @ 44 # ts"
    "vs = v # vs'" "white u"
  then show ?thesis using next_element [of "u @ w1" t1 v w2 ts vs'] by simp
qed

lemma members_white_before: "members_text t kvs \<Longrightarrow> white u \<Longrightarrow> members_text (u @ t) kvs"
proof (erule members_text.cases)
  fix w1 kt k w2 w3 t1 v w4
  assume "white w1" "string_text kt k" "white w2" "white w3" "value_text t1 v" "white w4"
    "t = w1 @ 0x22 # kt @ 0x22 # w2 @ 58 # w3 @ t1 @ w4" "kvs = [(k, v)]" "white u"
  then show ?thesis using last_member [of "u @ w1" kt k w2 w3 t1 v w4] by simp
next
  fix w1 kt k w2 w3 t1 v w4 ts kvs'
  assume "white w1" "string_text kt k" "white w2" "white w3" "value_text t1 v" "white w4"
    "members_text ts kvs'" "t = w1 @ 0x22 # kt @ 0x22 # w2 @ 58 # w3 @ t1 @ w4 @ 44 # ts"
    "kvs = (k, v) # kvs'" "white u"
  then show ?thesis using next_member [of "u @ w1" kt k w2 w3 t1 v w4 ts kvs'] by simp
qed

lemma white_after:
  "value_text t v \<Longrightarrow> True"
  "elements_text t vs \<Longrightarrow> white u \<Longrightarrow> elements_text (t @ u) vs"
  "members_text t kvs \<Longrightarrow> white u \<Longrightarrow> members_text (t @ u) kvs"
proof (induction rule: value_text_elements_text_members_text.inducts)
  case (last_element w1 t v w2)
  then show ?case using value_text_elements_text_members_text.last_element [of w1 t v "w2 @ u"] by simp
next
  case (next_element w1 t v w2 ts vs)
  then show ?case using value_text_elements_text_members_text.next_element [of w1 t v w2 "ts @ u" vs] by simp
next
  case (last_member w1 kt k w2 w3 t v w4)
  then show ?case
    using value_text_elements_text_members_text.last_member [of w1 kt k w2 w3 t v "w4 @ u"] by simp
next
  case (next_member w1 kt k w2 w3 t v w4 ts kvs)
  then show ?case
    using value_text_elements_text_members_text.next_member [of w1 kt k w2 w3 t v w4 "ts @ u" kvs] by simp
qed simp_all

section \<open>Indentation\<close>

text \<open>
  With steps of at most 512 the string, doubled once a level, keeps up with the indentation; \<open>d\<close>
  more levels do not overflow the 32 bits.
\<close>

definition room :: "bool \<Rightarrow> u32 \<Rightarrow> u32 \<Rightarrow> bytes \<Rightarrow> nat \<Rightarrow> bool" where
  "room pretty step cur ind d \<longleftrightarrow>
     (pretty \<longrightarrow> white ind \<and> 512 \<le> length ind \<and> unat step \<le> 512 \<and> unat cur \<le> length ind \<and>
        unat cur + d * unat step < 2 ^ 32)"

definition grown :: "bytes \<Rightarrow> bytes \<Rightarrow> bool" where
  "grown ind ind' \<longleftrightarrow> length ind \<le> length ind' \<and> (white ind \<longrightarrow> white ind')"

lemma grown_refl [simp]: "grown ind ind"
  by (simp add: grown_def)

lemma grown_trans: "grown a b \<Longrightarrow> grown b c \<Longrightarrow> grown a c"
  by (auto simp: grown_def)

lemma room_grown: "room pretty step cur ind d \<Longrightarrow> grown ind ind' \<Longrightarrow> room pretty step cur ind' d"
  by (auto simp: room_def grown_def)

lemma room_le: "room pretty step cur ind d \<Longrightarrow> e \<le> d \<Longrightarrow> room pretty step cur ind e"
proof -
  assume r: "room pretty step cur ind d" and "e \<le> d"
  then have "e * unat step \<le> d * unat step" by (intro mult_le_mono1)
  then show "room pretty step cur ind e" using r unfolding room_def by linarith
qed

lemma indented_ok:
  assumes "room pretty step cur ind d"
  obtains w where "white w" and "\<And>f. indented pretty ind cur f = f w"
proof (cases pretty)
  case True
  then have "white ind" "unat cur \<le> length ind" using assms by (simp_all add: room_def)
  then have "white (take (unat cur) ind)" by (auto simp: white_def list_all_iff dest: in_set_takeD)
  then show ?thesis
    using that [of "take (unat cur) ind"] True \<open>unat cur \<le> length ind\<close>
    by (simp add: indented_def write_indent_def)
qed (use that [of "[]"] in \<open>simp add: indented_def\<close>)

lemma new_level_ok:
  assumes r: "room pretty step cur ind (Suc d)" and n: "new_level pretty step cur ind = (new, ind1)"
  shows "room pretty step new ind1 d" and "grown ind ind1"
proof -
  have "room pretty step new ind1 d \<and> grown ind ind1"
  proof (cases pretty)
    case True
    have i: "white ind" "512 \<le> length ind" "unat step \<le> 512" "unat cur \<le> length ind"
      "unat cur + Suc d * unat step < 2 ^ 32" using r True by (simp_all add: room_def)
    have "unat (cur + step) = unat cur + unat step" using i(5) by (intro unat_add_small) simp
    moreover have "new = cur + step" "ind1 = grow_indent ind (cur + step)"
      using n True by (auto simp: new_level_def)
    ultimately show ?thesis
      using i True by (auto simp: room_def grown_def grow_indent_def white_def list_all_iff is_ws_def)
  qed (use n in \<open>simp add: room_def new_level_def\<close>)
  then show "room pretty step new ind1 d" and "grown ind ind1" by simp_all
qed

lemma white_newline [simp]: "white (newline pretty)" "white (space pretty)"
  by (simp_all add: white_def is_ws_def)

lemma dump_text:
  "printable (number_float z) j \<Longrightarrow> room pretty step cur ind (depth j) \<Longrightarrow>
    \<exists>t ind'. dump z pretty step cur ind j = Done (Inr (t, ind')) \<and> value_text t (reprinted (number_float z) j) \<and> grown ind ind'"
  "list_all (printable (number_float z)) xs \<Longrightarrow> xs \<noteq> [] \<Longrightarrow> (\<And>x. x \<in> set xs \<Longrightarrow> depth x \<le> d) \<Longrightarrow>
    room pretty step cur ind d \<Longrightarrow>
    \<exists>t ind'. dump_elements z pretty step cur ind xs = Done (Inr (t, ind')) \<and> elements_text t (map (reprinted (number_float z)) xs) \<and> grown ind ind'"
  "list_all (\<lambda>(k, v). valid_utf8 k \<and> printable (number_float z) v) o1 \<Longrightarrow> o1 \<noteq> [] \<Longrightarrow>
    (\<And>kv. kv \<in> set o1 \<Longrightarrow> depth (snd kv) \<le> d) \<Longrightarrow> room pretty step cur ind d \<Longrightarrow>
    \<exists>t ind'. dump_members z pretty step cur ind o1 = Done (Inr (t, ind')) \<and> members_text t (map (\<lambda>(k, v). (k, reprinted (number_float z) v)) o1) \<and> grown ind ind'"
proof (induction z pretty step cur ind j and z pretty step cur ind xs and z pretty step cur ind o1
    arbitrary: and d and d rule: dump_dump_elements_dump_members.induct)
  case (1 z pretty step cur ind o1)
  show ?case
  proof (cases "o1 = []")
    case True
    then show ?thesis using empty_object_text [of "[]"] by (simp add: put_def)
  next
    case False
    obtain new ind1 where n: "new_level pretty step cur ind = (new, ind1)" by fastforce
    let ?d = "Max (insert 0 ((\<lambda>kv. depth (snd kv)) ` set o1))"
    let ?m = "map (\<lambda>(k, v). (k, reprinted (number_float z) v)) o1"
    have r: "room pretty step cur ind (Suc ?d)" using "1.prems"(2) by simp
    note nl = new_level_ok [OF r n]
    obtain t ind2 where t: "dump_members z pretty step new ind1 o1 = Done (Inr (t, ind2))"
      "members_text t ?m" "grown ind1 ind2"
      using "1.IH" [OF False n [symmetric] _ False _ nl(1)] depth_member "1.prems"(1) by auto
    have g: "grown ind ind2" using grown_trans [OF nl(2) t(3)] .
    obtain w where w: "white w" "\<And>f. indented pretty ind2 cur f = f w"
      by (rule indented_ok [OF room_grown [OF r g]]) blast
    have "members_text (newline pretty @ t @ newline pretty @ w) ?m"
      using members_white_before white_after(3) t(2) w(1) by (metis white_append white_newline(1))
    from object_text [OF this] show ?thesis
      using object_of_sorted [of ?m] "1.prems"(1) False n t(1) w(2) g
      by (simp add: and_then_def put_def)
  qed
next
  case (2 z pretty step cur ind xs)
  show ?case
  proof (cases "xs = []")
    case True
    then show ?thesis using empty_array_text [of "[]"] by (simp add: put_def)
  next
    case False
    obtain new ind1 where n: "new_level pretty step cur ind = (new, ind1)" by fastforce
    let ?d = "Max (insert 0 (depth ` set xs))"
    have r: "room pretty step cur ind (Suc ?d)" using "2.prems"(2) by simp
    note nl = new_level_ok [OF r n]
    obtain t ind2 where t: "dump_elements z pretty step new ind1 xs = Done (Inr (t, ind2))"
      "elements_text t (map (reprinted (number_float z)) xs)" "grown ind1 ind2"
      using "2.IH" [OF False n [symmetric] _ False _ nl(1)] depth_element "2.prems"(1) by auto
    have g: "grown ind ind2" using grown_trans [OF nl(2) t(3)] .
    obtain w where w: "white w" "\<And>f. indented pretty ind2 cur f = f w"
      by (rule indented_ok [OF room_grown [OF r g]]) blast
    have "elements_text (newline pretty @ t @ newline pretty @ w) (map (reprinted (number_float z)) xs)"
      using elements_white_before white_after(2) t(2) w(1) by (metis white_append white_newline(1))
    from array_text [OF this] show ?thesis
      using False n t(1) w(2) g by (simp add: and_then_def put_def)
  qed
next
  case (3 z pretty step cur ind s)
  then obtain t where "dump_escaped (error_handler z) (ensure_ascii z) s = Inr t" "string_text t s"
    using dump_escaped_text by (metis printable.simps(1))
  then show ?case using str_text [of t s] by (simp add: put_def)
next
  case (5 z pretty step cur ind b)
  then show ?case using true_text false_text by (cases b) (simp_all add: put_def)
next
  case (6 z pretty step cur ind x)
  then show ?case using negative_integer_text by (simp add: put_def)
next
  case (7 z pretty step cur ind x)
  then show ?case using unsigned_text by (simp add: put_def)
next
  case (8 z pretty step cur ind t)
  then obtain w where "dump_float (number_float z t) = Done w" "number_text w (J_float w)" "float_finite w"
    using dump_float_text by auto
  then show ?case using num_text [of w "J_float w"] by (simp add: put_def)
next
  case (10 z pretty step cur ind)
  then show ?case using null_text by (simp add: put_def)
next
  case (12 z pretty step cur ind x xs)
  obtain w where w: "white w" "\<And>f. indented pretty ind cur f = f w"
    by (rule indented_ok [OF "12.prems"(4)]) blast
  have "room pretty step cur ind (depth x)" using room_le [OF "12.prems"(4)] "12.prems"(3) by simp
  then obtain t ind1 where t: "dump z pretty step cur ind x = Done (Inr (t, ind1))" "value_text t (reprinted (number_float z) x)" "grown ind ind1"
    using "12.IH"(1) "12.prems"(1) by auto
  show ?case
  proof (cases "xs = []")
    case True
    then show ?thesis using last_element [OF w(1) t(2) no_white] t(1,3) w(2) by (simp add: and_then_def put_def)
  next
    case False
    obtain ts ind2 where ts: "dump_elements z pretty step cur ind1 xs = Done (Inr (ts, ind2))"
      "elements_text ts (map (reprinted (number_float z)) xs)" "grown ind1 ind2"
      using "12.IH"(2) [OF False _ False _ room_grown [OF "12.prems"(4) t(3)]] "12.prems"(1,3) by auto
    have "elements_text (w @ t @ [] @ 44 # newline pretty @ ts) (map (reprinted (number_float z)) (x # xs))"
      using next_element [OF w(1) t(2) no_white elements_white_before [OF ts(2) white_newline(1)]] by simp
    then show ?thesis
      using t(1) ts(1) w(2) False grown_trans [OF t(3) ts(3)] by (simp add: and_then_def put_def)
  qed
next
  case (14 z pretty step cur ind kv o1)
  obtain k v where kv: "kv = (k, v)" by fastforce
  obtain w where w: "white w" "\<And>f. indented pretty ind cur f = f w"
    by (rule indented_ok [OF "14.prems"(4)]) blast
  obtain kt where k: "dump_escaped (error_handler z) (ensure_ascii z) k = Inr kt" "string_text kt k"
    using dump_escaped_text "14.prems"(1) kv by fastforce
  have "room pretty step cur ind (depth v)" using room_le [OF "14.prems"(4)] "14.prems"(3) [of kv] kv by simp
  then obtain t ind1 where t: "dump z pretty step cur ind v = Done (Inr (t, ind1))" "value_text t (reprinted (number_float z) v)" "grown ind ind1"
    using "14.IH"(1) "14.prems"(1) k(1) kv by auto
  show ?case
  proof (cases "o1 = []")
    case True
    then show ?thesis
      using last_member [OF w(1) k(2) no_white white_newline(2) t(2) no_white] t(1,3) k(1) kv w(2)
      by (simp add: and_then_def put_def)
  next
    case False
    obtain ts ind2 where ts: "dump_members z pretty step cur ind1 o1 = Done (Inr (ts, ind2))"
      "members_text ts (map (\<lambda>(k, v). (k, reprinted (number_float z) v)) o1)" "grown ind1 ind2"
      using "14.IH"(2) [OF _ False _ False _ room_grown [OF "14.prems"(4) t(3)]] "14.prems"(1,3) k(1) kv by auto
    have "members_text (w @ 34 # kt @ 34 # [] @ 58 # space pretty @ t @ [] @ 44 # newline pretty @ ts)
        (map (\<lambda>(k, v). (k, reprinted (number_float z) v)) ((k, v) # o1))"
      using next_member [OF w(1) k(2) no_white white_newline(2) t(2) no_white
          members_white_before [OF ts(2) white_newline(1)]] by simp
    then show ?thesis
      using t(1) ts(1) w(2) False k(1) kv grown_trans [OF t(3) ts(3)] by (simp add: and_then_def put_def)
  qed
qed simp_all

lemma unat_sint: "0 \<le> sint (x :: 32 word) \<Longrightarrow> unat x = nat (sint x)"
  using sint_less [of x] by (simp add: unat_eq_nat_uint uint_sint take_bit_int_eq_self)

text \<open>
  C10. Writing a value and reading the text gives the value back, each float as a text for which the
  double that was printed is the one nearest: for every value whose strings are UTF-8, whose objects
  are in the order of their keys, whose signed integers are negative, whose floats are finite doubles,
  and which has no binary and no discarded part; compact, or with an indentation of at most 512 white
  characters a level whose total stays below 2 to the 32; with and without \<open>ensure_ascii\<close>, for each
  error handler, and whatever \<open>std::strtod\<close> makes of the texts of the floats.
\<close>

theorem dump_parse_roundtrip:
  assumes "printable nf j" and "is_ws (Some indent_char)"
    and "0 \<le> sint indent \<Longrightarrow> sint indent \<le> 512 \<and> depth j * nat (sint indent) < 2 ^ 32"
  shows "\<exists>txt j'. basic_dump nf indent indent_char asc handler j = Done (Inr txt) \<and>
     parse strict (Parser_ctor txt comments) = Inr j' \<and> same_value nf j j'"
proof -
  let ?z = "\<lparr>error_handler = handler, ensure_ascii = asc, number_float = nf\<rparr>" and ?ind = "replicate 512 indent_char"
  have r: "0 \<le> sint indent \<Longrightarrow> room True indent 0 ?ind (depth j)"
    using assms(2,3) unat_sint [of indent] by (auto simp: room_def white_def list_all_iff)
  have p: "printable (number_float ?z) j" using assms(1) by simp
  have "\<exists>t ind'. (if 0 \<le> sint indent then dump ?z True indent 0 ?ind j else dump ?z False 0 0 ?ind j) =
      Done (Inr (t, ind')) \<and> value_text t (reprinted nf j)"
    using dump_text(1) [OF p r] dump_text(1) [OF p, of False 0 0 ?ind] by (auto simp: room_def)
  then obtain t where t: "basic_dump nf indent indent_char asc handler j = Done (Inr t)"
    "value_text t (reprinted nf j)"
    by (auto simp: basic_dump_def)
  have "parse strict (Parser_ctor ([] @ [] @ t @ []) comments) = Inr (reprinted nf j)"
    by (rule parse_text [OF t(2)]) (simp_all add: bom_ok_def ends_number_def)
  with t same_value_reprinted [OF assms(1)] show ?thesis by auto
qed

definition sample :: json where
  "sample = J_object [([107], J_array [J_unsigned 10, J_integer (- 5), J_string [0xC3, 0xA9], J_float [49, 53, 101, 45, 49]])]"

text \<open>For the witness, the double \<open>1.5\<close> for \<open>15e-1\<close>, the only float of the sample.\<close>

definition sample_float :: "bytes \<Rightarrow> u64" where
  "sample_float t = (if t = [49, 53, 101, 45, 49] then 0x3FF8000000000000 else 0)"

lemma sample_printable: "printable sample_float sample"
proof -
  have "utf8_string [0xE9] = [0xC3, 0xA9]" "utf8_string [107] = [107]"
    by (simp_all add: utf8_string_def utf8_def)
  then have "valid_utf8 [0xC3, 0xA9]" "valid_utf8 [107]"
    unfolding valid_utf8_def
    by (intro exI [of _ "[0xE9]"], simp add: scalar_value_def, intro exI [of _ "[107]"], simp add: scalar_value_def)
  moreover have "is_finite (sample_float [49, 53, 101, 45, 49])" by code_simp
  ultimately show ?thesis by (simp add: sample_def obj_sorted_def)
qed

theorem dump_parse_roundtrip_witness:
  "\<exists>txt j'. basic_dump sample_float 4 32 True Strict sample = Done (Inr txt) \<and>
     parse True (Parser_ctor txt False) = Inr j' \<and> same_value sample_float sample j'"
  by (rule dump_parse_roundtrip [OF sample_printable])
    (simp_all add: is_ws_def sample_def)

text \<open>
  C40. The indentation string is doubled at most once a level: asked for more than 1025 characters a
  level, \<open>dump\<close> reads past its end as soon as it meets a container that is not empty.
\<close>

theorem wide_indent_is_undefined:
  assumes "0 \<le> sint indent" and "1025 < sint indent" and "j = J_array (x # xs) \<or> j = J_object (kv # o1)"
  shows "basic_dump nf indent indent_char asc handler j = Undef"
proof -
  note u = unat_sint [OF assms(1)]
  have "\<exists>ind. new_level True indent 0 (replicate 512 indent_char) = (indent, ind) \<and> length ind + 1 < unat indent"
    using assms(2) u by (auto simp: new_level_def grow_indent_def)
  then obtain ind where n: "new_level True indent 0 (replicate 512 indent_char) = (indent, ind)"
    and "length ind + 1 < unat indent" by blast
  then have "indented True ind indent f = Undef" for f
    by (simp add: indented_def write_indent_def)
  then show ?thesis
    using assms(1,3) n by (auto simp: basic_dump_def and_then_def Let_def)
qed

theorem wide_indent_is_undefined_witness:
  "basic_dump (\<lambda>t. 0) 1026 32 False Strict (J_array [J_null]) = Undef"
  by (rule wide_indent_is_undefined [where x = J_null and xs = "[]"]) simp_all

end
