(* ===== verification/Json_Types.thy ===== *)
theory Json_Types
  imports Json_Dump_Spec
begin

text \<open>
  What the reader returns is well formed, whatever the input: strings and keys are UTF-8, objects
  are ordered by their keys without repetition, signed integers are not positive, and floats are
  finite. The strings are followed through the lexer, the containers through the builder.
\<close>

section \<open>Strings of the lexer\<close>

lemma valid_utf8_append: "valid_utf8 a \<Longrightarrow> valid_utf8 b \<Longrightarrow> valid_utf8 (a @ b)"
  unfolding valid_utf8_def
proof (elim exE conjE)
  fix ns ms
  assume "list_all scalar_value ns" "a = utf8_string ns" "list_all scalar_value ms" "b = utf8_string ms"
  then have "list_all scalar_value (ns @ ms) \<and> a @ b = utf8_string (ns @ ms)"
    by (simp add: utf8_string_def)
  then show "\<exists>ns. list_all scalar_value ns \<and> a @ b = utf8_string ns" by blast
qed

lemma valid_utf8_one: "scalar_value n \<Longrightarrow> valid_utf8 (utf8 n)"
  unfolding valid_utf8_def by (rule exI [of _ "[n]"]) (simp add: utf8_string_def)

lemma valid_utf8_Nil: "valid_utf8 []"
  unfolding valid_utf8_def by (rule exI [of _ "[]"]) (simp add: utf8_string_def)

lemma valid_utf8_ascii: "c < 0x80 \<Longrightarrow> valid_utf8 [c]"
  using valid_utf8_one [of "unat c"] by (simp add: scalar_value_def utf8_def word_less_nat_alt)

lemma byte_offset: "b \<le> unat (c :: u8) \<Longrightarrow> c = word_of_nat (b + (unat c - b))"
  by simp

lemma decompose:
  assumes "a < 64" "m < (64 :: nat)"
  shows "(k * 4096 + a * 64 + m) div 4096 = k" "(k * 4096 + a * 64 + m) div 64 mod 64 = a"
    "(k * 4096 + a * 64 + m) mod 64 = m" "(k * 4096 + a * 64 + m) div 64 = k * 64 + a"
proof -
  have e: "k * 4096 + a * 64 + m = 64 * (k * 64 + a) + m" by simp
  have j: "(64 * j + m) div 64 = j" "(64 * j + m) mod 64 = m" for j using assms(2) by simp_all
  show d: "(k * 4096 + a * 64 + m) div 64 = k * 64 + a" unfolding e by (rule j)
  show "(k * 4096 + a * 64 + m) mod 64 = m" unfolding e by (rule j)
  show "(k * 4096 + a * 64 + m) div 64 mod 64 = a" unfolding d using assms(1) by simp
  have "(k * 4096 + a * 64 + m) div 4096 = (k * 4096 + a * 64 + m) div 64 div 64"
    by (simp add: div_mult2_eq [symmetric])
  then show "(k * 4096 + a * 64 + m) div 4096 = k" unfolding d using assms(1) by simp
qed

lemma utf8_of_two:
  assumes "2 \<le> k" "k < 32" "m < 64"
  shows "\<exists>n. scalar_value n \<and> utf8 n = [word_of_nat (0xC0 + k), word_of_nat (0x80 + m)]"
proof -
  let ?n = "k * 64 + m"
  have "0x80 \<le> ?n" "?n < 0x800" "?n div 64 = k" "?n mod 64 = m" using assms by simp_all
  then show ?thesis
    by (intro exI [of _ ?n]) (simp add: scalar_value_def utf8_def del: of_nat_add)
qed

lemma utf8_of_three:
  assumes "k < 16" "a < 64" "m < 64" "k = 0 \<longrightarrow> 32 \<le> a" "k = 13 \<longrightarrow> a < 32"
  shows "\<exists>n. scalar_value n \<and>
    utf8 n = [word_of_nat (0xE0 + k), word_of_nat (0x80 + a), word_of_nat (0x80 + m)]"
proof -
  let ?n = "k * 4096 + a * 64 + m"
  note d = decompose [OF assms(2,3), of k]
  have n: "0x800 \<le> ?n" "?n < 0x10000" using assms by (cases "k = 0"; simp)+
  have "?n < 0xD800 \<or> 0xE000 \<le> ?n"
  proof (cases "k = 13")
    case False
    then have "k < 13 \<or> 13 < k" by linarith
    then show ?thesis using assms(2,3) by (elim disjE) simp_all
  qed (use assms in simp)
  then show ?thesis
    using n d by (intro exI [of _ ?n]) (simp add: scalar_value_def utf8_def del: of_nat_add)
qed

lemma utf8_of_four:
  assumes "k < 5" "b < 64" "a < 64" "m < 64" "k = 0 \<longrightarrow> 16 \<le> b" "k = 4 \<longrightarrow> b < 16"
  shows "\<exists>n. scalar_value n \<and> utf8 n =
    [word_of_nat (0xF0 + k), word_of_nat (0x80 + b), word_of_nat (0x80 + a), word_of_nat (0x80 + m)]"
proof -
  let ?n = "(k * 64 + b) * 4096 + a * 64 + m"
  note d = decompose [OF assms(3,4), of "k * 64 + b"]
  have "?n div 262144 = ?n div 4096 div 64" by (simp add: div_mult2_eq [symmetric])
  then have k: "?n div 262144 = k" unfolding d using assms(2) by simp
  have "?n div 4096 mod 64 = b" unfolding d using assms(2) by simp
  moreover have "0x10000 \<le> ?n" using assms by (cases "k = 0") simp_all
  moreover have "?n < 0x110000"
  proof (cases "k = 4")
    case False
    then have "k \<le> 3" using assms(1) by simp
    then show ?thesis using assms(2-4) by simp
  qed (use assms in simp)
  ultimately show ?thesis
    using d k by (intro exI [of _ ?n]) (simp add: scalar_value_def utf8_def del: of_nat_add)
qed

lemma follows_one: "follows [r] bs \<Longrightarrow> \<exists>b. bs = [b] \<and> unat (fst r) \<le> unat b \<and> unat b \<le> unat (snd r)"
  by (cases bs; cases "tl bs") auto

lemma follows_Cons:
  "follows (r # rs) bs \<Longrightarrow> \<exists>b bs'. bs = b # bs' \<and> unat (fst r) \<le> unat b \<and> unat b \<le> unat (snd r) \<and> follows rs bs'"
  by (cases bs) auto

lemma two_sound:
  assumes "0xC2 \<le> unat c" "unat c \<le> 0xDF" "0x80 \<le> unat b" "unat b \<le> 0xBF"
  shows "\<exists>n. scalar_value n \<and> utf8 n = [c, b]"
  using utf8_of_two [of "unat c - 0xC0" "unat b - 0x80"] assms
    byte_offset [of "0xC0" c] byte_offset [of "0x80" b] by simp

lemma three_sound:
  assumes "0xE0 \<le> unat c" "unat c \<le> 0xEF" "0x80 \<le> unat a" "unat a \<le> 0xBF" "0x80 \<le> unat b" "unat b \<le> 0xBF"
    and "unat c = 0xE0 \<longrightarrow> 0xA0 \<le> unat a" "unat c = 0xED \<longrightarrow> unat a \<le> 0x9F"
  shows "\<exists>n. scalar_value n \<and> utf8 n = [c, a, b]"
proof -
  obtain k a' m where o: "unat c = 0xE0 + k" "unat a = 0x80 + a'" "unat b = 0x80 + m"
    using assms(1,3,5) by (metis le_Suc_ex)
  have e: "word_of_nat (0xE0 + k) = c" "word_of_nat (0x80 + a') = a" "word_of_nat (0x80 + m) = b"
    unfolding o [symmetric] by simp_all
  have "\<exists>n. scalar_value n \<and> utf8 n = [word_of_nat (0xE0 + k), word_of_nat (0x80 + a'), word_of_nat (0x80 + m)]"
    by (rule utf8_of_three) (use assms o in auto)
  then show ?thesis unfolding e .
qed

lemma four_sound:
  assumes "0xF0 \<le> unat c" "unat c \<le> 0xF4" "0x80 \<le> unat d" "unat d \<le> 0xBF"
    "0x80 \<le> unat a" "unat a \<le> 0xBF" "0x80 \<le> unat b" "unat b \<le> 0xBF"
    and "unat c = 0xF0 \<longrightarrow> 0x90 \<le> unat d" "unat c = 0xF4 \<longrightarrow> unat d \<le> 0x8F"
  shows "\<exists>n. scalar_value n \<and> utf8 n = [c, d, a, b]"
proof -
  obtain k d' a' m where o: "unat c = 0xF0 + k" "unat d = 0x80 + d'" "unat a = 0x80 + a'" "unat b = 0x80 + m"
    using assms(1,3,5,7) by (metis le_Suc_ex)
  have e: "word_of_nat (0xF0 + k) = c" "word_of_nat (0x80 + d') = d" "word_of_nat (0x80 + a') = a"
    "word_of_nat (0x80 + m) = b"
    unfolding o [symmetric] by simp_all
  have "\<exists>n. scalar_value n \<and> utf8 n =
      [word_of_nat (0xF0 + k), word_of_nat (0x80 + d'), word_of_nat (0x80 + a'), word_of_nat (0x80 + m)]"
    by (rule utf8_of_four) (use assms o in auto)
  then show ?thesis unfolding e .
qed

lemma utf8_ranges_sound:
  assumes "utf8_ranges c = Some rs" and "follows rs bs"
  shows "\<exists>n. scalar_value n \<and> utf8 n = c # bs"
proof -
  let ?c = "unat c"
  consider (two) "0xC2 \<le> ?c" "?c \<le> 0xDF" "rs = [(0x80, 0xBF)]"
    | (three) lo hi where "0xE0 \<le> ?c" "?c \<le> 0xEF" "rs = [(lo, hi), (0x80, 0xBF)]" "0x80 \<le> unat lo" "unat hi \<le> 0xBF"
        "?c = 0xE0 \<longrightarrow> unat lo = 0xA0" "?c = 0xED \<longrightarrow> unat hi = 0x9F"
    | (four) lo hi where "0xF0 \<le> ?c" "?c \<le> 0xF4" "rs = [(lo, hi), (0x80, 0xBF), (0x80, 0xBF)]"
        "0x80 \<le> unat lo" "unat hi \<le> 0xBF" "?c = 0xF0 \<longrightarrow> unat lo = 0x90" "?c = 0xF4 \<longrightarrow> unat hi = 0x8F"
    using assms(1) unfolding utf8_ranges_nat nat_ranges_def
    by (simp split: if_splits) (auto split: if_splits)
  then show ?thesis
  proof cases
    case two
    then obtain b where "bs = [b]" "0x80 \<le> unat b" "unat b \<le> 0xBF"
      using follows_one assms(2) by fastforce
    then show ?thesis using two_sound two by simp
  next
    case three
    obtain a bs' where a: "bs = a # bs'" "unat lo \<le> unat a" "unat a \<le> unat hi" "follows [(0x80, 0xBF)] bs'"
      using follows_Cons assms(2) unfolding three by fastforce
    obtain b where b: "bs' = [b]" "0x80 \<le> unat b" "unat b \<le> 0xBF"
      using follows_one [OF a(4)] by auto
    have "\<exists>n. scalar_value n \<and> utf8 n = [c, a, b]"
      by (rule three_sound) (use three a b in auto)
    then show ?thesis by (simp add: a b)
  next
    case four
    obtain d bs' where d: "bs = d # bs'" "unat lo \<le> unat d" "unat d \<le> unat hi" "follows [(0x80, 0xBF), (0x80, 0xBF)] bs'"
      using follows_Cons assms(2) unfolding four by fastforce
    obtain a bs'' where a: "bs' = a # bs''" "0x80 \<le> unat a" "unat a \<le> 0xBF" "follows [(0x80, 0xBF)] bs''"
      using follows_Cons [OF d(4)] by auto
    obtain b where b: "bs'' = [b]" "0x80 \<le> unat b" "unat b \<le> 0xBF"
      using follows_one [OF a(4)] by auto
    have "\<exists>n. scalar_value n \<and> utf8 n = [c, d, a, b]"
      by (rule four_sound) (use four d a b in auto)
    then show ?thesis by (simp add: d a b)
  qed
qed

text \<open>What a step of the string loop adds, or how it ends.\<close>

definition adds_utf8 :: "token_type option \<times> Lexer \<Rightarrow> Lexer \<Rightarrow> bool" where
  "adds_utf8 r s \<longleftrightarrow>
     (fst r = None \<longrightarrow> (\<exists>v. valid_utf8 v \<and> token_buffer (snd r) = token_buffer s @ v)) \<and>
     (\<forall>t. fst r = Some t \<longrightarrow> t = Parse_error \<or> t = Value_string \<and> token_buffer (snd r) = token_buffer s)"

lemma adds_utf8_error [simp]: "adds_utf8 (Some Parse_error, s') s"
  by (simp add: adds_utf8_def)

lemma adds_utf8_None: "valid_utf8 v \<Longrightarrow> token_buffer s' = token_buffer s @ v \<Longrightarrow> adds_utf8 (None, s') s"
  by (auto simp: adds_utf8_def)

lemma get_codepoint_from_range:
  assumes "get_codepoint_from fs cp s = (n, s')"
  shows "token_buffer s' = token_buffer s \<and> (n = - 1 \<or> cp \<le> n \<and> n \<le> cp + int (sum_list (map (\<lambda>f. 15 * 2 ^ f) fs)))"
  using assms
proof (induction fs arbitrary: cp s)
  case (Cons f fs)
  show ?case
  proof (cases "Option.bind (current (get s)) hex_value")
    case None
    then show ?thesis using Cons.prems by (auto simp: Let_def)
  next
    case (Some d)
    then have "d < 16" using hex_value_le by (auto simp: bind_eq_Some_conv)
    define x where "x = int (d * 2 ^ f)"
    from \<open>d < 16\<close> have x: "0 \<le> x" "x \<le> int (15 * 2 ^ f)"
      unfolding x_def by (simp, simp only: of_nat_le_iff mult_le_mono1)
    have "get_codepoint_from fs (cp + x) (get s) = (n, s')"
      using Cons.prems Some by (simp add: Let_def x_def)
    from Cons.IH [OF this] have "token_buffer s' = token_buffer s"
      "n = - 1 \<or> cp + x \<le> n \<and> n \<le> cp + x + int (sum_list (map (\<lambda>f. 15 * 2 ^ f) fs))" by simp_all
    moreover have "int (sum_list (map (\<lambda>f. 15 * 2 ^ f) (f # fs))) =
        int (15 * 2 ^ f) + int (sum_list (map (\<lambda>f. 15 * 2 ^ f) fs))" by simp
    ultimately show ?thesis using x by linarith
  qed
qed simp

lemma get_codepoint_range:
  assumes "get_codepoint s = (n, s')"
  shows "token_buffer s' = token_buffer s" "n = - 1 \<or> 0 \<le> n \<and> n \<le> 0xFFFF"
  using get_codepoint_from_range [of "[12, 8, 4, 0]" 0 s n s'] assms by (auto simp: get_codepoint_def)

lemma add_codepoint_valid:
  assumes "0 \<le> n" "scalar_value (nat n)" "token_buffer s' = token_buffer s"
  shows "adds_utf8 (None, add_codepoint n s') s"
proof -
  have "nat n < 0x110000" using assms(2) by (auto simp: scalar_value_def)
  then have "token_buffer (add_codepoint n s') = token_buffer s @ utf8 (nat n)"
    using add_codepoint_ready(1) [of "nat n" s'] assms(1,3) by simp
  then show ?thesis using adds_utf8_None valid_utf8_one assms(2) by blast
qed

lemma unicode_escape_valid: "adds_utf8 (scan_unicode_escape s) s"
proof -
  obtain n1 s1 where g1: "get_codepoint s = (n1, s1)" by fastforce
  obtain n2 s4 where g2: "get_codepoint (get (get s1)) = (n2, s4)" by fastforce
  note r1 = get_codepoint_range [OF g1] and r2 = get_codepoint_range [OF g2]
  have tb: "token_buffer s4 = token_buffer s" using r1(1) r2(1) by simp
  have plain: "adds_utf8 (None, add_codepoint n1 s1) s"
    if "n1 \<noteq> - 1" "\<not> (0xD800 \<le> n1 \<and> n1 \<le> 0xDBFF)" "\<not> (0xDC00 \<le> n1 \<and> n1 \<le> 0xDFFF)"
    by (rule add_codepoint_valid) (use that r1 in \<open>auto simp: scalar_value_def\<close>)
  have pair: "adds_utf8 (None, add_codepoint (n1 * 2 ^ 10 + n2 - 0x35FDC00) s4) s"
    if "0xD800 \<le> n1" "n1 \<le> 0xDBFF" "0xDC00 \<le> n2" "n2 \<le> 0xDFFF"
    by (rule add_codepoint_valid) (use that tb in \<open>auto simp: scalar_value_def\<close>)
  show ?thesis
    unfolding scan_unicode_escape_def g1 Let_def prod.case g2
    using plain pair by (simp only: adds_utf8_error split: if_split) blast
qed

lemma escape_valid: "adds_utf8 (scan_escape s) s"
proof (cases "Option.bind (current (get s)) simple_escape")
  case (Some c)
  then have "c < 0x80" by (auto simp: bind_eq_Some_conv simple_escape_def split: if_splits)
  then have "adds_utf8 (None, add c (get s)) s"
    using valid_utf8_ascii by (intro adds_utf8_None) auto
  then show ?thesis using Some by (simp add: scan_escape_def Let_def)
next
  case None
  have "adds_utf8 (scan_unicode_escape (get s)) s"
    using unicode_escape_valid [of "get s"] by (simp add: adds_utf8_def)
  then show ?thesis using None by (simp add: scan_escape_def Let_def)
qed

lemma bytes_in_ranges_follow:
  assumes "bytes_in_ranges rs s = (True, s')"
  shows "\<exists>bs. follows rs bs \<and> token_buffer s' = token_buffer s @ bs"
  using assms
proof (induction rs s rule: bytes_in_ranges.induct)
  case (1 s)
  then show ?case by (intro exI [of _ "[]"]) simp
next
  case (2 lo hi rs s)
  then obtain c where c: "current (get s) = Some c" "lo \<le> c" "c \<le> hi"
    "bytes_in_ranges rs (add_current (get s)) = (True, s')"
    by (auto simp: Let_def split: option.splits if_splits)
  then obtain bs where "follows rs bs" "token_buffer s' = token_buffer s @ c # bs"
    using "2.IH" [OF refl c(1)] by auto
  then show ?case using c by (intro exI [of _ "c # bs"]) (simp add: word_le_nat_alt)
qed

lemma utf8_valid:
  assumes "current s = Some c"
  shows "adds_utf8 (scan_utf8 c s) s"
proof (cases "utf8_ranges c")
  case (Some rs)
  obtain ok s1 where o: "bytes_in_ranges rs (add_current s) = (ok, s1)" by fastforce
  show ?thesis
  proof (cases ok)
    case True
    then obtain bs where "follows rs bs" "token_buffer s1 = token_buffer s @ c # bs"
      using bytes_in_ranges_follow [of rs "add_current s" s1] o assms by auto
    then show ?thesis
      using utf8_ranges_sound [OF Some] valid_utf8_one True o Some
      by (auto simp: scan_utf8_def next_byte_in_range_def intro!: adds_utf8_None) metis
  qed (simp add: scan_utf8_def next_byte_in_range_def Some o)
qed (simp add: scan_utf8_def)

lemma string_char_valid: "adds_utf8 (scan_string_char s) s"
proof (cases "current (get s)")
  case (Some c)
  have e: "adds_utf8 (scan_escape (get s)) s" and u: "adds_utf8 (scan_utf8 c (get s)) s"
    using escape_valid [of "get s"] utf8_valid [OF Some] by (simp_all add: adds_utf8_def)
  have a: "c < 0x80 \<Longrightarrow> adds_utf8 (None, add_current (get s)) s"
    using Some valid_utf8_ascii by (intro adds_utf8_None) auto
  have q: "adds_utf8 (Some Value_string, get s) s" by (simp add: adds_utf8_def)
  show ?thesis using Some e u a q by (simp add: scan_string_char_def Let_def)
qed (simp add: scan_string_char_def Let_def)

lemma string_loop_valid:
  assumes "valid_utf8 (token_buffer s)" and "scan_string_loop s = (t, s')"
  shows "t = Parse_error \<or> t = Value_string \<and> valid_utf8 (token_buffer s')"
  using assms
proof (induction s rule: scan_string_loop.induct)
  case (1 s)
  obtain r s1 where r: "scan_string_char s = (r, s1)" by fastforce
  have a: "adds_utf8 (r, s1) s" using string_char_valid [of s] r by simp
  show ?case
  proof (cases r)
    case None
    then obtain v where "valid_utf8 v" "token_buffer s1 = token_buffer s @ v"
      using a by (auto simp: adds_utf8_def)
    then have "valid_utf8 (token_buffer s1)" using valid_utf8_append "1.prems"(1) by simp
    moreover have "scan_string_loop s1 = (t, s')"
      using "1.prems"(2) r None by (subst (asm) scan_string_loop.simps) simp
    ultimately show ?thesis using "1.IH" r None by simp
  next
    case (Some t1)
    then have "t1 = t" "s1 = s'" using "1.prems"(2) r by (subst (asm) scan_string_loop.simps, simp)+
    then show ?thesis using a Some "1.prems"(1) by (auto simp: adds_utf8_def)
  qed
qed

section \<open>Tokens\<close>

definition token_ok :: "token_type \<times> Lexer \<Rightarrow> bool" where
  "token_ok r \<longleftrightarrow>
     (fst r = Value_string \<longrightarrow> valid_utf8 (token_buffer (snd r))) \<and>
     (fst r = Value_integer \<longrightarrow> sint (value_integer (snd r)) \<le> 0)"

lemma strtoll_nonpositive:
  assumes "strtoll bs = Some x"
  shows "sint x \<le> 0"
proof -
  let ?v = "dec_acc 0 (tl bs)"
  have v: "?v \<le> 2 ^ 63" "x = - word_of_nat ?v"
    using assms by (auto simp: strtoll_def Let_def split: if_splits)
  then have "x = word_of_int (- int ?v)" by simp
  then have "sint x = sint (word_of_int (- int ?v) :: u64)" by (rule arg_cong)
  also have "\<dots> = signed_take_bit 63 (- int ?v)" by (subst signed_of_int) simp
  also have "\<dots> = - int ?v"
    using v(1) by (intro signed_take_bit_int_eq_self) simp_all
  finally show ?thesis by simp
qed

lemma scan_number_token_ok: "token_ok (scan_number s)"
proof -
  have d: "token_ok (scan_number_done nt s)" for nt s
    using strtoll_nonpositive
    by (auto simp: scan_number_done_def Let_def token_ok_def split: option.split)
  then show ?thesis
    by (auto simp: scan_number_def Let_def token_ok_def split: option.split sum.split prod.split)
qed

lemma scan_literal_rest_token:
  "fst (scan_literal_rest cs t s) = t \<or> fst (scan_literal_rest cs t s) = Parse_error"
  by (induction cs t s rule: scan_literal_rest.induct) (auto simp: Let_def)

lemma scan_string_token_ok: "token_ok (scan_string s)"
proof -
  obtain t s' where r: "scan_string_loop (reset_token s) = (t, s')" by fastforce
  from string_loop_valid [OF _ r] show ?thesis
    by (auto simp: scan_string_def r token_ok_def valid_utf8_Nil)
qed

lemma scan_token_ok: "token_ok (scan s)"
proof -
  have l: "token_ok (scan_literal lit t u)" if "t \<noteq> Value_string" "t \<noteq> Value_integer" for lit t u
    using scan_literal_rest_token [of "tl lit" t u] that
    by (auto simp: scan_literal_def token_ok_def)
  have "token_ok (scan_token u)" for u
    using l scan_string_token_ok scan_number_token_ok
    by (simp add: scan_token_def split: option.split) (simp add: token_ok_def)
  then show ?thesis
    by (simp add: scan_def Let_def split: prod.split) (simp add: token_ok_def)
qed

section \<open>Values\<close>

fun json_wf :: "json \<Rightarrow> bool" where
  "json_wf (J_string s) \<longleftrightarrow> valid_utf8 s"
| "json_wf (J_integer x) \<longleftrightarrow> sint x \<le> 0"
| "json_wf (J_float t) \<longleftrightarrow> float_finite t"
| "json_wf (J_array xs) \<longleftrightarrow> list_all json_wf xs"
| "json_wf (J_object o1) \<longleftrightarrow>
     obj_sorted o1 \<and> list_all (\<lambda>(k, v). valid_utf8 k \<and> json_wf v) o1"
| "json_wf (J_binary bs st) \<longleftrightarrow> False"
| "json_wf J_discarded \<longleftrightarrow> False"
| "json_wf j \<longleftrightarrow> True"

fun container_ok :: "container \<Rightarrow> bool" where
  "container_ok (Array_at xs) \<longleftrightarrow> json_wf (J_array xs)"
| "container_ok (Object_at o1 k) \<longleftrightarrow>
     json_wf (J_object o1) \<and> (case k of None \<Rightarrow> True | Some k' \<Rightarrow> valid_utf8 k')"

definition dom_ok :: "Dom \<Rightarrow> bool" where
  "dom_ok d \<longleftrightarrow> json_wf (root d) \<and> list_all container_ok (ref_stack d)"

lemma obj_set_wf:
  "json_wf (J_object o1) \<Longrightarrow> valid_utf8 k \<Longrightarrow> json_wf v \<Longrightarrow> json_wf (J_object (obj_set k v o1))"
proof -
  have "list_all P (obj_set k v o1)" if "P (k, v)" "list_all P o1" for P
    using that by (induction k v o1 rule: obj_set.induct) auto
  then show "json_wf (J_object o1) \<Longrightarrow> valid_utf8 k \<Longrightarrow> json_wf v \<Longrightarrow> json_wf (J_object (obj_set k v o1))"
    using obj_sorted_set by simp
qed

lemma handle_value_ok: "dom_ok d \<Longrightarrow> json_wf v \<Longrightarrow> dom_ok (handle_value v d)"
  using obj_set_wf
  by (auto simp: dom_ok_def handle_value_def split: list.split container.split option.splits
      simp del: json_wf.simps(5))

lemma list_all_butlast: "list_all P xs \<Longrightarrow> list_all P (butlast xs)"
  by (auto simp: list_all_iff dest: in_set_butlastD)

lemma replace_value_ok: "dom_ok d \<Longrightarrow> json_wf v \<Longrightarrow> dom_ok (replace_value v d)"
  using obj_set_wf list_all_butlast
  by (auto simp: dom_ok_def replace_value_def split: list.split container.split option.splits
      simp del: json_wf.simps(5))

lemma start_ok: "dom_ok d \<Longrightarrow> dom_ok (start_array d)" "dom_ok d \<Longrightarrow> dom_ok (start_object d)"
  using handle_value_ok [of d "J_array []"] handle_value_ok [of d "J_object []"]
  by (simp_all add: start_array_def start_object_def Let_def dom_ok_def obj_sorted_def)

lemma object_key_ok: "dom_ok d \<Longrightarrow> valid_utf8 k \<Longrightarrow> dom_ok (object_key k d)"
  using obj_set_wf [of _ k J_null]
  by (auto simp: dom_ok_def object_key_def obj_touch_def split: list.split container.split
      simp del: json_wf.simps(5))

lemma end_container_ok:
  assumes "dom_ok d"
  shows "dom_ok (end_container d)"
proof (cases "ref_stack d")
  case (Cons c cs)
  then have "json_wf (container_value c)" "dom_ok (d\<lparr>ref_stack := cs\<rparr>)"
    using assms by (cases c; simp add: dom_ok_def)+
  then show ?thesis using replace_value_ok Cons by (simp add: end_container_def)
qed (use assms in \<open>simp add: end_container_def\<close>)

section \<open>The parser\<close>

definition parser_ok :: "Parser \<Rightarrow> Dom \<Rightarrow> bool" where
  "parser_ok p d \<longleftrightarrow> token_ok (last_token p, m_lexer p) \<and> dom_ok d"

lemma get_token_ok: "dom_ok d \<Longrightarrow> parser_ok (get_token p) d"
  using scan_token_ok [of "m_lexer p"] by (simp add: parser_ok_def)

lemma parse_key_ok:
  assumes "parser_ok p d" and "parse_key p d = Inr (p', d')"
  shows "parser_ok p' d'"
proof -
  have k: "last_token p = Value_string" "d' = object_key (token_buffer (m_lexer p)) d"
    "p' = get_token (get_token p)"
    using assms(2) by (auto simp: parse_key_def Let_def split: if_splits)
  then have "valid_utf8 (token_buffer (m_lexer p))" using assms(1) by (simp add: parser_ok_def token_ok_def)
  then have "dom_ok d'" using assms(1) k(2) object_key_ok by (simp add: parser_ok_def)
  then show ?thesis unfolding k(3) by (rule get_token_ok)
qed

lemma value_step_scalar:
  assumes "value_step p d = Inr (r, p', d')" "last_token p \<noteq> Begin_object" "last_token p \<noteq> Begin_array"
    and "parser_ok p d"
  shows "parser_ok p' d'"
proof -
  have t: "last_token p = Value_string \<Longrightarrow> valid_utf8 (token_buffer (m_lexer p))"
    "last_token p = Value_integer \<Longrightarrow> sint (value_integer (m_lexer p)) \<le> 0"
    using assms(4) by (simp_all add: parser_ok_def token_ok_def)
  have "\<exists>v. p' = p \<and> d' = handle_value v d \<and> json_wf v"
    using assms(1-3) t
    by (simp add: value_step_def split: token_type.splits if_splits) force+
  then show ?thesis using assms(4) handle_value_ok by (auto simp: parser_ok_def)
qed

lemma value_step_ok:
  assumes "parser_ok p d" and "value_step p d = Inr (r, p', d')"
  shows "parser_ok p' d'"
proof -
  have d: "dom_ok d" using assms(1) by (simp add: parser_ok_def)
  note s = get_token_ok [OF start_ok(1) [OF d], of p] get_token_ok [OF start_ok(2) [OF d], of p]
    get_token_ok [OF end_container_ok [OF start_ok(1) [OF d]], of p]
    get_token_ok [OF end_container_ok [OF start_ok(2) [OF d]], of p]
  consider "last_token p = Begin_object" | "last_token p = Begin_array"
    | "last_token p \<noteq> Begin_object" "last_token p \<noteq> Begin_array" by blast
  then show ?thesis
  proof cases
    case 1
    then show ?thesis
      using assms(2) s parse_key_ok [OF s(2)]
      by (auto simp: value_step_def Let_def simp del: get_token_fields dom_restore split: if_splits sum.splits)
  next
    case 2
    then show ?thesis
      using assms(2) s by (auto simp: value_step_def Let_def simp del: get_token_fields dom_restore split: if_splits)
  next
    case 3
    then show ?thesis using value_step_scalar assms by blast
  qed
qed

lemma state_step_ok:
  assumes "parser_ok p d" and "state_step b p d = Inr (c, p', d')"
  shows "parser_ok p' d'"
proof -
  have d: "dom_ok d" using assms(1) by (simp add: parser_ok_def)
  note g = get_token_ok [OF d] get_token_ok [OF end_container_ok [OF d]]
  show ?thesis
    using assms(2) g parse_key_ok [OF g(1)]
    by (auto simp: state_step_def Let_def simp del: get_token_fields split: if_splits sum.splits)
qed

text \<open>
  C13. Whatever the input, a value that the reader returns is well formed.
\<close>

theorem reader_returns_well_formed:
  "case parse strict (Parser_ctor contents comments) of Inl e \<Rightarrow> thrown e | Inr j \<Rightarrow> json_wf j"
proof -
  let ?p = "Parser_ctor contents comments" and ?d = "Dom_ctor J_null"
  have "parser_ok ?p ?d"
    unfolding Parser_ctor_def by (rule get_token_ok) (simp add: dom_ok_def Dom_ctor_def)
  from sax_rule [of parser_ok thrown, OF value_step_thrown state_step_thrown value_step_ok state_step_ok this]
  have "case sax_parse_internal False [] ?p ?d of Inl e \<Rightarrow> thrown e | Inr (p', d') \<Rightarrow> parser_ok p' d'" .
  then show ?thesis
    by (auto simp: parse_def parser_ok_def dom_ok_def split: sum.splits)
qed

end
