(* ===== verification/Json_Termination.thy ===== *)
theory Json_Termination
  imports Json_Types
begin

text \<open>
  A bound for the parser's loop: with fuel for two rounds per byte and two more it always ends, on
  every input, with the result of \<open>sax_parse_internal\<close>.
\<close>

fun sax_rounds ::
  "nat \<Rightarrow> bool \<Rightarrow> bool list \<Rightarrow> Parser \<Rightarrow> Dom \<Rightarrow> (json_exception + (Parser \<times> Dom)) option" where
  "sax_rounds 0 skip states p d = None"
| "sax_rounds (Suc n) skip states p d =
     (case (if skip then Inr (None, p, d) else value_step p d) of
        Inl e \<Rightarrow> Some (Inl e)
      | Inr (Some b, p1, d1) \<Rightarrow> sax_rounds n False (b # states) p1 d1
      | Inr (None, p1, d1) \<Rightarrow>
          (case states of
             [] \<Rightarrow> Some (Inr (p1, d1))
           | b # bs \<Rightarrow>
               (case state_step b p1 d1 of
                  Inl e \<Rightarrow> Some (Inl e)
                | Inr (finished, p2, d2) \<Rightarrow> sax_rounds n finished (if finished then bs else states) p2 d2)))"

lemma enough_rounds: "todo skip p < n \<Longrightarrow> sax_rounds n skip states p d = Some (sax_parse_internal skip states p d)"
proof (induction n arbitrary: skip states p d)
  case (Suc n)
  let ?v = "if skip then Inr (None, p, d) else value_step p d"
  show ?case
  proof (cases ?v)
    case (Inl e)
    then show ?thesis by (subst sax_parse_internal.simps) simp
  next
    case (Inr r)
    obtain ob p1 d1 where r: "r = (ob, p1, d1)" by (cases r)
    show ?thesis
    proof (cases ob)
      case (Some b)
      then have v: "?v = Inr (Some b, p1, d1)" using Inr r by simp
      then have "todo False p1 < n" using open_decreases [OF v] Suc.prems by simp
      from Suc.IH [OF this] v show ?thesis by (subst sax_parse_internal.simps) simp
    next
      case None
      then have v: "?v = Inr (None, p1, d1)" using Inr r by simp
      show ?thesis
      proof (cases states)
        case Nil
        with v show ?thesis by (subst sax_parse_internal.simps) simp
      next
        case (Cons b bs)
        show ?thesis
        proof (cases "state_step b p1 d1")
          case (Inl e)
          with v Cons show ?thesis by (subst sax_parse_internal.simps) simp
        next
          case (Inr z)
          obtain c p2 d2 where z: "z = (c, p2, d2)" by (cases z)
          then have "todo c p2 < n" using state_decreases [OF v] Inr Suc.prems by fastforce
          from Suc.IH [OF this] v Cons Inr z show ?thesis by (subst sax_parse_internal.simps) simp
        qed
      qed
    qed
  qed
qed simp

text \<open>
  C14. The parser's loop ends on every input within two rounds per byte that is left and two more.
\<close>

theorem parser_ends_in_linear_rounds:
  "sax_rounds (2 * length (pending (m_lexer p)) + 2) skip states p d = Some (sax_parse_internal skip states p d)"
  by (rule enough_rounds) (simp add: todo_def)

end
