(* ===== verification/Json_Lexer_Sound.thy ===== *)
theory Json_Lexer_Sound
  imports Json_Types
begin

text \<open>
  The converse of the lexer lemmas of \<open>Json_Reader_Spec\<close>: every token but the end of the input is
  the reading of a text of the grammar, after white space. \<open>consumed s xs s'\<close> says that between the
  states \<open>s\<close> and \<open>s'\<close> exactly the bytes \<open>xs\<close> were read, and counted.
\<close>

section \<open>Consumed bytes\<close>

abbreviation chars_read :: "Lexer \<Rightarrow> size_t" where
  "chars_read s \<equiv> chars_read_total (position s)"

definition consumed :: "Lexer \<Rightarrow> bytes \<Rightarrow> Lexer \<Rightarrow> bool" where
  "consumed s xs s' \<longleftrightarrow>
     pending s = xs @ pending s' \<and> lex_ok s' \<and> ignore_comments s' = ignore_comments s \<and>
     chars_read s' = chars_read s + word_of_nat (length xs)"

lemma consumed_trans:
  "consumed s xs s1 \<Longrightarrow> consumed s1 ys s' \<Longrightarrow> consumed s (xs @ ys) s'"
  by (simp add: consumed_def)

lemma consumed_Cons: "consumed s [x] s1 \<Longrightarrow> consumed s1 ys s' \<Longrightarrow> consumed s (x # ys) s'"
  using consumed_trans by fastforce

lemma consumed_refl: "lex_ok s \<Longrightarrow> consumed s [] s"
  by (simp add: consumed_def)

lemma consumed_lex_ok: "consumed s xs s' \<Longrightarrow> lex_ok s'"
  by (simp add: consumed_def)

lemma get_state_frame:
  "ignore_comments (get s) = ignore_comments s" "chars_read (get s) = chars_read s + 1"
  by (simp_all add: get_def get_character_def Let_def split: option.split list.split)

lemma consumed_get: "lex_ok s \<Longrightarrow> current (get s) = Some c \<Longrightarrow> consumed s [c] (get s)"
  using get_pending_Cons [of s] get_pending_Nil [of s]
  by (cases "pending s") (auto simp: consumed_def get_state_frame)

lemma consumed_end: "lex_ok s \<Longrightarrow> current (get s) = None \<Longrightarrow> pending s = []"
  using get_pending_Cons [of s] by (cases "pending s") auto

lemma consumed_unget: "lex_ok s \<Longrightarrow> consumed s [] (unget (get s))"
  using unget_get_pending [of s]
  by (simp add: consumed_def) (simp add: unget_def Let_def get_state_frame)

lemma same_state_frame:
  "ignore_comments (add c s) = ignore_comments s" "chars_read (add c s) = chars_read s"
  "ignore_comments (add_current s) = ignore_comments s" "chars_read (add_current s) = chars_read s"
  "ignore_comments (reset_token s) = ignore_comments s" "chars_read (reset_token s) = chars_read s"
  by (simp_all add: add_def add_current_def reset_token_def)

lemma consumed_add [simp]:
  "consumed s xs (add c s') = consumed s xs s'" "consumed s xs (add_current s') = consumed s xs s'"
  "consumed (add c s) xs s' = consumed s xs s'" "consumed (add_current s) xs s' = consumed s xs s'"
  "consumed (reset_token s) xs s' = consumed s xs s'"
  by (simp_all add: consumed_def same_state_frame)

lemma consumed_fold_add [simp]: "consumed s xs (fold add cs s') = consumed s xs s'"
  by (induction cs arbitrary: s') simp_all

lemma consumed_add_codepoint [simp]: "consumed s xs (add_codepoint n s') = consumed s xs s'"
  by (simp add: add_codepoint_def)

section \<open>Strings\<close>

text \<open>A step of the string loop read a text \<open>t\<close> that may stand before any string text.\<close>

definition string_step :: "Lexer \<Rightarrow> Lexer \<Rightarrow> bool" where
  "string_step s s' \<longleftrightarrow>
     (\<exists>t v. consumed s t s' \<and> token_buffer s' = token_buffer s @ v \<and>
        (\<forall>t2 v2. string_text t2 v2 \<longrightarrow> string_text (t @ t2) (v @ v2)))"

lemma string_stepI:
  assumes "consumed s t s'" and "token_buffer s' = token_buffer s @ v"
    and "\<And>t2 v2. string_text t2 v2 \<Longrightarrow> string_text (t @ t2) (v @ v2)"
  shows "string_step s s'"
  using assms by (auto simp: string_step_def)

lemma bytes_in_ranges_sound:
  assumes "bytes_in_ranges rs s = (True, s')" and "lex_ok s"
  shows "\<exists>bs. follows rs bs \<and> token_buffer s' = token_buffer s @ bs \<and> consumed s bs s'"
  using assms
proof (induction rs s rule: bytes_in_ranges.induct)
  case (1 s)
  then show ?case by (intro exI [of _ "[]"]) (simp add: consumed_refl)
next
  case (2 lo hi rs s)
  then obtain c where c: "current (get s) = Some c" "lo \<le> c" "c \<le> hi"
    "bytes_in_ranges rs (add_current (get s)) = (True, s')"
    by (auto simp: Let_def split: option.splits if_splits)
  then obtain bs where bs: "follows rs bs" "token_buffer s' = token_buffer s @ c # bs"
    "consumed (get s) bs s'"
    using "2.IH" [OF refl c(1)] by auto
  have "consumed s (c # bs) s'"
    using consumed_get [OF "2.prems"(2) c(1)] bs(3) by (rule consumed_Cons)
  with bs c show ?case by (intro exI [of _ "c # bs"]) (simp add: word_le_nat_alt)
qed

lemma utf8_step:
  assumes "scan_utf8 c s1 = (None, s')" and "current s1 = Some c" and "consumed s [c] s1"
    and "token_buffer s1 = token_buffer s" and "0x80 \<le> c"
  shows "string_step s s'"
proof -
  obtain rs where rs: "utf8_ranges c = Some rs" "bytes_in_ranges rs (add_current s1) = (True, s')"
    using assms(1) by (auto simp: scan_utf8_def next_byte_in_range_def split: option.splits prod.splits if_splits)
  obtain bs where bs: "follows rs bs" "token_buffer s' = token_buffer s @ c # bs" "consumed s1 bs s'"
    using bytes_in_ranges_sound [OF rs(2)] consumed_lex_ok [OF assms(3)] assms(2,4) by auto
  obtain n where n: "scalar_value n" "utf8 n = c # bs" using utf8_ranges_sound [OF rs(1) bs(1)] by blast
  have "0x80 \<le> n"
  proof (rule ccontr)
    assume "\<not> 0x80 \<le> n"
    then have "word_of_nat n = c" "n < 0x80" using n(2) by (auto simp: utf8_def)
    then show False using assms(5) unat_byte [of n] by (auto simp: word_le_nat_alt)
  qed
  then show ?thesis
    using n bs(2) consumed_Cons [OF assms(3) bs(3)] plain_text [OF _ n(1)]
    by (intro string_stepI [of s "c # bs" s' "c # bs"]) simp_all
qed

lemma ascii_step:
  assumes "consumed s [c] s1" "current s1 = Some c" "token_buffer s1 = token_buffer s"
    and "c \<noteq> 0x22" "c \<noteq> 0x5C" "\<not> c < 0x20" "c < 0x80"
  shows "string_step s (add_current s1)"
proof -
  let ?n = "unat c"
  have u: "utf8 ?n = [c]" "scalar_value ?n" "0x20 \<le> ?n" "?n \<noteq> 0x22" "?n \<noteq> 0x5C"
    using assms(4-7) by (auto simp: utf8_def scalar_value_def word_less_nat_alt word_unat_eq_iff)
  have "string_text ([c] @ t2) ([c] @ v2)" if "string_text t2 v2" for t2 v2
    using plain_text [OF that u(2-5)] u(1) by simp
  then show ?thesis using assms(1-3) by (intro string_stepI [of s "[c]" _ "[c]"]) simp_all
qed

section \<open>Escapes\<close>

lemma get_codepoint_from_sound:
  assumes "get_codepoint_from fs cp s = (n, s')" and "n \<noteq> - 1" and "lex_ok s"
  shows "\<exists>h ds. map hex_value h = map Some ds \<and> length ds = length fs \<and> consumed s h s' \<and>
    token_buffer s' = token_buffer s \<and> n = cp + int (sum_list (map2 (\<lambda>d f. d * 2 ^ f) ds fs))"
  using assms
proof (induction fs arbitrary: cp s)
  case Nil
  then show ?case by (intro exI [of _ "[]"]) (simp add: consumed_refl)
next
  case (Cons f fs)
  obtain d where d: "Option.bind (current (get s)) hex_value = Some d"
    "get_codepoint_from fs (cp + int (d * 2 ^ f)) (get s) = (n, s')"
    using Cons.prems(1,2) by (cases "Option.bind (current (get s)) hex_value") (simp_all add: Let_def)
  then obtain c where c: "current (get s) = Some c" "hex_value c = Some d" by (auto simp: bind_eq_Some_conv)
  obtain h ds where h: "map hex_value h = map Some ds" "length ds = length fs" "consumed (get s) h s'"
    "token_buffer s' = token_buffer (get s)"
    "n = cp + int (d * 2 ^ f) + int (sum_list (map2 (\<lambda>d f. d * 2 ^ f) ds fs))"
    using Cons.IH [OF d(2) Cons.prems(2)] by auto
  have "consumed s (c # h) s'" using consumed_get [OF Cons.prems(3) c(1)] h(3) by (rule consumed_Cons)
  then show ?case using h c(2) by (intro exI [of _ "c # h"] exI [of _ "d # ds"]) simp
qed

lemma get_codepoint_sound:
  assumes "get_codepoint s = (n, s')" and "n \<noteq> - 1" and "lex_ok s"
  shows "\<exists>h k. n = int k \<and> hex4 h = Some k \<and> consumed s h s' \<and> token_buffer s' = token_buffer s"
proof -
  obtain h ds where h: "map hex_value h = map Some ds" "length ds = 4" "consumed s h s'"
    "token_buffer s' = token_buffer s" "n = int (sum_list (map2 (\<lambda>d f. d * 2 ^ f) ds [12, 8, 4, 0]))"
    using get_codepoint_from_sound [of "[12, 8, 4, 0]" 0 s n s'] assms by (auto simp: get_codepoint_def)
  obtain a b c d where ds: "ds = [a, b, c, d]"
    using h(2) by (auto simp: length_Suc_conv numeral_eq_Suc)
  have "n = int (a * 4096 + b * 256 + c * 16 + d)" using h(5) by (simp add: ds)
  moreover have "hex4 h = Some (a * 4096 + b * 256 + c * 16 + d)" by (simp add: hex4_def h(1) ds)
  ultimately show ?thesis using h(3,4) by blast
qed

lemma unicode_step:
  assumes "scan_unicode_escape s2 = (None, s')" and "consumed s [0x5C, 0x75] s2"
    and "token_buffer s2 = token_buffer s"
  shows "string_step s s'"
proof -
  obtain n1 s3 where g1: "get_codepoint s2 = (n1, s3)" by fastforce
  have n1: "n1 \<noteq> - 1" using assms(1) by (auto simp: scan_unicode_escape_def g1 Let_def)
  obtain h a where h: "n1 = int a" "hex4 h = Some a" "consumed s2 h s3" "token_buffer s3 = token_buffer s2"
    using get_codepoint_sound [OF g1 n1 consumed_lex_ok [OF assms(2)]] by blast
  have u: "consumed s (0x5C # 0x75 # h) s3" using consumed_trans [OF assms(2) h(3)] by simp
  show ?thesis
  proof (cases "0xD800 \<le> a \<and> a \<le> 0xDBFF")
    case False
    then have a: "\<not> (0xDC00 \<le> a \<and> a \<le> 0xDFFF)" "s' = add_codepoint (int a) s3"
      using assms(1) h(1) by (auto simp: scan_unicode_escape_def g1 Let_def split: if_splits)
    have "a < 0x10000"
      using h(2) by (auto elim!: hex4_cases dest!: hex_value_le)
    then have sv: "scalar_value a" "a < 0x110000" using a(1) False by (auto simp: scalar_value_def)
    have tx: "string_text ((0x5C # 0x75 # h) @ t2) (utf8 a @ v2)" if "string_text t2 v2" for t2 v2
      using unicode_text [OF that h(2) sv(1)] by simp
    have "consumed s (0x5C # 0x75 # h) s'" "token_buffer s' = token_buffer s @ utf8 a"
      using u add_codepoint_ready(1) [OF sv(2), of s3] h(4) assms(3) by (simp_all add: a(2))
    then show ?thesis by (rule string_stepI) (rule tx)
  next
    case True
    obtain n2 s4 where g2: "get_codepoint (get (get s3)) = (n2, s4)" by fastforce
    have c: "current (get s3) = Some 0x5C" "current (get (get s3)) = Some 0x75" "n2 \<noteq> - 1"
      "0xDC00 \<le> n2" "n2 \<le> 0xDFFF" "s' = add_codepoint (int a * 2 ^ 10 + n2 - 0x35FDC00) s4"
      using assms(1) h(1) True
      by (auto simp: scan_unicode_escape_def g1 g2 Let_def split: if_splits)
    obtain l b where l: "n2 = int b" "hex4 l = Some b" "consumed (get (get s3)) l s4"
      "token_buffer s4 = token_buffer s3"
      using get_codepoint_sound [OF g2 c(3)] by auto
    have "consumed (get s3) (0x75 # l) s4" using consumed_get [OF _ c(2)] l(3) consumed_Cons by simp
    then have "consumed s3 (0x5C # 0x75 # l) s4"
      using consumed_get [OF consumed_lex_ok [OF u] c(1)] consumed_Cons by blast
    then have cons: "consumed s (0x5C # 0x75 # h @ 0x5C # 0x75 # l) s4" using consumed_trans [OF u] by fastforce
    let ?n = "0x10000 + (a - 0xD800) * 1024 + (b - 0xDC00)"
    have bb: "0xD800 \<le> a" "a < 0xDC00" "0xDC00 \<le> b" "b < 0xE000" using True c(4,5) l(1) by auto
    then have n: "int a * 2 ^ 10 + n2 - 0x35FDC00 = int ?n" "?n < 0x110000" using l(1) by auto
    have tx: "string_text ((0x5C # 0x75 # h @ 0x5C # 0x75 # l) @ t2) (utf8 ?n @ v2)" if "string_text t2 v2" for t2 v2
      using pair_text [OF that h(2) l(2) bb] by simp
    have "consumed s (0x5C # 0x75 # h @ 0x5C # 0x75 # l) s'" "token_buffer s' = token_buffer s @ utf8 ?n"
      using cons add_codepoint_ready(1) [OF n(2), of s4] h(4) l(4) assms(3) unfolding c(6) n(1) by simp_all
    then show ?thesis by (rule string_stepI) (rule tx)
  qed
qed

lemma escape_step:
  assumes "scan_escape s1 = (None, s')" and "consumed s [0x5C] s1" and "token_buffer s1 = token_buffer s"
  shows "string_step s s'"
proof -
  have lex: "lex_ok s1" using consumed_lex_ok [OF assms(2)] .
  show ?thesis
  proof (cases "Option.bind (current (get s1)) simple_escape")
    case (Some c)
    then obtain e where e: "current (get s1) = Some e" "simple_escape e = Some c" by (auto simp: bind_eq_Some_conv)
    have s': "s' = add c (get s1)" using assms(1) Some by (simp add: scan_escape_def Let_def)
    have tx: "string_text ([0x5C, e] @ t2) ([c] @ v2)" if "string_text t2 v2" for t2 v2
      using escape_text [OF that e(2)] by simp
    have "consumed s [0x5C, e] s'" "token_buffer s' = token_buffer s @ [c]"
      using consumed_Cons [OF assms(2) consumed_get [OF lex e(1)]] assms(3) by (simp_all add: s')
    then show ?thesis by (rule string_stepI) (rule tx)
  next
    case None
    then have u: "current (get s1) = Some 0x75" "scan_unicode_escape (get s1) = (None, s')"
      using assms(1) by (auto simp: scan_escape_def Let_def split: if_splits)
    show ?thesis
      by (rule unicode_step [OF u(2) consumed_Cons [OF assms(2) consumed_get [OF lex u(1)]]])
        (simp add: assms(3))
  qed
qed

section \<open>The string loop\<close>

lemma string_char_step:
  assumes "scan_string_char s = (None, s')" and "lex_ok s"
  shows "string_step s s'"
proof -
  obtain c where c: "current (get s) = Some c"
    using assms(1) by (auto simp: scan_string_char_def Let_def split: option.splits)
  note r = consumed_get [OF assms(2) c]
  have nq: "c \<noteq> 0x22" using assms(1) c by (auto simp: scan_string_char_def Let_def)
  consider (escape) "c = 0x5C" "scan_escape (get s) = (None, s')"
    | (ascii) "c \<noteq> 0x5C" "\<not> c < 0x20" "c < 0x80" "s' = add_current (get s)"
    | (utf8) "0x80 \<le> c" "scan_utf8 c (get s) = (None, s')"
    using assms(1) c nq
    by (cases "c = 0x5C"; cases "c < 0x20"; cases "c < 0x80") (auto simp: scan_string_char_def Let_def)
  then show ?thesis
  proof cases
    case escape
    then show ?thesis using escape_step [OF escape(2)] r by simp
  next
    case ascii
    then show ?thesis using ascii_step [OF r c] nq by simp
  next
    case utf8
    then show ?thesis using utf8_step [OF utf8(2) c r] by simp
  qed
qed

lemma string_loop_sound:
  assumes "scan_string_loop s = (Value_string, s')" and "lex_ok s"
  shows "\<exists>t v. consumed s (t @ [0x22]) s' \<and> token_buffer s' = token_buffer s @ v \<and> string_text t v"
  using assms
proof (induction s rule: scan_string_loop.induct)
  case (1 s)
  obtain r s1 where r: "scan_string_char s = (r, s1)" by fastforce
  show ?case
  proof (cases r)
    case None
    obtain t v where t: "consumed s t s1" "token_buffer s1 = token_buffer s @ v"
      "\<And>t2 v2. string_text t2 v2 \<Longrightarrow> string_text (t @ t2) (v @ v2)"
      using string_char_step [of s s1] r None "1.prems"(2) by (auto simp: string_step_def)
    have "scan_string_loop s1 = (Value_string, s')"
      using "1.prems"(1) r None by (subst (asm) scan_string_loop.simps) simp
    then obtain t2 v2 where "consumed s1 (t2 @ [0x22]) s'" "token_buffer s' = token_buffer s1 @ v2"
      "string_text t2 v2"
      using "1.IH" r None consumed_lex_ok [OF t(1)] by fastforce
    then show ?thesis
      using t consumed_trans [OF t(1)] by (intro exI [of _ "t @ t2"] exI [of _ "v @ v2"]) fastforce
  next
    case (Some t1)
    then have e: "t1 = Value_string" "s1 = s'" using "1.prems"(1) r by (subst (asm) scan_string_loop.simps, simp)+
    have "s' = get s \<and> current (get s) = Some 0x22"
      using r Some e
      by (auto simp: scan_string_char_def scan_escape_def scan_unicode_escape_def scan_utf8_def Let_def
          split: option.splits if_splits prod.splits)
    then show ?thesis
      using consumed_get [OF "1.prems"(2)] empty_text by (intro exI [of _ "[]"]) simp
  qed
qed

section \<open>Numbers\<close>

lemma scan_number_from_sound:
  assumes "scan_number_from st nt s = (Inr nt', s')" and "lex_ok s"
  shows "\<exists>bs st' u. number_path st nt bs = Some (st', nt') \<and> number_final st' \<and> consumed s bs u \<and>
    s' = get u \<and> token_buffer u = token_buffer s @ bs"
  using assms
proof (induction st nt s rule: scan_number_from.induct)
  case (1 st nt s)
  show ?case
  proof (cases "number_next st (current (get s))")
    case (Goto st1)
    then obtain c where c: "current (get s) = Some c" by (cases st; cases "current (get s)") auto
    have n: "number_next st (Some c) = Goto st1" using Goto c by simp
    let ?s1 = "add_number_char st1 (get s)"
    have tb: "token_buffer ?s1 = token_buffer s @ [c]"
      using c n goto_decimal1 by (auto simp: add_number_char_def decimal_point_char_def)
    have "scan_number_from st1 (enter_state st1 nt) ?s1 = (Inr nt', s')"
      using "1.prems"(1) Goto by (subst (asm) scan_number_from.simps) (simp add: Let_def)
    then obtain bs st' u where u: "number_path st1 (enter_state st1 nt) bs = Some (st', nt')"
      "number_final st'" "consumed ?s1 bs u" "s' = get u" "token_buffer u = token_buffer ?s1 @ bs"
      using "1.IH" [OF refl Goto] by auto
    have "consumed (get s) bs u" using u(3) by (simp add: add_number_char_def split: if_splits)
    then have "consumed s (c # bs) u" by (rule consumed_Cons [OF consumed_get [OF "1.prems"(2) c]])
    moreover have "number_path st nt (c # bs) = Some (st', nt')" using n u(1) by simp
    moreover have "token_buffer u = token_buffer s @ c # bs" using u(5) tb by simp
    ultimately show ?thesis using u(2,4) by blast
  next
    case Stop
    then have "number_final st"
      by (cases st; cases "current (get s)") (auto simp: number_final_def split: if_splits)
    moreover have "nt' = nt" "s' = get s"
      using "1.prems"(1) Stop by (simp_all add: scan_number_from.simps [of st nt s] Let_def)
    ultimately show ?thesis
      using "1.prems"(2) by (intro exI [of _ "[]"] exI [of _ st] exI [of _ s]) (simp add: consumed_refl)
  qed (use "1.prems" in \<open>auto simp: scan_number_from.simps [of st nt s] Let_def\<close>)
qed

text \<open>What the automaton reads from each of its labels on.\<close>

definition digits :: "bytes \<Rightarrow> bool" where
  "digits ds \<longleftrightarrow> ds \<noteq> [] \<and> list_all is_digit ds"

definition final_path :: "number_state \<Rightarrow> token_type \<Rightarrow> bytes \<Rightarrow> token_type \<Rightarrow> bool" where
  "final_path st nt bs nt' \<longleftrightarrow> (\<exists>st'. number_path st nt bs = Some (st', nt') \<and> number_final st')"

lemma final_path_step:
  "final_path N_zero nt (c # cs) nt' \<Longrightarrow>
     c = 46 \<and> final_path N_decimal1 Value_float cs nt' \<or> is_exp c \<and> final_path N_exponent Value_float cs nt'"
  "final_path N_any1 nt (c # cs) nt' \<Longrightarrow>
     is_digit c \<and> final_path N_any1 nt cs nt' \<or> final_path N_zero nt (c # cs) nt'"
  "final_path N_decimal1 nt (c # cs) nt' \<Longrightarrow> is_digit c \<and> final_path N_decimal2 nt cs nt'"
  "final_path N_decimal2 nt (c # cs) nt' \<Longrightarrow>
     is_digit c \<and> final_path N_decimal2 nt cs nt' \<or> is_exp c \<and> final_path N_exponent Value_float cs nt'"
  "final_path N_exponent nt (c # cs) nt' \<Longrightarrow>
     (c = 43 \<or> c = 45) \<and> final_path N_sign nt cs nt' \<or> is_digit c \<and> final_path N_any2 nt cs nt'"
  "final_path N_sign nt (c # cs) nt' \<Longrightarrow> is_digit c \<and> final_path N_any2 nt cs nt'"
  "final_path N_any2 nt (c # cs) nt' \<Longrightarrow> is_digit c \<and> final_path N_any2 nt cs nt'"
  "final_path N_minus nt (c # cs) nt' \<Longrightarrow>
     is_digit c \<and> final_path (if c = 48 then N_zero else N_any1) nt cs nt'"
  by (auto simp: final_path_def is_digit_def split: if_splits)

lemma final_path_Nil: "final_path st nt [] nt' \<Longrightarrow> number_final st \<and> nt' = nt"
  by (auto simp: final_path_def)

lemma not_final [simp]:
  "\<not> final_path N_minus nt [] nt'" "\<not> final_path N_decimal1 nt [] nt'"
  "\<not> final_path N_exponent nt [] nt'" "\<not> final_path N_sign nt [] nt'"
  by (simp_all add: final_path_def number_final_def)

lemma any2_language: "final_path N_any2 nt bs nt' \<Longrightarrow> list_all is_digit bs \<and> nt' = nt"
proof (induction bs)
  case (Cons c cs)
  then show ?case using final_path_step(7) [OF Cons.prems] by simp
qed (simp add: final_path_Nil)

lemma sign_language: "final_path N_sign nt bs nt' \<Longrightarrow> digits bs \<and> nt' = nt"
  using final_path_step(6) [of nt "hd bs" "tl bs" nt'] any2_language [of nt "tl bs" nt']
  by (cases bs) (auto simp: digits_def)

lemma exponent_language:
  assumes "final_path N_exponent nt bs nt'"
  shows "digits (unsign bs) \<and> nt' = nt"
proof (cases bs)
  case (Cons c cs)
  consider "c = 43 \<or> c = 45" "final_path N_sign nt cs nt'" | "is_digit c" "final_path N_any2 nt cs nt'"
    using final_path_step(5) assms Cons by blast
  then show ?thesis
  proof cases
    case 1
    then have "unsign bs = cs" using Cons by (auto simp: unsign_def)
    with sign_language [OF 1(2)] show ?thesis by simp
  next
    case 2
    then have "unsign bs = bs" using Cons digit_facts [OF 2(1)] by (auto simp: unsign_def)
    with any2_language [OF 2(2)] 2(1) Cons show ?thesis by (simp add: digits_def)
  qed
qed (use assms in simp)

lemma exp_part_path: "is_exp c \<Longrightarrow> final_path N_exponent Value_float cs nt' \<Longrightarrow> exp_part (c # cs) \<and> nt' = Value_float"
  using exponent_language by (auto simp: exp_part_def digits_def Let_def)

lemma decimal2_language:
  "final_path N_decimal2 Value_float bs nt' \<Longrightarrow>
    nt' = Value_float \<and> (\<exists>ds ex. bs = ds @ ex \<and> list_all is_digit ds \<and> exp_part ex)"
proof (induction bs)
  case Nil
  then show ?case using final_path_Nil by (intro conjI exI [of _ "[]"]) (auto simp: exp_part_def)
next
  case (Cons c cs)
  consider "is_digit c" "final_path N_decimal2 Value_float cs nt'" | "is_exp c" "final_path N_exponent Value_float cs nt'"
    using final_path_step(4) [OF Cons.prems] by blast
  then show ?case
  proof cases
    case 1
    then obtain ds ex where "nt' = Value_float" "cs = ds @ ex" "list_all is_digit ds" "exp_part ex"
      using Cons.IH by blast
    then show ?thesis using 1(1) by (intro conjI exI [of _ "c # ds"] exI [of _ ex]) simp_all
  next
    case 2
    from exp_part_path [OF this] show ?thesis by (intro conjI exI [of _ "[]"] exI [of _ "c # cs"]) simp_all
  qed
qed

lemma zero_language:
  assumes "final_path N_zero nt bs nt'"
  shows "\<exists>fr ex. bs = fr @ ex \<and> frac_part fr \<and> exp_part ex \<and> nt' = (if bs = [] then nt else Value_float)"
proof (cases bs)
  case Nil
  then show ?thesis
    using final_path_Nil assms by (intro exI [of _ "[]"]) (auto simp: exp_part_def frac_part_def)
next
  case (Cons c cs)
  consider "c = 46" "final_path N_decimal1 Value_float cs nt'" | "is_exp c" "final_path N_exponent Value_float cs nt'"
    using final_path_step(1) assms Cons by blast
  then show ?thesis
  proof cases
    case 1
    then obtain d cs' where d: "cs = d # cs'" "is_digit d" "final_path N_decimal2 Value_float cs' nt'"
      using final_path_step(3) by (cases cs) auto
    obtain ds ex where e: "nt' = Value_float" "cs' = ds @ ex" "list_all is_digit ds" "exp_part ex"
      using decimal2_language [OF d(3)] by blast
    then show ?thesis
      using d Cons 1(1) by (intro exI [of _ "46 # d # ds"] exI [of _ ex]) (simp add: frac_part_def)
  next
    case 2
    from exp_part_path [OF this] Cons show ?thesis
      by (intro exI [of _ "[]"] exI [of _ bs]) (simp add: frac_part_def)
  qed
qed

lemma any1_language:
  assumes "final_path N_any1 nt bs nt'"
  shows "\<exists>ds fr ex. bs = ds @ fr @ ex \<and> list_all is_digit ds \<and> frac_part fr \<and> exp_part ex \<and>
    nt' = (if fr @ ex = [] then nt else Value_float)"
  using assms
proof (induction bs)
  case Nil
  then show ?case
    using final_path_Nil by (intro exI [of _ "[]"]) (auto simp: exp_part_def frac_part_def)
next
  case (Cons c cs)
  consider "is_digit c" "final_path N_any1 nt cs nt'" | "final_path N_zero nt (c # cs) nt'"
    using final_path_step(2) [OF Cons.prems] by blast
  then show ?case
  proof cases
    case 1
    then obtain ds fr ex where "cs = ds @ fr @ ex" "list_all is_digit ds" "frac_part fr" "exp_part ex"
      "nt' = (if fr @ ex = [] then nt else Value_float)"
      using Cons.IH by blast
    then show ?thesis
      using 1 by (intro exI [of _ "c # ds"] exI [of _ fr] exI [of _ ex]) simp
  next
    case 2
    then obtain fr ex where "c # cs = fr @ ex" "frac_part fr" "exp_part ex"
      "nt' = (if c # cs = [] then nt else Value_float)" using zero_language by blast
    then show ?thesis by (intro exI [of _ "[]"] exI [of _ fr] exI [of _ ex]) auto
  qed
qed

lemma unsigned_language:
  assumes "is_digit c" and "final_path (if c = 48 then N_zero else N_any1) nt bs nt'"
  shows "\<exists>ds fr ex. c # bs = ds @ fr @ ex \<and> int_part ds \<and> frac_part fr \<and> exp_part ex \<and>
    nt' = (if fr @ ex = [] then nt else Value_float)"
proof (cases "c = 48")
  case True
  then have "final_path N_zero nt bs nt'" using assms(2) by simp
  then obtain fr ex where "bs = fr @ ex" "frac_part fr" "exp_part ex" "nt' = (if bs = [] then nt else Value_float)"
    using zero_language by blast
  then show ?thesis
    using assms(1) True by (intro exI [of _ "[c]"] exI [of _ fr] exI [of _ ex]) (simp add: int_part_def)
next
  case False
  then have "final_path N_any1 nt bs nt'" using assms(2) by simp
  then obtain ds fr ex where "bs = ds @ fr @ ex" "list_all is_digit ds" "frac_part fr" "exp_part ex"
    "nt' = (if fr @ ex = [] then nt else Value_float)"
    using any1_language by blast
  then show ?thesis
    using assms(1) False by (intro exI [of _ "c # ds"] exI [of _ fr] exI [of _ ex]) (simp add: int_part_def)
qed

lemma number_language:
  assumes "c = 45 \<or> is_digit c"
    and "final_path (number_start c) (enter_state (number_start c) Value_unsigned) bs nt'"
  shows "\<exists>neg ds fr ex. c # bs = (if neg then [45] else []) @ ds @ fr @ ex \<and> int_part ds \<and> frac_part fr \<and>
    exp_part ex \<and> nt' = number_kind neg (fr @ ex)"
proof (cases "c = 45")
  case False
  then have d: "is_digit c" using assms(1) by simp
  have "final_path (if c = 48 then N_zero else N_any1) Value_unsigned bs nt'"
    using assms(2) False by (auto simp: number_start_def split: if_splits)
  from unsigned_language [OF d this] obtain ds fr ex where
    "c # bs = ds @ fr @ ex" "int_part ds" "frac_part fr" "exp_part ex"
    "nt' = (if fr @ ex = [] then Value_unsigned else Value_float)" by blast
  then show ?thesis
    by (intro exI [of _ False] exI [of _ ds] exI [of _ fr] exI [of _ ex]) (simp add: number_kind_def)
next
  case True
  then have p: "final_path N_minus Value_integer bs nt'" using assms(2) by (simp add: number_start_def)
  then obtain d cs where bs: "bs = d # cs" by (cases bs) auto
  then have d: "is_digit d" "final_path (if d = 48 then N_zero else N_any1) Value_integer cs nt'"
    using final_path_step(8) p by blast+
  from unsigned_language [OF d] obtain ds fr ex where
    "bs = ds @ fr @ ex" "int_part ds" "frac_part fr" "exp_part ex"
    "nt' = (if fr @ ex = [] then Value_integer else Value_float)" unfolding bs by blast
  then show ?thesis
    using True by (intro exI [of _ True] exI [of _ ds] exI [of _ fr] exI [of _ ex]) (simp add: number_kind_def)
qed

text \<open>The conversion gives the value the grammar gives.\<close>

lemma number_done_sound:
  assumes "token_buffer u = (if neg then [45] else []) @ ds @ fr @ ex" and "lex_ok u"
    and "int_part ds" "frac_part fr" "exp_part ex"
    and "scan_number_done (number_kind neg (fr @ ex)) (get u) = (t, s')"
  shows "consumed u [] s' \<and> (\<exists>v. token_value t s' = Some v \<and> number_text (token_buffer u) v)"
proof -
  let ?s1 = "unget (get u)"
  have c: "consumed u [] (?s1\<lparr>value_unsigned := x\<rparr>)" "consumed u [] (?s1\<lparr>value_integer := x\<rparr>)"
    "consumed u [] (?s1\<lparr>value_float := y\<rparr>)" for x y
    using consumed_unget [OF assms(2)] by (simp_all add: consumed_def)
  show ?thesis
  proof (cases "fr @ ex = []")
    case False
    have "number_text (token_buffer u) (J_float (token_buffer u))"
      using float_text [OF assms(3-5) False, of "if neg then [45] else []"] assms(1) by simp
    then show ?thesis
      using assms(6) c False by (auto simp: scan_number_done_def number_kind_def Let_def)
  next
    case True
    then have t: "number_text (token_buffer u) (integer_of neg ds)"
      using natural_text [OF assms(3)] negative_text [OF assms(3)] assms(1) by (cases neg) simp_all
    show ?thesis
    proof (cases neg)
      case False
      then show ?thesis
        using t True assms(1,6) c
        by (auto simp: scan_number_done_def number_kind_def Let_def integer_of_def strtoull_def split: if_splits)
    next
      case neg: True
      then show ?thesis
        using t True assms(1,6) c
        by (auto simp: scan_number_done_def number_kind_def Let_def integer_of_def strtoll_def split: if_splits)
    qed
  qed
qed

lemma scan_number_sound:
  assumes "scan_number s = (t, s')" and "t \<noteq> Parse_error" and "lex_ok s"
    and "current s = Some c" and "c = 45 \<or> is_digit c"
  shows "\<exists>bs v. consumed s bs s' \<and> token_value t s' = Some v \<and> number_text (c # bs) v"
proof -
  let ?st = "number_start c" and ?s0 = "add_current (reset_token s)"
  have tb: "token_buffer ?s0 = [c]" using assms(4) by simp
  obtain nt s1 where n: "scan_number_from ?st (enter_state ?st Value_unsigned) ?s0 = (Inr nt, s1)"
    "scan_number_done nt s1 = (t, s')"
    using assms(1,2,4) by (auto simp: scan_number_def Let_def split: sum.splits prod.splits)
  obtain bs st' u where u: "number_path ?st (enter_state ?st Value_unsigned) bs = Some (st', nt)" "number_final st'"
    "consumed ?s0 bs u" "s1 = get u" "token_buffer u = c # bs"
    using scan_number_from_sound [OF n(1)] assms(3) tb by auto
  have "final_path ?st (enter_state ?st Value_unsigned) bs nt" using u(1,2) by (auto simp: final_path_def)
  from number_language [OF assms(5) this] obtain neg ds fr ex where
    p: "c # bs = (if neg then [45] else []) @ ds @ fr @ ex" "int_part ds" "frac_part fr" "exp_part ex"
      "nt = number_kind neg (fr @ ex)" by blast
  have "consumed u [] s' \<and> (\<exists>v. token_value t s' = Some v \<and> number_text (token_buffer u) v)"
    by (rule number_done_sound [OF _ consumed_lex_ok [OF u(3)] p(2-4)])
      (use n(2) u(4,5) p(1,5) in simp_all)
  then show ?thesis using u(3,5) consumed_trans [of s bs u "[]" s'] by auto
qed

section \<open>White space\<close>

lemma skip_whitespace_sound:
  assumes "lex_ok s"
  shows "case current (skip_whitespace s) of
      None \<Rightarrow> white (pending s)
    | Some c \<Rightarrow> \<exists>w. white w \<and> consumed s (w @ [c]) (skip_whitespace s)"
  using assms
proof (induction s rule: skip_whitespace.induct)
  case (1 s)
  show ?case
  proof (cases "is_ws (current (get s))")
    case True
    then obtain a where a: "current (get s) = Some a" by (auto simp: is_ws_def)
    have ws: "is_ws (Some a)" using True a by simp
    have e: "skip_whitespace s = skip_whitespace (get s)"
      using True by (subst skip_whitespace.simps) (simp add: Let_def)
    note r = consumed_get [OF "1.prems" a]
    show ?thesis
    proof (cases "current (skip_whitespace (get s))")
      case None
      then have "white (pending (get s))" using "1.IH" [OF refl True] by simp
      then have "white (pending s)" using r ws by (simp add: consumed_def)
      then show ?thesis using None e by simp
    next
      case (Some c)
      then obtain w where w: "white w" "consumed (get s) (w @ [c]) (skip_whitespace (get s))"
        using "1.IH" [OF refl True] by auto
      have "consumed s ((a # w) @ [c]) (skip_whitespace s)"
        using consumed_Cons [OF r w(2)] e by simp
      then show ?thesis using Some e w(1) ws by (intro option.case_eq_if [THEN iffD2]) (auto intro!: exI [of _ "a # w"])
    qed
  next
    case False
    then have e: "skip_whitespace s = get s" by (subst skip_whitespace.simps) (simp add: Let_def)
    show ?thesis
    proof (cases "current (get s)")
      case None
      then show ?thesis using e consumed_end [OF "1.prems"] by simp
    next
      case (Some c)
      then show ?thesis using e consumed_get [OF "1.prems" Some] by (auto intro!: exI [of _ "[]"])
    qed
  qed
qed

section \<open>Tokens\<close>

text \<open>The text of a token.\<close>

definition token_text :: "token_type \<Rightarrow> bytes \<Rightarrow> Lexer \<Rightarrow> bool" where
  "token_text t tt s \<longleftrightarrow>
     (\<exists>c. tt = [c] \<and> punctuation c = Some t) \<or>
     (\<exists>v. token_value t s = Some v \<and> (finite_number v \<longrightarrow> value_text tt v) \<and> tt \<noteq> [] \<and>
        (t = Value_string \<longrightarrow> (\<exists>x. tt = 0x22 # x @ [0x22] \<and> string_text x (token_buffer s))))"

lemma scan_literal_rest_sound:
  assumes "scan_literal_rest cs t s = (t', s')" and "t' \<noteq> Parse_error" and "lex_ok s"
  shows "t' = t \<and> consumed s cs s'"
  using assms
proof (induction cs arbitrary: s)
  case (Cons c cs)
  then have c: "current (get s) = Some c" "scan_literal_rest cs t (get s) = (t', s')"
    by (auto simp: Let_def split: if_splits)
  then show ?case using Cons.IH [OF c(2) Cons.prems(2)] consumed_Cons [OF consumed_get [OF Cons.prems(3) c(1)]] by simp
qed (simp add: consumed_refl)

lemma scan_literal_sound:
  assumes "scan_literal lit t s = (t', s')" and "t' \<noteq> Parse_error" and "lex_ok s" and "lit = c # cs"
    and "(lit, t) \<in> {(null_literal, Literal_null), (true_literal, Literal_true), (false_literal, Literal_false)}"
  shows "\<exists>bs. consumed s bs s' \<and> token_text t' (c # bs) s'"
proof -
  have r: "t' = t" "consumed s cs s'"
    using scan_literal_rest_sound [of cs t s t' s'] assms(1-4) by (auto simp: scan_literal_def)
  have "\<exists>v. token_value t s' = Some v \<and> value_text lit v \<and> t \<noteq> Value_string"
    using assms(5) null_text true_text false_text by auto
  then have "token_text t (c # cs) s'" using assms(4) by (auto simp: token_text_def)
  then show ?thesis using r by blast
qed

lemma scan_string_sound:
  assumes "scan_string s = (t, s')" and "t \<noteq> Parse_error" and "lex_ok s"
  shows "\<exists>bs. consumed s bs s' \<and> token_text t (0x22 # bs) s'"
proof -
  have l: "scan_string_loop (reset_token s) = (t, s')" using assms(1) by (simp add: scan_string_def)
  have t: "t = Value_string"
    using string_loop_valid [OF _ l] assms(2) by (simp add: valid_utf8_Nil)
  obtain x v where x: "consumed s (x @ [0x22]) s'" "token_buffer s' = v" "string_text x v"
    using string_loop_sound [OF l [unfolded t]] assms(3) by auto
  have "value_text (0x22 # x @ [0x22]) (J_string v)" by (rule str_text [OF x(3)])
  then have "token_text t (0x22 # x @ [0x22]) s'" using x t by (auto simp: token_text_def)
  then show ?thesis using x(1) by blast
qed

lemma scan_token_sound:
  assumes "scan_token s = (t, s')" and "t \<noteq> Parse_error" and "lex_ok s" and "current s = Some c"
  shows "t = End_of_input \<and> c = 0 \<or> (\<exists>bs. consumed s bs s' \<and> token_text t (c # bs) s')"
proof -
  consider (punct) t' where "punctuation c = Some t'"
    | (true) "c = 116" | (false) "c = 102" | (null) "c = 110" | (string) "c = 34"
    | (number) "c = 45 \<or> is_digit c"
    | (nul) "c = 0"
    | (other) "punctuation c = None" "c \<notin> {116, 102, 110, 34, 45, 0}" "\<not> is_digit c"
    by (cases "punctuation c") auto
  then show ?thesis
  proof cases
    case punct
    then have "t = t'" "s' = s"
      using assms(1,4) by (auto simp: scan_token_def punctuation_def split: if_splits)
    then show ?thesis
      using punct consumed_refl [OF assms(3)] by (auto simp: token_text_def intro!: exI [of _ "[]"])
  next
    case true
    then show ?thesis
      using scan_literal_sound [of true_literal Literal_true s t s' c "tl true_literal"] assms
      by (simp add: scan_token_def true_literal_def)
  next
    case false
    then show ?thesis
      using scan_literal_sound [of false_literal Literal_false s t s' c "tl false_literal"] assms
      by (simp add: scan_token_def false_literal_def)
  next
    case null
    then show ?thesis
      using scan_literal_sound [of null_literal Literal_null s t s' c "tl null_literal"] assms
      by (simp add: scan_token_def null_literal_def)
  next
    case string
    then show ?thesis using scan_string_sound [of s t s'] assms by (simp add: scan_token_def)
  next
    case number
    then have "c \<notin> {91, 93, 123, 125, 58, 44, 116, 102, 110, 34}" by (auto simp: is_digit_def)
    then have "scan_number s = (t, s')" using assms(1,4) number by (simp add: scan_token_def)
    then obtain bs v where "consumed s bs s'" "token_value t s' = Some v" "number_text (c # bs) v"
      using scan_number_sound assms(2-4) number by blast
    moreover have "t \<noteq> Value_string"
      using \<open>token_value t s' = Some v\<close> \<open>number_text (c # bs) v\<close>
      by (auto elim!: number_text.cases simp: integer_of_def Let_def split: if_splits)
    ultimately have "token_text t (c # bs) s'" using num_text by (auto simp: token_text_def)
    then show ?thesis using \<open>consumed s bs s'\<close> by blast
  next
    case nul
    then show ?thesis using assms by (auto simp: scan_token_def is_digit_def split: if_splits)
  next
    case other
    then show ?thesis using assms by (auto simp: scan_token_def punctuation_def split: if_splits)
  qed
qed

text \<open>The next token, in a lexer that does not ignore comments and is past the beginning.\<close>

lemma skip_and_scan_sound:
  assumes "skip_comments (skip_whitespace s) = (ok, s2)" and "(if ok then scan_token s2 else (Parse_error, s2)) = (t, s')"
    and "t \<noteq> Parse_error" and "lex_ok s" and "\<not> ignore_comments s"
  shows "t = End_of_input \<and> ends_input (pending s) \<or>
    (\<exists>w tt. white w \<and> consumed s (w @ tt) s' \<and> token_text t tt s')"
proof (cases "current (skip_whitespace s)")
  case None
  then have e: "ok" "s2 = skip_whitespace s" using assms(1) by (auto simp: skip_comments.simps [of "skip_whitespace s"])
  have "white (pending s)" using skip_whitespace_sound [OF assms(4)] None by simp
  then have "ends_input (pending s)" by (auto simp: ends_input_def)
  then show ?thesis using e None assms(2) by (simp add: scan_token_def)
next
  case (Some c)
  let ?w = "skip_whitespace s"
  obtain w where w: "white w" "consumed s (w @ [c]) ?w" using skip_whitespace_sound [OF assms(4)] Some by auto
  have "\<not> ignore_comments ?w" using w(2) assms(5) by (simp add: consumed_def)
  then have e: "ok" "s2 = ?w" using assms(1) by (auto simp: skip_comments.simps [of ?w])
  then have "scan_token ?w = (t, s')" using assms(2) by simp
  from scan_token_sound [OF this assms(3) consumed_lex_ok [OF w(2)] Some]
  show ?thesis
  proof (elim disjE exE conjE)
    assume z: "t = End_of_input" "c = 0"
    have "pending s = w @ 0 # pending ?w" using w(2) z(2) by (simp add: consumed_def)
    then show ?thesis using z(1) w(1) by (auto simp: ends_input_def)
  next
    fix bs assume b: "consumed ?w bs s'" "token_text t (c # bs) s'"
    have "consumed s (w @ c # bs) s'" using consumed_trans [OF w(2) b(1)] by simp
    then show ?thesis using b(2) w(1) by blast
  qed
qed

lemma scan_sound:
  assumes "scan s = (t, s')" and "t \<noteq> Parse_error" and "lex_ok s" and "\<not> ignore_comments s"
    and "chars_read s \<noteq> 0"
  shows "t = End_of_input \<and> ends_input (pending s) \<or>
    (\<exists>w tt. white w \<and> consumed s (w @ tt) s' \<and> token_text t tt s')"
proof -
  obtain ok s2 where c: "skip_comments (skip_whitespace s) = (ok, s2)" by fastforce
  show ?thesis
    by (rule skip_and_scan_sound [OF c _ assms(2-4)]) (use assms(1,5) c in \<open>auto simp: scan_def\<close>)
qed

text \<open>The first token, which a byte order mark may precede.\<close>

lemma skip_bom_sound:
  assumes "skip_bom s = (True, s1)" and "lex_ok s"
  shows "\<exists>bom. bom_ok bom \<and> consumed s bom s1"
proof (cases "current (get s) = Some 0xEF")
  case False
  then have "s1 = unget (get s)" using assms(1) by (simp add: skip_bom_def Let_def)
  then show ?thesis using consumed_unget [OF assms(2)] by (auto simp: bom_ok_def)
next
  case True
  then have c: "current (get (get s)) = Some 0xBB" "current (get (get (get s))) = Some 0xBF"
    "s1 = get (get (get s))"
    using assms(1) by (auto simp: skip_bom_def Let_def split: if_splits)
  have "consumed (get (get s)) [0xBF] s1" using consumed_get [OF _ c(2)] c(3) by simp
  then have "consumed (get s) [0xBB, 0xBF] s1" using consumed_Cons consumed_get [OF _ c(1)] by simp
  then have "consumed s [0xEF, 0xBB, 0xBF] s1" using consumed_Cons [OF consumed_get [OF assms(2) True]] by simp
  then show ?thesis by (auto simp: bom_ok_def)
qed

lemma first_scan_sound:
  assumes "scan s = (t, s')" and "t \<noteq> Parse_error" and "lex_ok s" and "\<not> ignore_comments s"
    and "chars_read s = 0"
  shows "t = End_of_input \<or>
    (\<exists>bom w tt. bom_ok bom \<and> white w \<and> consumed s (bom @ w @ tt) s' \<and> token_text t tt s')"
proof -
  obtain b s1 where b: "skip_bom s = (b, s1)" by fastforce
  then have "b" using assms(1,2,5) by (cases b) (auto simp: scan_def)
  then obtain bom where bom: "bom_ok bom" "consumed s bom s1" using skip_bom_sound [of s s1] b assms(3) by auto
  obtain ok s2 where c: "skip_comments (skip_whitespace s1) = (ok, s2)" by fastforce
  have "\<not> ignore_comments s1" using bom(2) assms(4) by (simp add: consumed_def)
  then have "t = End_of_input \<and> ends_input (pending s1) \<or>
    (\<exists>w tt. white w \<and> consumed s1 (w @ tt) s' \<and> token_text t tt s')"
    by (rule skip_and_scan_sound [OF c _ assms(2) consumed_lex_ok [OF bom(2)], rotated])
      (use assms(1,5) b \<open>b\<close> c in \<open>auto simp: scan_def\<close>)
  then show ?thesis using bom consumed_trans [OF bom(2)] by blast
qed

end
