(* ===== verification/Json_Language.thy ===== *)
theory Json_Language
  imports Json_Lexer_Sound
begin

text \<open>
  The language of the reader: without comments, and given the whole input, it accepts exactly the
  JSON texts of \<open>Json_Grammar\<close> and returns the value each denotes. The loop keeps its open
  containers on a stack; \<open>expects\<close> and \<open>holds\<close> describe the texts that lead to each of its states.
\<close>

section \<open>Texts read so far\<close>

text \<open>
  \<open>expects pre st d\<close>: after the text \<open>pre\<close> a value may follow, inside the open containers \<open>st\<close> and
  with the builder in state \<open>d\<close>; \<open>holds pre st d\<close>: \<open>pre\<close> ends with a complete value.
\<close>

definition key_text :: "bytes \<Rightarrow> bytes \<Rightarrow> bool" where
  "key_text t k \<longleftrightarrow>
     (\<exists>w1 x w2. white w1 \<and> white w2 \<and> string_text x k \<and> t = w1 @ 0x22 # x @ 0x22 # w2 @ [58])"

inductive expects :: "bytes \<Rightarrow> bool list \<Rightarrow> Dom \<Rightarrow> bool"
  and holds :: "bytes \<Rightarrow> bool list \<Rightarrow> Dom \<Rightarrow> bool" where
  at_start: "expects [] [] (Dom_ctor J_null)"
| first_of_array: "expects pre st d \<Longrightarrow> white w \<Longrightarrow> expects (pre @ w @ [91]) (True # st) (start_array d)"
| next_of_array: "holds pre (True # st) d \<Longrightarrow> white w \<Longrightarrow> expects (pre @ w @ [44]) (True # st) d"
| first_of_object: "expects pre st d \<Longrightarrow> white w \<Longrightarrow> key_text kt k \<Longrightarrow>
    expects (pre @ w @ 123 # kt) (False # st) (object_key k (start_object d))"
| next_of_object: "holds pre (False # st) d \<Longrightarrow> white w \<Longrightarrow> key_text kt k \<Longrightarrow>
    expects (pre @ w @ 44 # kt) (False # st) (object_key k d)"
| value_read: "expects pre st d \<Longrightarrow> white w \<Longrightarrow> value_text t v \<Longrightarrow>
    holds (pre @ w @ t) st (handle_value v d)"

section \<open>Growing texts at their end\<close>

lemma texts_white:
  "value_text t v \<Longrightarrow> True"
  "elements_text t vs \<Longrightarrow> \<forall>w. white w \<longrightarrow> elements_text (t @ w) vs"
  "members_text t kvs \<Longrightarrow> \<forall>w. white w \<longrightarrow> members_text (t @ w) kvs"
proof (induction rule: value_text_elements_text_members_text.inducts)
  case (last_element w1 t v w2)
  then show ?case using value_text_elements_text_members_text.last_element [of w1 t v "w2 @ w" for w] by simp
next
  case (next_element w1 t v w2 ts vs)
  then show ?case
    using value_text_elements_text_members_text.next_element [of w1 t v w2 "ts @ w" vs for w] by simp
next
  case (last_member w1 kt k w2 w3 t v w4)
  then show ?case
    using value_text_elements_text_members_text.last_member [of w1 kt k w2 w3 t v "w4 @ w" for w] by simp
next
  case (next_member w1 kt k w2 w3 t v w4 ts kvs)
  then show ?case
    using value_text_elements_text_members_text.next_member [of w1 kt k w2 w3 t v w4 "ts @ w" kvs for w] by simp
qed simp_all

lemma texts_append:
  "value_text t v \<Longrightarrow> True"
  "elements_text t vs \<Longrightarrow> \<forall>us ws. elements_text us ws \<longrightarrow> elements_text (t @ 44 # us) (vs @ ws)"
  "members_text t kvs \<Longrightarrow> \<forall>us ws. members_text us ws \<longrightarrow> members_text (t @ 44 # us) (kvs @ ws)"
proof (induction rule: value_text_elements_text_members_text.inducts)
  case (last_element w1 t v w2)
  then show ?case using value_text_elements_text_members_text.next_element [of w1 t v w2] by simp
next
  case (next_element w1 t v w2 ts vs)
  then show ?case using value_text_elements_text_members_text.next_element [of w1 t v w2] by simp
next
  case (last_member w1 kt k w2 w3 t v w4)
  then show ?case
    using value_text_elements_text_members_text.next_member [of w1 kt k w2 w3 t v w4] by simp
next
  case (next_member w1 kt k w2 w3 t v w4 ts kvs)
  then show ?case
    using value_text_elements_text_members_text.next_member [of w1 kt k w2 w3 t v w4] by simp
qed simp_all

lemma one_element: "white w \<Longrightarrow> value_text t v \<Longrightarrow> elements_text (w @ t) [v]"
  using last_element [of w t v "[]"] by simp

lemma one_member: "key_text kt k \<Longrightarrow> white w \<Longrightarrow> value_text t v \<Longrightarrow> members_text (kt @ w @ t) [(k, v)]"
  unfolding key_text_def using last_member [of _ _ k _ w t v "[]"] by auto

lemma object_of_append [simp]: "object_of (kvs @ [(k, v)]) = obj_set k v (object_of kvs)"
  by (simp add: object_of_def)

section \<open>The open containers\<close>

definition in_array :: "Dom \<Rightarrow> json list \<Rightarrow> Dom \<Rightarrow> bool" where
  "in_array d0 vs d \<longleftrightarrow>
     d = (handle_value (J_array []) d0)\<lparr>ref_stack := Array_at vs # ref_stack (handle_value (J_array []) d0)\<rparr>"

definition in_object :: "Dom \<Rightarrow> (bytes \<times> json) list \<Rightarrow> bytes option \<Rightarrow> Dom \<Rightarrow> bool" where
  "in_object d0 o1 k d \<longleftrightarrow>
     d = (handle_value (J_object []) d0)\<lparr>ref_stack := Object_at o1 k # ref_stack (handle_value (J_object []) d0)\<rparr>"

lemma in_container:
  "in_array d0 [] (start_array d0)"
  "in_array d0 vs d \<Longrightarrow> in_array d0 (vs @ [v]) (handle_value v d)"
  "in_array d0 vs d \<Longrightarrow> end_container d = handle_value (J_array vs) d0"
  "in_object d0 [] None (start_object d0)"
  "in_object d0 o1 k' d \<Longrightarrow> in_object d0 (obj_touch k o1) (Some k) (object_key k d)"
  "in_object d0 o1 (Some k) d \<Longrightarrow> in_object d0 (obj_set k v o1) (Some k) (handle_value v d)"
  "in_object d0 o1 m d \<Longrightarrow> end_container d = handle_value (J_object o1) d0"
proof -
  have e: "end_container (d\<lparr>ref_stack := c # ref_stack d\<rparr>) = replace_value (container_value c) d" for c d
    by (simp add: end_container_def)
  show "in_array d0 vs d \<Longrightarrow> end_container d = handle_value (J_array vs) d0"
    by (simp add: in_array_def e)
  show "in_object d0 o1 m d \<Longrightarrow> end_container d = handle_value (J_object o1) d0"
    by (simp add: in_object_def e)
qed (simp_all add: in_array_def in_object_def start_array_def start_object_def handle_value_def
      object_key_def Let_def)

definition array_open :: "bytes \<Rightarrow> bool list \<Rightarrow> bytes \<Rightarrow> json list \<Rightarrow> Dom \<Rightarrow> bool" where
  "array_open pre st t vs d \<longleftrightarrow>
     (\<exists>pre0 w d0. pre = pre0 @ w @ 91 # t \<and> expects pre0 st d0 \<and> white w \<and> in_array d0 vs d)"

definition object_open ::
  "bytes \<Rightarrow> bool list \<Rightarrow> bytes \<Rightarrow> (bytes \<times> json) list \<Rightarrow> bytes option \<Rightarrow> Dom \<Rightarrow> bool" where
  "object_open pre st t o1 k d \<longleftrightarrow>
     (\<exists>pre0 w d0. pre = pre0 @ w @ 123 # t \<and> expects pre0 st d0 \<and> white w \<and> in_object d0 o1 k d)"

lemma array_open_steps:
  "expects pre st d \<Longrightarrow> white w \<Longrightarrow> array_open (pre @ w @ [91]) st [] [] (start_array d)"
  "array_open pre st t vs d \<Longrightarrow> array_open (pre @ u) st (t @ u) vs d"
  "array_open pre st t vs d \<Longrightarrow> array_open (pre @ u) st (t @ u) (vs @ [v]) (handle_value v d)"
  using in_container(1,2) by (auto simp: array_open_def) fastforce+

lemma object_open_steps:
  "expects pre st d \<Longrightarrow> white w \<Longrightarrow>
    object_open (pre @ w @ 123 # kt) st kt (obj_touch k []) (Some k) (object_key k (start_object d))"
  "object_open pre st t o1 k' d \<Longrightarrow>
    object_open (pre @ u) st (t @ u) (obj_touch k o1) (Some k) (object_key k d)"
  "object_open pre st t o1 (Some k) d \<Longrightarrow>
    object_open (pre @ u) st (t @ u) (obj_set k v o1) (Some k) (handle_value v d)"
  using in_container(4-6) by (auto simp: object_open_def) fastforce+

fun expects_inv :: "bytes \<Rightarrow> bool list \<Rightarrow> Dom \<Rightarrow> bool" where
  "expects_inv pre [] d \<longleftrightarrow> pre = [] \<and> d = Dom_ctor J_null"
| "expects_inv pre (True # st) d \<longleftrightarrow>
     (\<exists>t vs. array_open pre st t vs d \<and> (t = [] \<and> vs = [] \<or> (\<exists>t'. t = t' @ [44] \<and> elements_text t' vs)))"
| "expects_inv pre (False # st) d \<longleftrightarrow>
     (\<exists>t kt k kvs. object_open pre st (t @ kt) (obj_touch k (object_of kvs)) (Some k) d \<and> key_text kt k \<and>
        (t = [] \<and> kvs = [] \<or> (\<exists>t'. t = t' @ [44] \<and> members_text t' kvs)))"

fun holds_inv :: "bytes \<Rightarrow> bool list \<Rightarrow> Dom \<Rightarrow> bool" where
  "holds_inv pre [] d \<longleftrightarrow>
     (\<exists>w t v. pre = w @ t \<and> white w \<and> value_text t v \<and> d = handle_value v (Dom_ctor J_null))"
| "holds_inv pre (True # st) d \<longleftrightarrow> (\<exists>t vs. array_open pre st t vs d \<and> elements_text t vs)"
| "holds_inv pre (False # st) d \<longleftrightarrow>
     (\<exists>t kvs k. object_open pre st t (object_of kvs) k d \<and> members_text t kvs)"

lemma value_read_inv:
  assumes "expects_inv pre st d" and "white w" and "value_text t v"
  shows "holds_inv (pre @ w @ t) st (handle_value v d)"
  using assms
proof (cases "(pre, st, d)" rule: expects_inv.cases)
  case (1 pre d)
  then show ?thesis using assms by auto
next
  case (2 pre st d)
  obtain u vs where u: "array_open pre st u vs d" "u = [] \<and> vs = [] \<or> (\<exists>t'. u = t' @ [44] \<and> elements_text t' vs)"
    using assms(1) 2 by auto
  have "elements_text (u @ w @ t) (vs @ [v])"
    using u(2) texts_append(2) one_element [OF assms(2,3)] by auto
  then show ?thesis using array_open_steps(3) [OF u(1), of "w @ t" v] 2 by auto
next
  case (3 pre st d)
  obtain u kt k kvs where u: "object_open pre st (u @ kt) (obj_touch k (object_of kvs)) (Some k) d" "key_text kt k"
    "u = [] \<and> kvs = [] \<or> (\<exists>t'. u = t' @ [44] \<and> members_text t' kvs)"
    using assms(1) 3 by (simp only: prod.inject expects_inv.simps) blast
  have m: "members_text (u @ kt @ w @ t) (kvs @ [(k, v)])"
    using u(3) texts_append(3) one_member [OF u(2) assms(2,3)] by auto
  have "object_open (pre @ w @ t) st (u @ kt @ w @ t) (object_of (kvs @ [(k, v)])) (Some k) (handle_value v d)"
    using object_open_steps(3) [OF u(1), of "w @ t" v] by simp
  with m have "holds_inv (pre @ w @ t) (False # st) (handle_value v d)" unfolding holds_inv.simps by blast
  then show ?thesis using 3 by simp
qed

lemma containers_inv:
  "expects pre st d \<Longrightarrow> expects_inv pre st d"
  "holds pre st d \<Longrightarrow> holds_inv pre st d"
proof (induction rule: expects_holds.inducts)
  case (first_of_array pre st d w)
  then show ?case using array_open_steps(1) unfolding expects_inv.simps by blast
next
  case (next_of_array pre st d w)
  then obtain t vs where t: "array_open pre st t vs d" "elements_text t vs" by auto
  have "elements_text (t @ w) vs" using texts_white(2) [OF t(2)] next_of_array by simp
  moreover have "array_open (pre @ w @ [44]) st ((t @ w) @ [44]) vs d"
    using array_open_steps(2) [OF t(1), of "w @ [44]"] by simp
  ultimately show ?case unfolding expects_inv.simps by blast
next
  case (first_of_object pre st d w kt k)
  then have "object_open (pre @ w @ 123 # kt) st ([] @ kt) (obj_touch k (object_of [])) (Some k) (object_key k (start_object d))"
    using object_open_steps(1) by (simp add: object_of_def)
  then show ?case using first_of_object unfolding expects_inv.simps by blast
next
  case (next_of_object pre st d w kt k)
  then obtain t kvs k' where t: "object_open pre st t (object_of kvs) k' d" "members_text t kvs" by auto
  have "members_text (t @ w) kvs" using texts_white(3) [OF t(2)] next_of_object by simp
  moreover have "object_open (pre @ w @ 44 # kt) st (((t @ w) @ [44]) @ kt) (obj_touch k (object_of kvs)) (Some k) (object_key k d)"
    using object_open_steps(2) [OF t(1), of "w @ 44 # kt" k] by simp
  ultimately show ?case using next_of_object unfolding expects_inv.simps by blast
next
  case (value_read pre st d w t v)
  then show ?case using value_read_inv by blast
qed simp

text \<open>Closing a container completes the value it is.\<close>

lemma array_closed:
  assumes "holds pre (True # st) d" and "white w"
  shows "holds (pre @ w @ [93]) st (end_container d)"
proof -
  obtain t vs where t: "array_open pre st t vs d" "elements_text t vs"
    using containers_inv(2) [OF assms(1)] by auto
  then obtain pre0 w0 d0 where o: "pre = pre0 @ w0 @ 91 # t" "expects pre0 st d0" "white w0" "in_array d0 vs d"
    by (auto simp: array_open_def)
  have "value_text (91 # (t @ w) @ [93]) (J_array vs)"
    using texts_white(2) [OF t(2)] assms(2) by (intro array_text) simp
  from value_read [OF o(2,3) this] show ?thesis using in_container(3) [OF o(4)] o(1) by simp
qed

lemma object_closed:
  assumes "holds pre (False # st) d" and "white w"
  shows "holds (pre @ w @ [125]) st (end_container d)"
proof -
  obtain t kvs k where t: "object_open pre st t (object_of kvs) k d" "members_text t kvs"
    using containers_inv(2) [OF assms(1)] by auto
  then obtain pre0 w0 d0 where o: "pre = pre0 @ w0 @ 123 # t" "expects pre0 st d0" "white w0"
    "in_object d0 (object_of kvs) k d"
    by (auto simp: object_open_def)
  have "value_text (123 # (t @ w) @ [125]) (J_object (object_of kvs))"
    using texts_white(3) [OF t(2)] assms(2) by (intro object_text) simp
  from value_read [OF o(2,3) this] show ?thesis using in_container(7) [OF o(4)] o(1) by simp
qed

section \<open>The loop\<close>

text \<open>An invariant of the loop that may depend on the open containers.\<close>

lemma sax_states_rule:
  assumes v: "\<And>st p d p' d'. I False st p d \<Longrightarrow> value_step p d = Inr (None, p', d') \<Longrightarrow> I True st p' d'"
    and o: "\<And>st p d b p' d'. I False st p d \<Longrightarrow> value_step p d = Inr (Some b, p', d') \<Longrightarrow> I False (b # st) p' d'"
    and s: "\<And>b st p d c p' d'. I True (b # st) p d \<Longrightarrow> state_step b p d = Inr (c, p', d') \<Longrightarrow>
      I c (if c then st else b # st) p' d'"
    and "I skip st p d" and "sax_parse_internal skip st p d = Inr (p', d')"
  shows "I True [] p' d'"
  using assms(4,5)
proof (induction skip st p d rule: sax_parse_internal.induct)
  case (1 skip st p d)
  let ?v = "if skip then Inr (None, p, d) else value_step p d"
  obtain ob p1 d1 where v1: "?v = Inr (ob, p1, d1)"
    using "1.prems"(2) by (subst (asm) sax_parse_internal.simps) (auto split: sum.splits)
  show ?case
  proof (cases ob)
    case (Some b)
    then have vs: "?v = Inr (Some b, p1, d1)" using v1 by simp
    then have "I False (b # st) p1 d1" using o "1.prems"(1) by (auto split: if_splits)
    moreover have "sax_parse_internal False (b # st) p1 d1 = Inr (p', d')"
      using "1.prems"(2) vs by (subst (asm) sax_parse_internal.simps) simp
    ultimately show ?thesis using "1.IH"(2) [OF vs refl refl refl] by blast
  next
    case None
    then have vs: "?v = Inr (None, p1, d1)" using v1 by simp
    then have i: "I True st p1 d1" using v "1.prems"(1) by (auto split: if_splits)
    show ?thesis
    proof (cases st)
      case Nil
      then have "p1 = p'" "d1 = d'"
        using "1.prems"(2) vs by (subst (asm) sax_parse_internal.simps, simp)+
      then show ?thesis using i Nil by simp
    next
      case (Cons b bs)
      obtain c p2 d2 where z: "state_step b p1 d1 = Inr (c, p2, d2)"
        and rec: "sax_parse_internal c (if c then bs else st) p2 d2 = Inr (p', d')"
        using "1.prems"(2) vs Cons by (subst (asm) sax_parse_internal.simps) (auto split: sum.splits)
      have "I c (if c then bs else st) p2 d2" using s i z Cons by blast
      then show ?thesis using "1.IH"(1) [OF vs refl refl refl Cons z refl refl] rec by blast
    qed
  qed
qed

section \<open>The parser between two tokens\<close>

definition at_text :: "bytes \<Rightarrow> bytes \<Rightarrow> Parser \<Rightarrow> bool" where
  "at_text contents pre p \<longleftrightarrow>
     (\<exists>bom. bom_ok bom \<and> contents = bom @ pre @ pending (m_lexer p) \<and>
        chars_read (m_lexer p) = word_of_nat (length (bom @ pre))) \<and>
     lex_ok (m_lexer p) \<and> \<not> ignore_comments (m_lexer p) \<and> pre \<noteq> []"

definition token_at :: "bytes \<Rightarrow> bytes \<Rightarrow> Parser \<Rightarrow> bool" where
  "token_at contents pre p \<longleftrightarrow>
     last_token p \<in> {Parse_error, End_of_input} \<or>
     (\<exists>w tt. white w \<and> token_text (last_token p) tt (m_lexer p) \<and> at_text contents (pre @ w @ tt) p)"

lemma token_text_nonempty: "token_text t tt s \<Longrightarrow> tt \<noteq> []"
  by (auto simp: token_text_def)

lemma punctuation_iff:
  "punctuation c = Some Begin_array \<longleftrightarrow> c = 91" "punctuation c = Some End_array \<longleftrightarrow> c = 93"
  "punctuation c = Some Begin_object \<longleftrightarrow> c = 123" "punctuation c = Some End_object \<longleftrightarrow> c = 125"
  "punctuation c = Some Name_separator \<longleftrightarrow> c = 58" "punctuation c = Some Value_separator \<longleftrightarrow> c = 44"
  "punctuation c \<noteq> Some Value_string" "punctuation c \<noteq> Some End_of_input"
  by (auto simp: punctuation_def)

lemma token_text_simps:
  "token_text End_of_input tt s = False" "token_text Begin_array tt s = (tt = [91])"
  "token_text End_array tt s = (tt = [93])" "token_text Begin_object tt s = (tt = [123])"
  "token_text End_object tt s = (tt = [125])" "token_text Name_separator tt s = (tt = [58])"
  "token_text Value_separator tt s = (tt = [44])"
  "token_text Value_string tt s \<Longrightarrow> \<exists>x. tt = 0x22 # x @ [0x22] \<and> string_text x (token_buffer s)"
  by (auto simp: token_text_def punctuation_iff)

lemma at_text_consumed:
  assumes "at_text contents pre p" and "consumed (m_lexer p) xs (m_lexer p')"
  shows "at_text contents (pre @ xs) p'"
  using assms unfolding at_text_def consumed_def by (auto simp: add.assoc)

lemma next_token:
  assumes "at_text contents pre p" and "length contents < 2 ^ 64"
  shows "token_at contents pre (get_token p)"
    and "last_token (get_token p) = End_of_input \<Longrightarrow> ends_input (pending (m_lexer p))"
proof -
  obtain bom where bom: "contents = bom @ pre @ pending (m_lexer p)"
    "chars_read (m_lexer p) = word_of_nat (length (bom @ pre))"
    and l: "lex_ok (m_lexer p)" "\<not> ignore_comments (m_lexer p)" "pre \<noteq> []"
    using assms(1) by (auto simp: at_text_def)
  have "length (bom @ pre) < 2 ^ 64" "0 < length (bom @ pre)" using bom(1) l(3) assms(2) by simp_all
  then have "unat (chars_read (m_lexer p)) \<noteq> 0" unfolding bom(2) by (simp add: unat_of_nat del: of_nat_add)
  then have nz: "chars_read (m_lexer p) \<noteq> 0" by (metis unat_0)
  obtain t s' where sc: "scan (m_lexer p) = (t, s')" by fastforce
  have sound: "t = End_of_input \<and> ends_input (pending (m_lexer p)) \<or>
      (\<exists>w tt. white w \<and> consumed (m_lexer p) (w @ tt) s' \<and> token_text t tt s')" if "t \<noteq> Parse_error"
    using scan_sound [OF sc that l(1,2) nz] .
  show "token_at contents pre (get_token p)"
  proof (cases "t \<in> {Parse_error, End_of_input}")
    case False
    then obtain w tt where w: "white w" "consumed (m_lexer p) (w @ tt) s'" "token_text t tt s'"
      using sound by auto
    have "at_text contents (pre @ w @ tt) (get_token p)"
      using at_text_consumed [OF assms(1), of "w @ tt" "get_token p"] w(2) sc by simp
    then show ?thesis using w sc by (auto simp: token_at_def)
  qed (use sc in \<open>simp add: token_at_def\<close>)
  show "last_token (get_token p) = End_of_input \<Longrightarrow> ends_input (pending (m_lexer p))"
    using sound sc by (auto simp: token_text_simps)
qed

lemma token_atD:
  assumes "token_at contents pre p" and "last_token p \<noteq> Parse_error" and "last_token p \<noteq> End_of_input"
  shows "\<exists>w tt. white w \<and> token_text (last_token p) tt (m_lexer p) \<and> at_text contents (pre @ w @ tt) p"
  using assms by (simp add: token_at_def)

lemma parse_key_sound:
  assumes "parse_key p d = Inr (p', d')" and "token_at contents pre p" and "length contents < 2 ^ 64"
  shows "\<exists>kt k. key_text kt k \<and> d' = object_key k d \<and> token_at contents (pre @ kt) p'"
proof -
  let ?p1 = "get_token p" and ?k = "token_buffer (m_lexer p)"
  have t: "last_token p = Value_string" "last_token ?p1 = Name_separator" "p' = get_token ?p1"
    "d' = object_key ?k d"
    using assms(1) by (auto simp: parse_key_def Let_def simp del: get_token_fields split: if_splits)
  obtain w tt where w: "white w" "token_text Value_string tt (m_lexer p)" "at_text contents (pre @ w @ tt) p"
    using token_atD [OF assms(2)] t(1) by auto
  obtain x where x: "tt = 0x22 # x @ [0x22]" "string_text x ?k" using token_text_simps(8) [OF w(2)] by blast
  obtain w2 tt2 where w2: "white w2" "token_text Name_separator tt2 (m_lexer ?p1)"
    "at_text contents ((pre @ w @ tt) @ w2 @ tt2) ?p1"
    using token_atD [OF next_token(1) [OF w(3) assms(3)]] t(2) by auto
  let ?kt = "w @ 0x22 # x @ 0x22 # w2 @ [58]"
  have "key_text ?kt ?k" unfolding key_text_def using w(1) w2(1) x(2) by blast
  moreover have "at_text contents (pre @ ?kt) ?p1" using w2(2,3) x(1) by (simp add: token_text_simps)
  ultimately show ?thesis using next_token(1) [OF _ assms(3)] t(3,4) by blast
qed

section \<open>The invariant of the loop\<close>

definition loop_inv :: "bytes \<Rightarrow> bool \<Rightarrow> bool list \<Rightarrow> Parser \<Rightarrow> Dom \<Rightarrow> bool" where
  "loop_inv contents skip st p d \<longleftrightarrow>
     (\<exists>pre. if skip then holds pre st d \<and> at_text contents pre p
        else expects pre st d \<and> token_at contents pre p)"

lemma loop_invI:
  "holds pre st d \<Longrightarrow> at_text contents pre p \<Longrightarrow> loop_inv contents True st p d"
  "expects pre st d \<Longrightarrow> token_at contents pre p \<Longrightarrow> loop_inv contents False st p d"
  by (auto simp: loop_inv_def)

lemma value_step_None:
  assumes "value_step p d = Inr (None, p', d')"
  obtains (scalar) v where "token_value (last_token p) (m_lexer p) = Some v" "finite_number v" "p' = p"
      "d' = handle_value v d"
    | (arr) "last_token p = Begin_array" "last_token (get_token p) = End_array" "p' = get_token p"
      "d' = handle_value (J_array []) d"
    | (obj) "last_token p = Begin_object" "last_token (get_token p) = End_object" "p' = get_token p"
      "d' = handle_value (J_object []) d"
  using assms
  by (cases "last_token p") (auto simp: value_step_def Let_def simp del: get_token_fields split: if_splits sum.splits)

lemma value_step_Some:
  assumes "value_step p d = Inr (Some b, p', d')"
  obtains (arr) "last_token p = Begin_array" "b" "p' = get_token p" "d' = start_array d"
    | (obj) "last_token p = Begin_object" "\<not> b" "parse_key (get_token p) (start_object d) = Inr (p', d')"
  using assms
  by (cases "last_token p") (auto simp: value_step_def Let_def simp del: get_token_fields split: if_splits sum.splits)

lemma value_complete:
  assumes "loop_inv contents False st p d" and "value_step p d = Inr (None, p', d')" and "length contents < 2 ^ 64"
  shows "loop_inv contents True st p' d'"
proof -
  obtain pre where pre: "expects pre st d" "token_at contents pre p" using assms(1) by (auto simp: loop_inv_def)
  from assms(2) show ?thesis
  proof (cases rule: value_step_None)
    case (scalar v)
    then have "last_token p \<noteq> Parse_error" "last_token p \<noteq> End_of_input" by auto
    from token_atD [OF pre(2) this] obtain w tt where
      w: "white w" "token_text (last_token p) tt (m_lexer p)" "at_text contents (pre @ w @ tt) p" by blast
    have "value_text tt v"
      using w(2) scalar(1,2) by (auto simp: token_text_def punctuation_def split: if_splits)
    from value_read [OF pre(1) w(1) this] show ?thesis using loop_invI(1) w(3) scalar(3,4) by blast
  next
    case arr
    from token_atD [OF pre(2)] arr(1) obtain w where w: "white w" "at_text contents (pre @ w @ [91]) p"
      by (auto simp: token_text_simps)
    from token_atD [OF next_token(1) [OF w(2) assms(3)]] arr(2) obtain w2 where
      w2: "white w2" "at_text contents ((pre @ w @ [91]) @ w2 @ [93]) (get_token p)"
      by (auto simp: token_text_simps simp del: get_token_fields)
    from value_read [OF pre(1) w(1) empty_array_text [OF w2(1)]] show ?thesis
      using loop_invI(1) w2(2) arr(3,4) by simp
  next
    case obj
    from token_atD [OF pre(2)] obj(1) obtain w where w: "white w" "at_text contents (pre @ w @ [123]) p"
      by (auto simp: token_text_simps)
    from token_atD [OF next_token(1) [OF w(2) assms(3)]] obj(2) obtain w2 where
      w2: "white w2" "at_text contents ((pre @ w @ [123]) @ w2 @ [125]) (get_token p)"
      by (auto simp: token_text_simps simp del: get_token_fields)
    from value_read [OF pre(1) w(1) empty_object_text [OF w2(1)]] show ?thesis
      using loop_invI(1) w2(2) obj(3,4) by simp
  qed
qed

lemma value_opened:
  assumes "loop_inv contents False st p d" and "value_step p d = Inr (Some b, p', d')" and "length contents < 2 ^ 64"
  shows "loop_inv contents False (b # st) p' d'"
proof -
  obtain pre where pre: "expects pre st d" "token_at contents pre p" using assms(1) by (auto simp: loop_inv_def)
  from assms(2) show ?thesis
  proof (cases rule: value_step_Some)
    case arr
    from token_atD [OF pre(2)] arr(1) obtain w where w: "white w" "at_text contents (pre @ w @ [91]) p"
      by (auto simp: token_text_simps)
    from first_of_array [OF pre(1) w(1)] next_token(1) [OF w(2) assms(3)] show ?thesis
      using loop_invI(2) arr(2-4) by simp
  next
    case obj
    from token_atD [OF pre(2)] obj(1) obtain w where w: "white w" "at_text contents (pre @ w @ [123]) p"
      by (auto simp: token_text_simps)
    obtain kt k where k: "key_text kt k" "d' = object_key k (start_object d)"
      "token_at contents ((pre @ w @ [123]) @ kt) p'"
      using parse_key_sound [OF obj(3) next_token(1) [OF w(2) assms(3)] assms(3)] by blast
    from first_of_object [OF pre(1) w(1) k(1)] show ?thesis
      using loop_invI(2) k(2,3) obj(2) by simp
  qed
qed

lemma state_evaluated:
  assumes "loop_inv contents True (b # st) p d" and "state_step b p d = Inr (c, p', d')" and "length contents < 2 ^ 64"
  shows "loop_inv contents c (if c then st else b # st) p' d'"
proof -
  obtain pre where pre: "holds pre (b # st) d" "at_text contents pre p" using assms(1) by (auto simp: loop_inv_def)
  note nt = token_atD [OF next_token(1) [OF pre(2) assms(3)]]
  have tx: "\<exists>w. white w \<and> at_text contents (pre @ w @ [a]) (get_token p)"
    if "last_token (get_token p) = t" "punctuation a = Some t" for a t
    using nt that by (auto simp: token_text_simps punctuation_def simp del: get_token_fields split: if_splits)
  consider (comma) "last_token (get_token p) = Value_separator" "\<not> c"
      "if b then p' = get_token (get_token p) \<and> d' = d else parse_key (get_token (get_token p)) d = Inr (p', d')"
    | (close) "last_token (get_token p) = (if b then End_array else End_object)" "c" "p' = get_token p"
      "d' = end_container d"
    using assms(2) by (auto simp: state_step_def Let_def simp del: get_token_fields split: if_splits sum.splits)
  then show ?thesis
  proof cases
    case comma
    obtain w where w: "white w" "at_text contents (pre @ w @ [44]) (get_token p)"
      using tx [OF comma(1), of 44] by (auto simp: punctuation_def)
    note t2 = next_token(1) [OF w(2) assms(3)]
    show ?thesis
    proof (cases b)
      case True
      from next_of_array [OF _ w(1), of pre st d] pre(1) t2 show ?thesis
        using loop_invI(2) comma(2,3) True by simp
    next
      case False
      obtain kt k where k: "key_text kt k" "d' = object_key k d" "token_at contents ((pre @ w @ [44]) @ kt) p'"
        using parse_key_sound [OF _ t2 assms(3), of d p' d'] comma(3) False by auto
      from next_of_object [OF _ w(1) k(1), of pre st d] pre(1) show ?thesis
        using loop_invI(2) k(2,3) comma(2) False by simp
    qed
  next
    case close
    show ?thesis
    proof (cases b)
      case True
      obtain w where w: "white w" "at_text contents (pre @ w @ [93]) (get_token p)"
        using tx [OF close(1), of 93] True by (auto simp: punctuation_def)
      from array_closed [OF _ w(1), of pre st d] pre(1) show ?thesis
        using loop_invI(1) w(2) close(2-4) True by simp
    next
      case False
      obtain w where w: "white w" "at_text contents (pre @ w @ [125]) (get_token p)"
        using tx [OF close(1), of 125] False by (auto simp: punctuation_def)
      from object_closed [OF _ w(1), of pre st d] pre(1) show ?thesis
        using loop_invI(1) w(2) close(2-4) False by simp
    qed
  qed
qed

section \<open>The language\<close>

lemma Parser_ctor_token:
  assumes "length contents < 2 ^ 64"
  shows "token_at contents [] (Parser_ctor contents False)"
proof -
  let ?s = "Lexer_ctor contents False" and ?p = "Parser_ctor contents False"
  have s: "lex_ok ?s" "\<not> ignore_comments ?s" "chars_read ?s = 0" "pending ?s = contents"
    by (simp_all add: Lexer_ctor_def lex_ok_def pending_def)
  obtain t s' where sc: "scan ?s = (t, s')" by fastforce
  have f: "last_token ?p = t" "m_lexer ?p = s'" by (simp_all add: Parser_ctor_def sc)
  show ?thesis
  proof (cases "t \<in> {Parse_error, End_of_input}")
    case False
    then obtain bom w tt where b: "bom_ok bom" "white w" "consumed ?s (bom @ w @ tt) s'" "token_text t tt s'"
      using first_scan_sound [OF sc _ s(1-3)] by auto
    have "at_text contents ([] @ w @ tt) ?p"
      unfolding at_text_def f(2)
      using b s token_text_nonempty [OF b(4)] by (auto simp: consumed_def)
    then show ?thesis unfolding token_at_def f using b by auto
  qed (simp add: token_at_def f)
qed

lemma json_parse_sound:
  assumes "json_parse contents False = Inr v" and "length contents < 2 ^ 64"
  shows "\<exists>bom w t rest. contents = bom @ w @ t @ rest \<and> bom_ok bom \<and> white w \<and> value_text t v \<and> ends_input rest"
proof -
  let ?p = "Parser_ctor contents False"
  obtain p d where run: "sax_parse_internal False [] ?p (Dom_ctor J_null) = Inr (p, d)"
    and last: "last_token (get_token p) = End_of_input" and v: "root d = v"
    using assms(1) by (auto simp: json_parse_def parse_def simp del: get_token_fields split: sum.splits if_splits)
  have start: "loop_inv contents False [] ?p (Dom_ctor J_null)"
    using loop_invI(2) [OF at_start Parser_ctor_token [OF assms(2)]] .
  have "loop_inv contents True [] p d"
    by (rule sax_states_rule [of "loop_inv contents", OF value_complete [OF _ _ assms(2)]
          value_opened [OF _ _ assms(2)] state_evaluated [OF _ _ assms(2)] start run])
  then obtain pre where pre: "holds pre [] d" "at_text contents pre p" by (auto simp: loop_inv_def)
  obtain w t v' where t: "pre = w @ t" "white w" "value_text t v'" "d = handle_value v' (Dom_ctor J_null)"
    using containers_inv(2) [OF pre(1)] by auto
  have "v' = v" using t(4) v by (simp add: handle_value_def Dom_ctor_def)
  moreover have "ends_input (pending (m_lexer p))" using next_token(2) [OF pre(2) assms(2) last] .
  ultimately show ?thesis using pre(2) t(1-3) unfolding at_text_def by auto
qed


text \<open>
  C9. Without comments the reader accepts exactly the JSON texts and returns the value they
  denote: an optional byte order mark, white space, a text of the grammar, and white space up to
  the end of the input or to a NUL, behind which nothing is read. The bound is that of the
  position counter, which must not wrap back to the value that stands for the first character.
\<close>

theorem json_language:
  assumes "length contents < 2 ^ 64"
  shows "json_parse contents False = Inr v \<longleftrightarrow>
    (\<exists>bom w t rest. contents = bom @ w @ t @ rest \<and> bom_ok bom \<and> white w \<and> value_text t v \<and> ends_input rest)"
proof
  assume "json_parse contents False = Inr v"
  then show "\<exists>bom w t rest. contents = bom @ w @ t @ rest \<and> bom_ok bom \<and> white w \<and> value_text t v \<and> ends_input rest"
    using json_parse_sound assms by blast
next
  assume "\<exists>bom w t rest. contents = bom @ w @ t @ rest \<and> bom_ok bom \<and> white w \<and> value_text t v \<and> ends_input rest"
  then obtain bom w t rest where t: "contents = bom @ w @ t @ rest" "bom_ok bom" "white w" "value_text t v"
    "ends_input rest" by blast
  show "json_parse contents False = Inr v"
    unfolding json_parse_def t(1)
    by (rule parse_text [OF t(4,2,3)]) (use ends_input_ends_number t(5) in auto)
qed


theorem json_language_witness: "json_parse [91, 93, 32, 0, 120] False = Inr (J_array [])"
proof -
  have "value_text (91 # [] @ [93]) (J_array [])" by (rule empty_array_text) simp
  moreover have "ends_input ([32] @ 0 # [120])"
    unfolding ends_input_def by (intro exI [of _ "[32]"] exI [of _ "[120]"]) (simp add: is_ws_def)
  ultimately have "\<exists>bom w t rest. [91, 93, 32, 0, 120] = bom @ w @ t @ rest \<and> bom_ok bom \<and> white w \<and>
      value_text t (J_array []) \<and> ends_input rest"
    by (intro exI [of _ "[]"] exI [of _ "[91, 93]"] exI [of _ "[32, 0, 120]"]) (simp add: bom_ok_def)
  then show ?thesis using json_language [of "[91, 93, 32, 0, 120]" "J_array []"] by simp
qed

text \<open>No text denotes two values.\<close>

corollary grammar_unambiguous:
  assumes "value_text t v" and "value_text t v'"
  shows "v = v'"
proof -
  have "parse True (Parser_ctor ([] @ [] @ t @ []) False) = Inr u" if "value_text t u" for u
    by (rule parse_text [OF that]) (simp_all add: bom_ok_def ends_number_def)
  from this [OF assms(1)] this [OF assms(2)] show ?thesis by simp
qed

end
