(* ===== verification/Session_Steps.thy ===== *)
theory Session_Steps
  imports Session_Spec
begin

text \<open>
  A connection in steps: the rounds of \<open>process_stash\<close>, the places of \<open>read_header\<close> and the
  completions of the socket, one at a time, so that other threads can act in between.
  \<open>Session_Spec\<close> runs the same handlers in one piece; they are schedules of these steps.
\<close>

section \<open>The steps\<close>

text \<open>
  Where the session is: waiting for a read of at most so many bytes; in the loop of
  \<open>process_stash\<close>, called by the read handler or, for \<open>True\<close>, by \<open>read_header\<close>; at the beginning
  of \<open>read_header\<close>; without an operation left.
\<close>

datatype session_pc = Waiting size_t | Parsing bool | Header_start | Ended

text \<open>A client is its session, its place, and all the bytes received from it.\<close>

record Client =
  conn :: Session
  spc :: session_pc
  arrived :: bytes

definition receive :: "bytes \<Rightarrow> Session \<Rightarrow> Session" where
  "receive data s =
     s\<lparr>stash_buffer := commit_write (word_of_nat (length data)) (receive_bytes data (stash_buffer s))\<rparr>"

text \<open>One round of the loop of \<open>process_stash\<close>; \<open>False\<close> when the loop ends.\<close>

definition loop_round ::
  "(nat \<Rightarrow> u64) \<Rightarrow> Session \<times> Shared \<Rightarrow> ((Session \<times> Shared) \<times> bool) outcome" where
  "loop_round tick = (\<lambda>(s, c).
     (case session_scan s of
        Wait \<Rightarrow> Done ((s, c), False)
      | Reject reason \<Rightarrow> Done ((disconnect reason s, c), False)
      | Deliver payload k \<Rightarrow>
          bind_out (call_parser tick payload (s, c)) (\<lambda>(s1, c1).
            Done ((s1\<lparr>stash_buffer := consume k (stash_buffer s1)\<rparr>, c1), True))))"

text \<open>\<open>read_header\<close> before its loop and after it.\<close>

definition header_start :: "Session \<Rightarrow> session_pc" where
  "header_start s =
     (let space = get_write_space (stash_buffer s) in if space < 1024 then Parsing True else Waiting space)"

definition loop_exit :: "bool \<Rightarrow> Session \<Rightarrow> Session \<times> session_pc" where
  "loop_exit from_header s =
     (if \<not> from_header then (s, Header_start)
      else
        let space = get_write_space (stash_buffer s)
        in if space < 1024 then (disconnect ''The package exceeds the size limit.'' s, Ended)
           else (s, Waiting space))"

inductive sstep :: "(nat \<Rightarrow> u64) \<Rightarrow> Client \<times> Shared \<Rightarrow> Client \<times> Shared \<Rightarrow> bool" for tick where
  header: "spc x = Header_start \<Longrightarrow> sstep tick (x, c) (x\<lparr>spc := header_start (conn x)\<rparr>, c)"
| arrive: "spc x = Waiting n \<Longrightarrow> data \<noteq> [] \<Longrightarrow> length data \<le> unat n \<Longrightarrow>
    sstep tick (x, c) (x\<lparr>conn := receive data (conn x), spc := Parsing False, arrived := arrived x @ data\<rparr>, c)"
| read_error: "spc x = Waiting n \<Longrightarrow>
    sstep tick (x, c) (x\<lparr>conn := handle_error ec (conn x), spc := Ended\<rparr>, c)"
| round: "spc x = Parsing b \<Longrightarrow> loop_round tick (conn x, c) = Done ((s, c'), True) \<Longrightarrow>
    sstep tick (x, c) (x\<lparr>conn := s\<rparr>, c')"
| exit: "spc x = Parsing b \<Longrightarrow> loop_round tick (conn x, c) = Done ((s, c'), False) \<Longrightarrow>
    loop_exit b s = (s1, pc1) \<Longrightarrow> sstep tick (x, c) (x\<lparr>conn := s1, spc := pc1\<rparr>, c')"

abbreviation ssteps :: "(nat \<Rightarrow> u64) \<Rightarrow> Client \<times> Shared \<Rightarrow> Client \<times> Shared \<Rightarrow> bool" where
  "ssteps tick \<equiv> (sstep tick)\<^sup>*\<^sup>*"

inductive_cases sstep_elim [consumes 1, case_names header arrive read_error round exit]:
   "sstep tick (x, c) (y, c')"

section \<open>The handlers are schedules of the steps\<close>

lemma process_stash_steps:
  assumes "process_stash tick (s, c) = Done (s', c')" and "spc x = Parsing b" and "conn x = s"
    and "loop_exit b s' = (s1, pc1)"
  shows "ssteps tick (x, c) (x\<lparr>conn := s1, spc := pc1\<rparr>, c')"
  using assms
proof (induction tick "(s, c)" arbitrary: s c x rule: process_stash.induct)
  case (1 tick s c)
  have ex: "ssteps tick (x, c) (x\<lparr>conn := s1, spc := pc1\<rparr>, c')"
    if "loop_round tick (conn x, c) = Done ((s', c'), False)"
    using sstep.exit [OF "1.prems"(2) that "1.prems"(4)] by blast
  show ?case
  proof (cases "session_scan s")
    case Wait
    then show ?thesis
      using "1.prems" by (intro ex) (simp add: process_stash.simps [of tick s c] loop_round_def)
  next
    case (Reject reason)
    then show ?thesis
      using "1.prems" by (intro ex) (simp add: process_stash.simps [of tick s c] loop_round_def)
  next
    case (Deliver payload k)
    obtain s2 c2 where d: "call_parser tick payload (s, c) = Done (s2, c2)" "k \<noteq> 0"
      "process_stash tick (s2\<lparr>stash_buffer := consume k (stash_buffer s2)\<rparr>, c2) = Done (s', c')"
      using "1.prems"(1) Deliver
      by (auto simp: process_stash.simps [of tick s c] split: outcome.splits if_splits prod.splits)
    let ?s2 = "s2\<lparr>stash_buffer := consume k (stash_buffer s2)\<rparr>"
    let ?x = "x\<lparr>conn := ?s2\<rparr>"
    have "sstep tick (x, c) (?x, c2)"
      using sstep.round [OF "1.prems"(2), of tick c ?s2 c2] d(1) Deliver "1.prems"(3)
      by (simp add: loop_round_def)
    moreover have "ssteps tick (?x, c2) (?x\<lparr>conn := s1, spc := pc1\<rparr>, c')"
      using "1.hyps" [OF Deliver d(1) refl d(2,3), of ?x] "1.prems"(2,4) by auto
    ultimately show ?thesis by (auto intro: converse_rtranclp_into_rtranclp)
  qed
qed

lemma read_header_steps:
  assumes "read_header tick (s, c) = Done ((s', c'), r)" and "spc x = Header_start" and "conn x = s"
  shows "ssteps tick (x, c) (x\<lparr>conn := s', spc := (case r of None \<Rightarrow> Ended | Some n \<Rightarrow> Waiting n)\<rparr>, c')"
proof (cases "get_write_space (stash_buffer s) < 1024")
  case False
  then have "s' = s" "c' = c" "r = Some (get_write_space (stash_buffer s))"
    using assms(1) by (auto simp: read_header_def Let_def)
  then show ?thesis
    using sstep.header [OF assms(2), of tick c] False assms(3)
    by (auto simp: header_start_def Let_def)
next
  case True
  let ?x = "x\<lparr>spc := Parsing True\<rparr>"
  have h: "sstep tick (x, c) (?x, c)"
    using sstep.header [OF assms(2), of tick c] True assms(3) by (simp add: header_start_def Let_def)
  obtain s1 where p: "process_stash tick (s, c) = Done (s1, c')"
    and e: "loop_exit True s1 = (s', case r of None \<Rightarrow> Ended | Some n \<Rightarrow> Waiting n)"
    using assms(1) True
    by (auto simp: read_header_def loop_exit_def Let_def bind_out_Done_iff split: if_splits)
  have "ssteps tick (?x, c) (?x\<lparr>conn := s', spc := (case r of None \<Rightarrow> Ended | Some n \<Rightarrow> Waiting n)\<rparr>, c')"
    using process_stash_steps [OF p, of ?x True] e assms(3) by simp
  then show ?thesis using h by (auto intro: converse_rtranclp_into_rtranclp)
qed

lemma on_read_steps:
  assumes "on_read tick (Inr data) (s, c) = Done ((s', c'), r)" and "spc x = Waiting n"
    and "conn x = s" and "data \<noteq> []" and "length data \<le> unat n"
  shows "ssteps tick (x, c) (x\<lparr>arrived := arrived x @ data, conn := s',
    spc := (case r of None \<Rightarrow> Ended | Some n \<Rightarrow> Waiting n)\<rparr>, c')"
proof -
  obtain s1 c1 where p: "process_stash tick (receive data s, c) = Done (s1, c1)"
    "read_header tick (s1, c1) = Done ((s', c'), r)"
    using assms(1) by (auto simp: on_read_def Let_def receive_def bind_out_Done_iff)
  let ?x = "x\<lparr>conn := receive data s, spc := Parsing False, arrived := arrived x @ data\<rparr>"
  let ?y = "?x\<lparr>conn := s1, spc := Header_start\<rparr>"
  have "sstep tick (x, c) (?x, c)" using sstep.arrive [OF assms(2,4,5)] assms(3) by simp
  moreover have "ssteps tick (?x, c) (?y, c1)"
    using process_stash_steps [OF p(1), of ?x False] by (simp add: loop_exit_def)
  moreover have "ssteps tick (?y, c1)
      (?y\<lparr>conn := s', spc := (case r of None \<Rightarrow> Ended | Some n \<Rightarrow> Waiting n)\<rparr>, c')"
    using read_header_steps [OF p(2), of ?y] by simp
  ultimately have "ssteps tick (x, c)
      (?y\<lparr>conn := s', spc := (case r of None \<Rightarrow> Ended | Some n \<Rightarrow> Waiting n)\<rparr>, c')"
    by (meson converse_rtranclp_into_rtranclp rtranclp_trans)
  then show ?thesis by simp
qed

section \<open>What the steps leave alone\<close>

lemma push_running: "push e q t = Done (q', t') \<Longrightarrow> is_running q' = is_running q"
  by (auto simp: push_def push_store_def Let_def
      split: option.splits if_splits OverflowProfile.splits)

lemma store_and_push_running:
  "store_and_push time lev ident message q t = Done (x, q', t') \<Longrightarrow> is_running q' = is_running q"
  using push_running
  by (fastforce simp: store_and_push_def bind_out_Done_iff split: prod.splits option.splits)

lemma call_parser_running:
  "call_parser tick p (s, c) = Done (s', c') \<Longrightarrow>
    is_running (assigned_queue c') = is_running (assigned_queue c)"
  using store_and_push_running
  by (fastforce simp: call_parser_def bind_out_Done_iff parse_and_push_def parse_and_push_simd_def
      finish_parse_def split: if_splits header_result.splits)

lemma loop_round_running:
  "loop_round tick (s, c) = Done ((s', c'), again) \<Longrightarrow>
    is_running (assigned_queue c') = is_running (assigned_queue c)"
  using call_parser_running by (fastforce simp: loop_round_def bind_out_Done_iff split: item.splits)

lemma sstep_past:
  assumes "sstep tick (x, c) (y, c')"
  shows "\<exists>d. arrived y = arrived x @ d"
    and "is_running (assigned_queue c') = is_running (assigned_queue c)"
  using assms loop_round_running by (auto elim!: sstep_elim)

lemma parse_keeps_tail:
  assumes "queue_wf q" and "parse_and_push now p q t = Done (x, q', t')"
  shows "tail q' = tail q \<and> overflow q' = overflow q \<and>
    (head_waiter q' \<longrightarrow> head_waiter q \<and> entries q' = entries q)"
proof -
  have "tail q' = tail q \<and> overflow q' = overflow q \<and> (head_waiter q' \<longrightarrow> head_waiter q \<and> entries q' = entries q)"
    if st: "store_and_push time lev ident message q t = Done (x, q', t')" for time lev ident message
  proof (cases "get_next_slab (word_of_nat (length message)) (slab_pool q)")
    case (Pair r pool)
    show ?thesis
    proof (cases r)
      case None
      then show ?thesis using st Pair by (auto simp: store_and_push_def)
    next
      case (Some dr)
      then obtain pool1 e where p: "push e (q\<lparr>slab_pool := pool1\<rparr>) t = Done (q', t')"
        using st Pair by (auto simp: store_and_push_def bind_out_Done_iff split: prod.splits option.splits)
      have "queue_wf (q\<lparr>slab_pool := pool1\<rparr>)" using assms(1) by simp
      from push_frame(1,3) [OF this p] push_waiter [OF p] show ?thesis by auto
    qed
  qed
  then show ?thesis
    using assms(2) by (auto simp: parse_and_push_def finish_parse_def split: header_result.splits)
qed

section \<open>A client that sends logs\<close>

text \<open>
  A stream of logs that the session and its channel can take. With AVX2 the logs have to be
  shorter than 64 bytes, which are parsed by the scalar parser; the others are undefined behaviour.
\<close>

definition stream_ok ::
  "(nat \<Rightarrow> u64) \<Rightarrow> bool \<Rightarrow> wire list \<Rightarrow> client_log list \<Rightarrow> nat \<Rightarrow> nat \<Rightarrow> nat \<Rightarrow> bool" where
  "stream_ok tick avx2 ws logs m sz slab \<longleftrightarrow>
     m < 2 ^ 32 \<and> sz \<le> m + 1024 \<and> 1024 \<le> sz \<and> (\<forall>w \<in> set ws. wire_fits m sz w) \<and>
     map payload_of ws = map line_of logs \<and>
     (\<forall>x \<in> set logs. log_ok tick slab x \<and> (avx2 \<longrightarrow> length (line_of x) < 64))"

fun pc_good :: "session_pc \<Rightarrow> Session \<Rightarrow> wire list \<Rightarrow> bool" where
  "pc_good (Waiting n) s ws \<longleftrightarrow> incomplete (stash (stash_buffer s)) ws \<and> n = get_write_space (stash_buffer s)"
| "pc_good Header_start s ws \<longleftrightarrow> incomplete (stash (stash_buffer s)) ws"
| "pc_good (Parsing b) s ws \<longleftrightarrow> \<not> b"
| "pc_good Ended s ws \<longleftrightarrow> True"

definition session_good :: "bool \<Rightarrow> nat \<Rightarrow> nat \<Rightarrow> session_pc \<Rightarrow> Session \<Rightarrow> bool" where
  "session_good avx2 m sz p s \<longleftrightarrow>
     session_wf s \<and> simd_parser s = avx2 \<and> (p \<noteq> Ended \<longrightarrow> \<not> is_closing s) \<and>
     unat (max_log_size s) = m \<and> unat (ring_size (stash_buffer s)) = sz"

text \<open>The first \<open>k\<close> logs of the stream have been parsed; what has arrived of the rest is in the ring.\<close>

definition client_good :: "bool \<Rightarrow> wire list \<Rightarrow> nat \<Rightarrow> nat \<Rightarrow> nat \<Rightarrow> Client \<Rightarrow> bool" where
  "client_good avx2 ws m sz k x \<longleftrightarrow>
     session_good avx2 m sz (spc x) (conn x) \<and> k \<le> length ws \<and>
     arrived x = concat (map encode (take k ws)) @ stash (stash_buffer (conn x)) \<and>
     pc_good (spc x) (conn x) (drop k ws)"

text \<open>A queue that a log can be parsed into, and what parsing it does: it is appended or, when the
  queue is full, dropped.\<close>

definition queue_good :: "nat \<Rightarrow> nat \<Rightarrow> LogQueue \<Rightarrow> bool" where
  "queue_good slab cap q \<longleftrightarrow>
     channel_ready q \<and> overflow q = DropAll \<and> capacity q = cap \<and> unat (slab_size (slab_pool q)) = slab"

definition parsed_into :: "client_log \<Rightarrow> LogEntry option \<Rightarrow> LogQueue \<Rightarrow> LogQueue \<Rightarrow> bool" where
  "parsed_into l r q q' \<longleftrightarrow>
     (case r of None \<Rightarrow> full q \<and> entries q' = entries q
      | Some e \<Rightarrow> \<not> full q \<and> entries q' = entries q @ [e] \<and> describes e l) \<and>
     tail q' = tail q \<and> (head_waiter q' \<longrightarrow> head_waiter q \<and> entries q' = entries q)"

lemma queue_good_shape:
  "queue_good slab cap q \<Longrightarrow> channel_ready q' \<Longrightarrow> same_shape q q' \<Longrightarrow> overflow q' = overflow q \<Longrightarrow>
    queue_good slab cap q'"
  by (simp add: queue_good_def same_shape_def)

lemma parse_one:
  assumes q: "queue_good slab cap q" and l: "log_ok tick slab l"
  obtains q' t' r where "parse_and_push (tick k) (line_of l) q t = Done (None, q', t')"
    and "parsed_into l r q q'" and "queue_good slab cap q'"
proof -
  have r: "channel_ready q" "overflow q = DropAll" and wf: "queue_wf q"
    and lo: "log_ok tick (unat (slab_size (slab_pool q))) l"
    using q l by (simp_all add: queue_good_def channel_ready_def)
  have "\<exists>q' t' r. parse_and_push (tick k) (line_of l) q t = Done (None, q', t') \<and>
      (case r of None \<Rightarrow> full q \<and> entries q' = entries q
       | Some e \<Rightarrow> \<not> full q \<and> entries q' = entries q @ [e] \<and> describes e l) \<and>
      channel_ready q' \<and> same_shape q q'"
  proof (cases "full q")
    case True
    obtain q' where "parse_and_push (tick k) (line_of l) q t = Done (None, q', t)"
      "entries q' = entries q" "channel_ready q'" "same_shape q q'"
      using parse_drops_log [OF r(1) True r(2) lo, of k t] by blast
    then show ?thesis
      using True by (intro exI [of _ q'] exI [of _ t] exI [of _ None]) simp
  next
    case False
    then have "length (entries q) < capacity q"
      using entries_le_capacity [OF wf] r(1) by (simp add: full_def channel_ready_def)
    then obtain q' e where "parse_and_push (tick k) (line_of l) q t = Done (None, q', RegisterPushed t)"
      "entries q' = entries q @ [e]" "describes e l" "channel_ready q'" "same_shape q q'"
      using parse_accepts_log [OF r(1) _ lo, of k t] by blast
    then show ?thesis
      using False by (intro exI [of _ q'] exI [of _ "RegisterPushed t"] exI [of _ "Some e"]) simp
  qed
  then obtain q' t' r where p: "parse_and_push (tick k) (line_of l) q t = Done (None, q', t')"
    and c: "case r of None \<Rightarrow> full q \<and> entries q' = entries q
       | Some e \<Rightarrow> \<not> full q \<and> entries q' = entries q @ [e] \<and> describes e l"
    and sh: "channel_ready q'" "same_shape q q'" by blast
  have k: "tail q' = tail q" "overflow q' = overflow q"
    "head_waiter q' \<longrightarrow> head_waiter q \<and> entries q' = entries q" using parse_keeps_tail [OF wf p] by simp_all
  have "parsed_into l r q q'" using c k(1,3) by (simp add: parsed_into_def)
  then show ?thesis using that [OF p] queue_good_shape [OF q sh k(2)] by blast
qed

text \<open>What the session has received and not yet parsed is cut into whole logs and the rest.\<close>

lemma stash_cut:
  assumes ok: "stream_ok tick avx2 ws logs m sz slab" and g: "session_good avx2 m sz p s" and ws: "ws = ws1 @ ws2"
    and st: "stash (stash_buffer s) @ rest = concat (map encode ws2)"
  shows "session_scan s = Wait \<and> incomplete (stash (stash_buffer s)) ws2 \<or>
    (\<exists>w ws' k. ws2 = w # ws' \<and> session_scan s = Deliver (payload_of w) k \<and> unat k = length (encode w) \<and>
       stash (stash_buffer s) = encode w @ drop (unat k) (stash (stash_buffer s)))"
proof -
  let ?st = "stash (stash_buffer s)"
  have wf: "session_wf s" and m: "unat (max_log_size s) = m" using g by (simp_all add: session_good_def)
  have fits: "\<forall>w \<in> set ws2. wire_fits m sz w" and m32: "m < 2 ^ 32" and szm: "sz \<le> m + 1024"
    using ok ws by (simp_all add: stream_ok_def)
  note sc = session_scan_spec [OF wf, unfolded m]
  obtain wsa wsb q where c: "ws2 = wsa @ wsb" "?st = concat (map encode wsa) @ q" "incomplete q wsb"
    using cut_stream [OF st] by blast
  show ?thesis
  proof (cases wsa)
    case Nil
    then have i: "incomplete ?st ws2" using c by simp
    then have "next_item m ?st = Wait" by (rule incomplete_waits(1) [OF m32 szm fits])
    then show ?thesis using i sc item_nat_cases(1) by metis
  next
    case (Cons w ws')
    then have e: "?st = encode w @ concat (map encode ws') @ q" using c(2) by simp
    have "wire_ok m w" using fits c(1) Cons by (simp add: wire_fits_def)
    from next_item_encode [OF this m32] have "next_item m ?st = Deliver (payload_of w) (length (encode w))"
      unfolding e .
    then obtain k where "session_scan s = Deliver (payload_of w) k" "unat k = length (encode w)"
      using sc item_nat_cases(3) by metis
    then show ?thesis using c(1) Cons e by (intro disjI2) (auto simp del: encode.simps)
  qed
qed

text \<open>A round that delivers: the next log is parsed and its bytes leave the ring.\<close>

lemma deliver_round:
  assumes ok: "stream_ok tick avx2 ws logs m sz slab" and g: "client_good avx2 ws m sz k x"
    and q: "queue_good slab cap (assigned_queue c)" and pc: "spc x = Parsing False"
    and w: "k < length ws" "session_scan (conn x) = Deliver (payload_of (ws ! k)) j"
      "unat j = length (encode (ws ! k))"
    and st: "stash (stash_buffer (conn x)) = encode (ws ! k) @ drop (unat j) (stash (stash_buffer (conn x)))"
  obtains s c' r where "loop_round tick (conn x, c) = Done ((s, c'), True)"
    and "client_good avx2 ws m sz (Suc k) (x\<lparr>conn := s\<rparr>)"
    and "parsed_into (logs ! k) r (assigned_queue c) (assigned_queue c')"
    and "queue_good slab cap (assigned_queue c')" and "parses c' = Suc (parses c)"
proof -
  let ?b = "stash_buffer (conn x)" and ?q = "assigned_queue c"
  have sg: "session_good avx2 m sz (Parsing False) (conn x)" using g pc by (simp add: client_good_def)
  then have simd: "simd_parser (conn x) = avx2" and rw: "ring_wf ?b"
    by (simp_all add: session_good_def session_wf_def)
  have maps: "map payload_of ws = map line_of logs"
    and logs: "\<forall>y \<in> set logs. log_ok tick slab y \<and> (avx2 \<longrightarrow> length (line_of y) < 64)"
    using ok by (simp_all add: stream_ok_def)
  have k: "k < length logs" using maps w(1) by (metis length_map)
  then have "log_ok tick slab (logs ! k)" and short: "avx2 \<longrightarrow> length (line_of (logs ! k)) < 64"
    using logs by simp_all
  from parse_one [OF q this(1), of "parses c" "telemetry c"] obtain q' t' r where
    p: "parse_and_push (tick (parses c)) (line_of (logs ! k)) ?q (telemetry c) = Done (None, q', t')"
    "parsed_into (logs ! k) r ?q q'" "queue_good slab cap q'" .
  have pay: "payload_of (ws ! k) = line_of (logs ! k)"
    using arg_cong [OF maps, of "\<lambda>l. l ! k"] k w(1) by simp
  let ?s = "(conn x)\<lparr>stash_buffer := consume j ?b\<rparr>"
    and ?c = "c\<lparr>assigned_queue := q', telemetry := t', parses := parses c + 1\<rparr>"
  have "loop_round tick (conn x, c) = Done ((?s, ?c), True)"
    using w(2) p(1) pay simd short
    by (cases avx2) (simp_all add: loop_round_def call_parser_def parse_and_push_simd_def simd_falls_back_def)
  moreover have "unat j \<le> length (stash ?b)" using arg_cong [OF st, of length] w(3) by simp
  then have b: "ring_wf (consume j ?b)" "stash (consume j ?b) = drop (unat j) (stash ?b)"
    using consume_stash(1,2) [OF rw] by simp_all
  have "session_good avx2 m sz (Parsing False) ?s"
    using sg b(1) by (simp add: session_good_def session_wf_def consume_def)
  moreover have "arrived x = concat (map encode (take (Suc k) ws)) @ stash (consume j ?b)"
    using g st w(1) b(2) by (simp add: client_good_def take_Suc_conv_app_nth)
  ultimately show ?thesis
    using that [of ?s ?c r] p(2,3) pc w(1) by (simp add: client_good_def)
qed

lemma receive_good:
  assumes "session_good avx2 m sz (Waiting n) s" and "n = get_write_space (stash_buffer s)" and "length data \<le> unat n"
  shows "session_good avx2 m sz (Parsing False) (receive data s)"
    and "stash (stash_buffer (receive data s)) = stash (stash_buffer s) @ data"
proof -
  have rw: "ring_wf (stash_buffer s)" using assms(1) by (simp add: session_good_def session_wf_def)
  have room: "length data \<le> unat (get_write_space (stash_buffer s))" using assms(2,3) by simp
  let ?b = "commit_write (word_of_nat (length data)) (receive_bytes data (stash_buffer s))"
  have b: "ring_wf ?b" "stash ?b = stash (stash_buffer s) @ data"
    using receive_stash [OF rw room] by simp_all
  have "ring_size ?b = ring_size (stash_buffer s)"
    by (simp add: commit_write_def receive_bytes_def Let_def)
  then show "session_good avx2 m sz (Parsing False) (receive data s)"
    using b(1) assms(1) by (simp add: session_good_def session_wf_def receive_def)
  show "stash (stash_buffer (receive data s)) = stash (stash_buffer s) @ data"
    using b(2) by (simp add: receive_def)
qed

lemma handle_error_good:
  "session_good avx2 m sz p s \<Longrightarrow> session_good avx2 m sz Ended (handle_error ec s)"
  "stash_buffer (handle_error ec s) = stash_buffer s"
  by (simp_all add: session_good_def session_wf_def handle_error_def)

lemma header_start_good:
  assumes "stream_ok tick avx2 ws logs m sz slab" and "session_good avx2 m sz Header_start s"
    and "incomplete (stash (stash_buffer s)) (drop k ws)"
  shows "header_start s = Waiting (get_write_space (stash_buffer s))"
proof -
  have m: "m < 2 ^ 32" "sz \<le> m + 1024" "1024 \<le> sz" "\<forall>w \<in> set (drop k ws). wire_fits m sz w"
    using assms(1) by (auto simp: stream_ok_def dest: in_set_dropD)
  have rw: "ring_wf (stash_buffer s)" and sz: "unat (ring_size (stash_buffer s)) = sz"
    using assms(2) by (simp_all add: session_good_def session_wf_def)
  have "length (stash (stash_buffer s)) + 1024 \<le> sz"
    using incomplete_waits(2) [OF m(1,2,4) assms(3)] m(3) by (cases "stash (stash_buffer s) = []") simp_all
  then have "\<not> get_write_space (stash_buffer s) < 1024"
    using write_space_nat [OF rw] sz by (simp add: word_less_nat_alt)
  then show ?thesis by (simp add: header_start_def Let_def)
qed

text \<open>In the loop the session either finds an incomplete log or the next one.\<close>

lemma loop_cases:
  assumes ok: "stream_ok tick avx2 ws logs m sz slab" and g: "client_good avx2 ws m sz k x"
    and pc: "spc x = Parsing b" and rest: "arrived x @ rest = concat (map encode ws)"
  obtains (waits) "b = False" "loop_round tick (conn x, c) = Done ((conn x, c), False)"
      "incomplete (stash (stash_buffer (conn x))) (drop k ws)"
    | (delivers) j where "b = False" "k < length ws" "session_scan (conn x) = Deliver (payload_of (ws ! k)) j"
      "unat j = length (encode (ws ! k))"
      "stash (stash_buffer (conn x)) = encode (ws ! k) @ drop (unat j) (stash (stash_buffer (conn x)))"
proof -
  let ?st = "stash (stash_buffer (conn x))"
  have sg: "session_good avx2 m sz (spc x) (conn x)" and k: "k \<le> length ws" and b: "b = False"
    using g pc by (auto simp: client_good_def)
  have "concat (map encode (take k ws)) @ ?st @ rest =
      concat (map encode (take k ws)) @ concat (map encode (drop k ws))"
    using g rest by (simp add: client_good_def flip: concat_append map_append)
  then have "?st @ rest = concat (map encode (drop k ws))" by (simp only: same_append_eq)
  from stash_cut [OF ok sg append_take_drop_id [symmetric] this] show ?thesis
  proof (elim disjE exE conjE)
    assume "session_scan (conn x) = Wait" "incomplete ?st (drop k ws)"
    then show ?thesis using b by (intro waits) (simp_all add: loop_round_def)
  next
    fix w ws' j
    assume d: "drop k ws = w # ws'" "session_scan (conn x) = Deliver (payload_of w) j"
      "unat j = length (encode w)" "?st = encode w @ drop (unat j) ?st"
    then have k: "k < length ws" by (metis drop_all list.distinct(1) not_le_imp_less)
    then have w: "w = ws ! k" using d(1) by (metis Cons_nth_drop_Suc list.inject)
    show ?thesis by (rule delivers [OF b k d(2-4) [unfolded w]])
  qed
qed

text \<open>A round of the loop is never undefined and never spins.\<close>

lemma loop_round_defined:
  assumes "stream_ok tick avx2 ws logs m sz slab" and "client_good avx2 ws m sz k x"
    and "queue_good slab cap (assigned_queue c)"
    and "spc x = Parsing b" and "arrived x @ rest = concat (map encode ws)"
  shows "\<exists>r. loop_round tick (conn x, c) = Done r"
  using assms(1,2,4,5)
proof (cases rule: loop_cases [where c = c])
  case (delivers j)
  have pc: "spc x = Parsing False" using assms(4) delivers(1) by simp
  show ?thesis
    using deliver_round [OF assms(1-3) pc delivers(2-5)] by blast
qed blast

lemma sstep_good:
  assumes st: "sstep tick (x, c) (y, c')" and ok: "stream_ok tick avx2 ws logs m sz slab"
    and g: "client_good avx2 ws m sz k x" and q: "queue_good slab cap (assigned_queue c)"
    and rest: "arrived y @ rest = concat (map encode ws)"
  obtains (stays) "c' = c" "client_good avx2 ws m sz k y"
    | (parses) r where "k < length ws" "client_good avx2 ws m sz (Suc k) y"
      "parsed_into (logs ! k) r (assigned_queue c) (assigned_queue c')"
      "queue_good slab cap (assigned_queue c')" "parses c' = Suc (parses c)"
proof -
  have sg: "session_good avx2 m sz (spc x) (conn x)" and pg: "pc_good (spc x) (conn x) (drop k ws)"
    and at: "k \<le> length ws" "arrived x = concat (map encode (take k ws)) @ stash (stash_buffer (conn x))"
    using g by (simp_all add: client_good_def)
  from st show ?thesis
  proof (cases rule: sstep_elim)
    case header
    have "header_start (conn x) = Waiting (get_write_space (stash_buffer (conn x)))"
      using header_start_good [OF ok] sg pg header by simp
    then show ?thesis
      using header sg pg at by (intro stays) (simp_all add: client_good_def session_good_def)
  next
    case (arrive n data)
    have n: "n = get_write_space (stash_buffer (conn x))" using pg arrive by simp
    show ?thesis
      using arrive sg at receive_good [OF _ n, of avx2 m sz data] by (intro stays) (simp_all add: client_good_def)
  next
    case (read_error n ec)
    then show ?thesis
      using handle_error_good(1) [OF sg] handle_error_good(2) at by (intro stays) (simp_all add: client_good_def)
  next
    case (round b s)
    have rest': "arrived x @ rest = concat (map encode ws)" using rest round(1) by simp
    from ok g round(2) rest' show ?thesis
    proof (cases rule: loop_cases [where c = c])
      case (delivers j)
      have pc: "spc x = Parsing False" using round(2) delivers(1) by simp
      from deliver_round [OF ok g q pc delivers(2-5)] show ?thesis
        using parses [OF delivers(2)] round(1,3) by auto
    qed (use round(3) in simp)
  next
    case (exit b s s1 pc1)
    have rest': "arrived x @ rest = concat (map encode ws)" using rest exit(1) by simp
    from ok g exit(2) rest' show ?thesis
    proof (cases rule: loop_cases [where c = c])
      case waits
      then have "s1 = conn x" "pc1 = Header_start" "c' = c" using exit(3,4) by (simp_all add: loop_exit_def)
      then show ?thesis
        using exit(1,2) waits(3) sg at by (intro stays) (simp_all add: client_good_def session_good_def)
    next
      case (delivers j)
      have pc: "spc x = Parsing False" using exit(2) delivers(1) by simp
      from deliver_round [OF ok g q pc delivers(2-5)] show ?thesis using exit(3) by auto
    qed
  qed
qed

text \<open>Once everything has arrived and the session waits, everything has been parsed.\<close>

lemma all_parsed:
  assumes "client_good avx2 ws m sz k x" and "spc x = Waiting n" and "arrived x = concat (map encode ws)"
  shows "k = length ws"
proof (cases "drop k ws")
  case (Cons w ws')
  let ?st = "stash (stash_buffer (conn x))"
  obtain j where j: "j < length (encode w)" "?st = take j (encode w)"
    using assms(1,2) Cons by (auto simp: client_good_def)
  have "concat (map encode (take k ws)) @ ?st = concat (map encode (take k ws)) @ concat (map encode (drop k ws))"
    using assms(1,3) by (simp add: client_good_def flip: concat_append map_append)
  then have "?st = encode w @ concat (map encode ws')" using Cons by simp
  then have "length (take j (encode w)) = length (encode w @ concat (map encode ws'))" using j(2) by simp
  then show ?thesis using j(1) by simp
qed (use assms(1) in \<open>simp add: client_good_def\<close>)

text \<open>A session fresh from its constructor.\<close>

lemma new_header_start:
  assumes "session_wf s" and "stash (stash_buffer s) = []" and "1024 \<le> unat (ring_size (stash_buffer s))"
  shows "header_start s = Waiting (get_write_space (stash_buffer s))"
    and "unat (get_write_space (stash_buffer s)) = unat (ring_size (stash_buffer s))"
proof -
  have rw: "ring_wf (stash_buffer s)" using assms(1) by (simp add: session_wf_def)
  show sp: "unat (get_write_space (stash_buffer s)) = unat (ring_size (stash_buffer s))"
    using write_space_nat [OF rw] assms(2) by simp
  then have "\<not> get_write_space (stash_buffer s) < 1024" using assms(3) by (simp add: word_less_nat_alt)
  then show "header_start s = Waiting (get_write_space (stash_buffer s))"
    by (simp add: header_start_def Let_def)
qed

lemma new_client_good:
  assumes "session_wf s" and "simd_parser s = avx2" and "stash (stash_buffer s) = []" and "\<not> is_closing s"
    and "unat (max_log_size s) = m" and "unat (ring_size (stash_buffer s)) = sz" and "1024 \<le> sz"
  shows "client_good avx2 ws m sz 0 \<lparr>conn = s, spc = header_start s, arrived = []\<rparr>"
proof -
  have "header_start s = Waiting (get_write_space (stash_buffer s))"
    using new_header_start(1) assms by simp
  moreover have "incomplete [] ws" by (cases ws) auto
  ultimately show ?thesis using assms by (simp add: client_good_def session_good_def)
qed

end
