(* ===== verification/Engine_System.thy ===== *)
theory Engine_System
  imports Session_Steps Thread_Manager
begin

text \<open>
  The running engine: the acceptor, all connections on the two network threads, the consumer
  thread of every queue, the telemetry thread and the thread that stops the engine, interleaved.
  It starts in the state \<open>ThreadManager\<close> builds from a configuration.
\<close>

section \<open>State\<close>

text \<open>
  A channel is a queue with its consumer thread and the number of calls of the parser on it.
  \<open>outcomes\<close> records, for each parsed log, the connection it came from and the entry that was
  queued for it, \<open>None\<close> if the queue dropped it.
\<close>

record Channel =
  queue :: LogQueue
  turns :: nat
  worker :: Consumer
  outcomes :: "(nat \<times> LogEntry option) list"

record Engine =
  net :: LogServer
  clients :: "Client list"
  channels :: "Channel list"
  counters :: Telemetry

definition new_channel :: "LogQueue \<Rightarrow> Channel" where
  "new_channel q = \<lparr>queue = q, turns = 0, worker = consumer_init, outcomes = []\<rparr>"

definition engine_start :: "Manager \<Rightarrow> Engine" where
  "engine_start m =
     \<lparr>net = server m, clients = [], channels = map new_channel (all_queues m), counters = Telemetry_init\<rparr>"

text \<open>What a session sees of its channel, and what its step leaves there.\<close>

definition link :: "Telemetry \<Rightarrow> Channel \<Rightarrow> Shared" where
  "link t ch = \<lparr>assigned_queue = queue ch, telemetry = t, parses = turns ch\<rparr>"

definition new_outcome :: "LogQueue \<Rightarrow> LogQueue \<Rightarrow> LogEntry option" where
  "new_outcome q q' = (if length (entries q) < length (entries q') then Some (last (entries q')) else None)"

definition put_link :: "nat \<Rightarrow> Shared \<Rightarrow> Channel \<Rightarrow> Channel" where
  "put_link j c ch =
     ch\<lparr>queue := assigned_queue c, turns := parses c,
        outcomes := outcomes ch @
          (if parses c = turns ch then [] else [(j, new_outcome (queue ch) (assigned_queue c))])\<rparr>"

abbreviation queue_of :: "Engine \<Rightarrow> nat \<Rightarrow> nat" where
  "queue_of x j \<equiv> on_queue (connections (net x) ! j)"

section \<open>Steps\<close>

text \<open>
  One thread runs each context: a session can move only when no other session of its context is in
  the middle of a handler.
\<close>

fun resting :: "session_pc \<Rightarrow> bool" where
  "resting (Waiting n) = True"
| "resting Ended = True"
| "resting Header_start = False"
| "resting (Parsing b) = False"

definition thread_free :: "Engine \<Rightarrow> nat \<Rightarrow> bool" where
  "thread_free x j \<longleftrightarrow>
     (\<forall>k < length (clients x). k \<noteq> j \<and>
        on_context (connections (net x) ! k) = on_context (connections (net x) ! j) \<longrightarrow>
        resting (spc (clients x ! k)))"

text \<open>
  An accepted connection starts its first read inside the accept handler. A session, a consumer
  and the telemetry thread make a step of their own. \<open>stop_threads\<close> stops the server, whose
  network threads return when no connection has an operation left, and only then finishes the
  queues.
\<close>

inductive estep :: "(nat \<Rightarrow> nat \<Rightarrow> u64) \<Rightarrow> bool \<Rightarrow> Engine \<Rightarrow> Engine \<Rightarrow> bool" for tick avx2 where
  accept: "pending_accept (net x) \<noteq> None \<Longrightarrow> on_accept None (net x) = Done srv \<Longrightarrow>
    snd (NetworkSession_ctor w avx2 address (srv_log_size (net x))) = Done s \<Longrightarrow>
    estep tick avx2 x (x\<lparr>net := srv, clients := clients x @ [\<lparr>conn = s, spc = header_start s, arrived = []\<rparr>]\<rparr>)"
| accept_error: "on_accept (Some msg) (net x) = Done srv \<Longrightarrow> estep tick avx2 x (x\<lparr>net := srv\<rparr>)"
| session: "j < length (clients x) \<Longrightarrow> i = queue_of x j \<Longrightarrow> i < length (channels x) \<Longrightarrow> thread_free x j \<Longrightarrow>
    sstep (tick i) (clients x ! j, link (counters x) (channels x ! i)) (y, c) \<Longrightarrow>
    estep tick avx2 x (x\<lparr>clients := (clients x)[j := y],
      channels := (channels x)[i := put_link j c (channels x ! i)], counters := telemetry c\<rparr>)"
| consume: "i < length (channels x) \<Longrightarrow> ch = channels x ! i \<Longrightarrow>
    consumer_step (worker ch, queue ch, counters x) = Some (Done (w, q, t)) \<Longrightarrow>
    estep tick avx2 x (x\<lparr>channels := (channels x)[i := ch\<lparr>queue := q, worker := w\<rparr>], counters := t\<rparr>)"
| report: "estep tick avx2 x (x\<lparr>counters := snd (update_telemetry (counters x))\<rparr>)"
| spurious: "i < length (channels x) \<Longrightarrow> ch = channels x ! i \<Longrightarrow>
    estep tick avx2 x (x\<lparr>channels := (channels x)[i := ch\<lparr>queue := notify_head (queue ch)\<rparr>]\<rparr>)"
| stop_server: "estep tick avx2 x (x\<lparr>net := fst (stop (net x))\<rparr>)"
| finish: "pending_accept (net x) = None \<Longrightarrow> (\<And>y. y \<in> set (clients x) \<Longrightarrow> spc y = Ended) \<Longrightarrow>
    estep tick avx2 x (x\<lparr>channels := map (\<lambda>ch. ch\<lparr>queue := set_finished (queue ch)\<rparr>) (channels x)\<rparr>)"

abbreviation esteps :: "(nat \<Rightarrow> nat \<Rightarrow> u64) \<Rightarrow> bool \<Rightarrow> Engine \<Rightarrow> Engine \<Rightarrow> bool" where
  "esteps tick avx2 \<equiv> (estep tick avx2)\<^sup>*\<^sup>*"

section \<open>Channels\<close>

text \<open>The entries of the outcomes, and the outcomes of one connection.\<close>

definition stored_in :: "Channel \<Rightarrow> LogEntry list" where
  "stored_in ch = List.map_filter snd (outcomes ch)"

definition outcomes_of :: "nat \<Rightarrow> Channel \<Rightarrow> LogEntry option list" where
  "outcomes_of j ch = map snd (filter (\<lambda>o1. fst o1 = j) (outcomes ch))"

definition channel_good :: "nat \<Rightarrow> nat \<Rightarrow> Channel \<Rightarrow> bool" where
  "channel_good slab cap ch \<longleftrightarrow>
     winv (worker ch, queue ch, Telemetry_init, stored_in ch) \<and>
     (is_running (queue ch) \<longrightarrow> queue_good slab cap (queue ch)) \<and> capacity (queue ch) = cap \<and>
     (None \<in> snd ` set (outcomes ch) \<longrightarrow> cap < length (outcomes ch))"

lemma length_map_filter_le: "length (List.map_filter f xs) \<le> length xs"
  by (induction xs) (auto simp: map_filter_simps split: option.split)

lemma map_filter_all_Some: "None \<notin> f ` set xs \<Longrightarrow> length (List.map_filter f xs) = length xs"
  by (induction xs) (auto simp: map_filter_simps split: option.split)

lemma map_filter_append: "List.map_filter f (xs @ ys) = List.map_filter f xs @ List.map_filter f ys"
  by (simp add: map_filter_def)

lemma new_outcome_parsed: "parsed_into l r q q' \<Longrightarrow> new_outcome q q' = r"
  by (auto simp: parsed_into_def new_outcome_def split: option.splits)

lemma full_nonempty: "queue_wf q \<Longrightarrow> log_array q \<noteq> None \<Longrightarrow> full q \<Longrightarrow> entries q \<noteq> []"
proof -
  assume "queue_wf q" "log_array q \<noteq> None" "full q"
  then obtain arr n where "log_array q = Some arr" "ring_ok n arr q" by (blast elim: queue_wfE)
  moreover from this have "(2 :: nat) ^ 1 \<le> 2 ^ n" by (intro power_increasing) (simp_all add: ring_ok_def)
  ultimately have "capacity q \<noteq> 0" by (simp add: capacity_def ring_ok_def)
  then show "entries q \<noteq> []" using \<open>full q\<close> by (auto simp: full_def)
qed

lemma winv_parsed:
  assumes w: "winv (w, q, t, acc)" and p: "parsed_into l r q q'" and q': "queue_good slab cap q'"
    and run: "is_running q"
  shows "winv (w, q', t', acc @ List.map_filter snd [(j, r)])"
proof -
  have "queue_wf q'" "log_array q' \<noteq> None" "overflow q' = DropAll" "is_running q'"
    using q' by (simp_all add: queue_good_def channel_ready_def)
  then show ?thesis
    using w p run full_nonempty [of q]
    by (cases "pc w"; cases r) (auto simp: winv_def parsed_into_def map_filter_simps)
qed

lemma put_link_parsed:
  assumes "parsed_into l r (queue ch) (assigned_queue c)" and "parses c = Suc (turns ch)"
  shows "put_link j c ch =
    ch\<lparr>queue := assigned_queue c, turns := Suc (turns ch), outcomes := outcomes ch @ [(j, r)]\<rparr>"
  using new_outcome_parsed [OF assms(1)] assms(2) by (simp add: put_link_def)

lemma put_link_same: "put_link j (link t ch) ch = ch"
  by (simp add: put_link_def link_def)

lemma channel_good_parsed:
  assumes g: "channel_good slab cap ch" and run: "is_running (queue ch)"
    and p: "parsed_into l r (queue ch) q'" and q': "queue_good slab cap q'"
  shows "channel_good slab cap (ch\<lparr>queue := q', turns := n, outcomes := outcomes ch @ [(j, r)]\<rparr>)"
proof -
  have w: "winv (worker ch, queue ch, Telemetry_init, stored_in ch)" and cap: "capacity (queue ch) = cap"
    and lost: "None \<in> snd ` set (outcomes ch) \<longrightarrow> cap < length (outcomes ch)"
    using g by (simp_all add: channel_good_def)
  have "cap < Suc (length (outcomes ch))" if "r = None"
  proof -
    have "length (entries (queue ch)) = cap" using p that cap by (simp add: parsed_into_def full_def)
    moreover have "stored_in ch = processed (worker ch) @ entries (queue ch)" using w by (simp add: winv_def)
    ultimately show ?thesis using length_map_filter_le [of snd "outcomes ch"] by (simp add: stored_in_def)
  qed
  then show ?thesis
    using winv_parsed [OF w p q' run] q' lost
    by (auto simp: channel_good_def stored_in_def map_filter_append queue_good_def)
qed

lemma queue_of_waiter: "\<exists>b. q = (q :: LogQueue)\<lparr>head_waiter := b\<rparr>"
  by (rule exI [of _ "head_waiter q"]) simp

lemma channel_good_consumed:
  assumes g: "channel_good slab cap ch" and st: "consumer_step (worker ch, queue ch, t) = Some (Done (w, q, t'))"
  shows "channel_good slab cap (ch\<lparr>queue := q, worker := w\<rparr>)" and "is_running q = is_running (queue ch)"
proof -
  have "winv (worker ch, queue ch, t, stored_in ch)" using g by (simp add: channel_good_def winv_def)
  from winv_step [OF wstep.consume [OF st] this] have w: "winv (w, q, Telemetry_init, stored_in ch)"
    by (simp add: winv_def)
  have wf: "queue_wf (queue ch)" using g by (simp add: channel_good_def winv_def)
  have "(\<exists>b. q = queue ch\<lparr>head_waiter := b\<rparr>) \<or> (\<exists>e. pop (queue ch) t = Done (e, q, t'))"
    using st
    by (auto simp: consumer_step_def bind_out_Done_iff notify_head_def queue_of_waiter split: wpc.splits if_splits)
  then have "(\<exists>b. q = queue ch\<lparr>head_waiter := b\<rparr>) \<or> is_running (queue ch) \<and> entries (queue ch) \<noteq> [] \<and>
      (\<exists>e. pop (queue ch) t = Done (e, q, t'))"
    using pop_result [OF wf] queue_of_waiter [of "queue ch"] by (metis list.distinct(1))
  then have "(is_running (queue ch) \<longrightarrow> queue_good slab cap q) \<and> is_running q = is_running (queue ch) \<and>
      capacity q = cap"
  proof
    assume "is_running (queue ch) \<and> entries (queue ch) \<noteq> [] \<and> (\<exists>e. pop (queue ch) t = Done (e, q, t'))"
    then obtain e where r: "is_running (queue ch)" "entries (queue ch) \<noteq> []"
      and p: "pop (queue ch) t = Done (e, q, t')" by blast
    obtain z where "pop (queue ch) t = Done (Some (hd (entries (queue ch))), z, RegisterEliminated t)"
      "queue_wf z" "is_running z" "slab_pool z = slab_pool (queue ch)" "capacity z = capacity (queue ch)"
      "log_array z = log_array (queue ch)" "overflow z = overflow (queue ch)"
      using pop_spec [OF wf r, of t] by metis
    then show ?thesis using p r g by (simp add: channel_good_def queue_good_def channel_ready_def)
  qed (use g in \<open>auto simp: channel_good_def queue_good_def channel_ready_def\<close>)
  then show "channel_good slab cap (ch\<lparr>queue := q, worker := w\<rparr>)" "is_running q = is_running (queue ch)"
    using w g by (simp_all add: channel_good_def stored_in_def)
qed

lemma channel_good_finished:
  "channel_good slab cap ch \<Longrightarrow> channel_good slab cap (ch\<lparr>queue := set_finished (queue ch)\<rparr>)"
  using winv_step [OF wstep.finish, of "worker ch" "queue ch" Telemetry_init "stored_in ch"]
  by (simp add: channel_good_def stored_in_def capacity_def set_finished_def)

lemma channel_good_notified:
  "channel_good slab cap ch \<Longrightarrow> channel_good slab cap (ch\<lparr>queue := notify_head (queue ch)\<rparr>)"
  using winv_step [OF wstep.spurious, of "worker ch" "queue ch" Telemetry_init "stored_in ch"]
  by (simp add: channel_good_def stored_in_def queue_good_def channel_ready_def)

section \<open>The invariant\<close>

definition fate :: "LogEntry option \<Rightarrow> client_log \<Rightarrow> bool" where
  "fate r l = (case r of None \<Rightarrow> True | Some e \<Rightarrow> describes e l)"

definition client_at ::
  "bool \<Rightarrow> (nat \<Rightarrow> wire list) \<Rightarrow> (nat \<Rightarrow> client_log list) \<Rightarrow> nat \<Rightarrow> nat \<Rightarrow> Client \<Rightarrow> Channel \<Rightarrow> nat \<Rightarrow> bool" where
  "client_at avx2 ws logs m sz y ch j \<longleftrightarrow>
     client_good avx2 (ws j) m sz (length (outcomes_of j ch)) y \<and>
     list_all2 fate (outcomes_of j ch) (take (length (outcomes_of j ch)) (logs j))"

definition net_good :: "nat \<Rightarrow> size_t \<Rightarrow> LogServer \<Rightarrow> bool" where
  "net_good n limit s \<longleftrightarrow>
     ptr_queue s = [0..<n] \<and> srv_log_size s = limit \<and> (\<forall>c \<in> set (connections s). on_queue c < n) \<and>
     context_count s = 2 \<and> 2 \<le> n \<and> (\<forall>i. pending_accept s = Some i \<longrightarrow> i < 2)"

definition stopped_good :: "Engine \<Rightarrow> bool" where
  "stopped_good x \<longleftrightarrow>
     (\<forall>ch \<in> set (channels x). is_running (queue ch)) \<or>
     pending_accept (net x) = None \<and> (\<forall>y \<in> set (clients x). spc y = Ended)"

definition engine_good ::
  "bool \<Rightarrow> (nat \<Rightarrow> wire list) \<Rightarrow> (nat \<Rightarrow> client_log list) \<Rightarrow> size_t \<Rightarrow> nat \<Rightarrow> nat \<Rightarrow> nat \<Rightarrow> nat \<Rightarrow> Engine \<Rightarrow> bool" where
  "engine_good avx2 ws logs limit m sz slab cap x \<longleftrightarrow>
     net_good (length (channels x)) limit (net x) \<and> length (connections (net x)) = length (clients x) \<and>
     (\<forall>ch \<in> set (channels x). channel_good slab cap ch \<and> (\<forall>o1 \<in> set (outcomes ch). fst o1 < length (clients x))) \<and>
     (\<forall>j < length (clients x). client_at avx2 ws logs m sz (clients x ! j) (channels x ! queue_of x j) j) \<and>
     stopped_good x"

text \<open>What the clients send: streams of logs, of which a first part has arrived.\<close>

definition streams ::
  "(nat \<Rightarrow> nat \<Rightarrow> u64) \<Rightarrow> bool \<Rightarrow> (nat \<Rightarrow> wire list) \<Rightarrow> (nat \<Rightarrow> client_log list) \<Rightarrow> (nat \<Rightarrow> bytes) \<Rightarrow>
   nat \<Rightarrow> nat \<Rightarrow> nat \<Rightarrow> Engine \<Rightarrow> bool" where
  "streams tick avx2 ws logs rest m sz slab x \<longleftrightarrow>
     (\<forall>j < length (clients x). arrived (clients x ! j) @ rest j = concat (map encode (ws j)) \<and>
        (\<forall>i. stream_ok (tick i) avx2 (ws j) (logs j) m sz slab))"

lemma queue_of_less:
  "engine_good avx2 ws logs limit m sz slab cap x \<Longrightarrow> j < length (clients x) \<Longrightarrow> queue_of x j < length (channels x)"
  by (auto simp: engine_good_def net_good_def)

lemma outcomes_of_append:
  "outcomes_of k (ch\<lparr>queue := q, turns := n, outcomes := outcomes ch @ [(j, r)]\<rparr>) =
     outcomes_of k ch @ (if k = j then [r] else [])"
  by (simp add: outcomes_of_def)

lemma outcomes_of_frame [simp]:
  "outcomes_of j (ch\<lparr>queue := q\<rparr>) = outcomes_of j ch" "outcomes_of j (ch\<lparr>worker := w\<rparr>) = outcomes_of j ch"
  by (simp_all add: outcomes_of_def)

lemma sstep_not_ended: "sstep tick (y, c) (y', c') \<Longrightarrow> spc y \<noteq> Ended"
  by (auto elim: sstep_elim)

section \<open>Every step keeps the invariant\<close>

lemma streams_before:
  assumes "streams tick avx2 ws logs rest m sz slab y" and "length (clients x) \<le> length (clients y)"
    and "\<forall>j < length (clients x). \<exists>d. arrived (clients y ! j) = arrived (clients x ! j) @ d"
  obtains rest' where "streams tick avx2 ws logs rest' m sz slab x"
proof -
  obtain d where d: "\<forall>j < length (clients x). arrived (clients y ! j) = arrived (clients x ! j) @ d j"
    using assms(3) by metis
  have "streams tick avx2 ws logs (\<lambda>j. d j @ rest j) m sz slab x"
    using assms(1,2) d unfolding streams_def by (metis append.assoc order_less_le_trans)
  then show ?thesis using that by blast
qed

lemma estep_past:
  assumes "estep tick avx2 x z"
  shows "length (clients x) \<le> length (clients z)"
    and "\<forall>j < length (clients x). \<exists>d. arrived (clients z ! j) = arrived (clients x ! j) @ d"
proof -
  have "length (clients x) \<le> length (clients z) \<and>
      (\<forall>j < length (clients x). \<exists>d. arrived (clients z ! j) = arrived (clients x ! j) @ d)"
    using assms
  proof cases
    case (session j i y c)
    then show ?thesis using sstep_past(1) by (auto simp: nth_list_update)
  qed (auto simp: nth_append)
  then show "length (clients x) \<le> length (clients z)"
    and "\<forall>j < length (clients x). \<exists>d. arrived (clients z ! j) = arrived (clients x ! j) @ d" by simp_all
qed

lemma less_two_context: "unat (i mod 2 :: size_t) < 2"
  by (simp add: unat_mod)

lemma accepted_good:
  assumes g: "engine_good avx2 ws logs limit m sz slab cap x" and p: "pending_accept (net x) \<noteq> None"
    and a: "on_accept None (net x) = Done srv"
    and c: "client_good avx2 (ws (length (clients x))) m sz 0 y"
  shows "engine_good avx2 ws logs limit m sz slab cap (x\<lparr>net := srv, clients := clients x @ [y]\<rparr>)"
proof -
  let ?n = "length (clients x)" and ?x = "x\<lparr>net := srv, clients := clients x @ [y]\<rparr>"
  obtain w where w: "pending_accept (net x) = Some w" "w < length (ptr_queue (net x))"
    and srv: "srv = start_accept ((net x)\<lparr>connections := connections (net x) @
      [\<lparr>on_context = w, on_queue = ptr_queue (net x) ! w, open_socket = True\<rparr>]\<rparr>)"
    using p a by (auto simp: on_accept_def split: if_splits)
  have q: "ptr_queue (net x) = [0..<length (channels x)]" and len: "length (connections (net x)) = ?n"
    using g by (simp_all add: engine_good_def net_good_def)
  have new: "connections srv = connections (net x) @
      [\<lparr>on_context = w, on_queue = w, open_socket = True\<rparr>]"
    using srv w(2) q by simp
  have two: "context_count (net x) = 2" using g by (simp add: engine_good_def net_good_def)
  have "srv_log_size srv = srv_log_size (net x)" "ptr_queue srv = ptr_queue (net x)"
    "context_count srv = 2" "\<forall>i. pending_accept srv = Some i \<longrightarrow> i < 2"
    using two by (simp_all add: srv start_accept_def Let_def less_two_context)
  then have net: "net_good (length (channels x)) limit srv" and w': "w < length (channels x)"
    using g w(2) q new by (auto simp: engine_good_def net_good_def)
  have old: "queue_of ?x j = queue_of x j" if "j < ?n" for j
    using that len by (simp add: new nth_append)
  have "\<forall>o1 \<in> set (outcomes (channels x ! w)). fst o1 < ?n"
    using g nth_mem [OF w'] by (simp add: engine_good_def)
  then have "outcomes_of ?n (channels x ! w) = []" by (auto simp: outcomes_of_def filter_empty_conv)
  then have "client_at avx2 ws logs m sz (clients ?x ! j) (channels x ! queue_of ?x j) j" if "j < Suc ?n" for j
    using that g c old [of j] len new
    by (cases "j = ?n") (auto simp: engine_good_def client_at_def nth_append)
  moreover have "\<forall>ch \<in> set (channels x). is_running (queue ch)"
    using g p by (auto simp: engine_good_def stopped_good_def)
  ultimately show ?thesis
    using g net len new by (auto simp: engine_good_def stopped_good_def less_Suc_eq)
qed

text \<open>A step of a session: the client and its channel change together.\<close>

lemma session_good_step:
  assumes g: "engine_good avx2 ws logs limit m sz slab cap x" and j: "j < length (clients x)"
    and ok: "stream_ok (tick i) avx2 (ws j) (logs j) m sz slab" and i: "i = queue_of x j"
    and st: "sstep (tick i) (clients x ! j, link (counters x) (channels x ! i)) (y, c)"
    and rest: "arrived y @ rest = concat (map encode (ws j))"
  shows "engine_good avx2 ws logs limit m sz slab cap (x\<lparr>clients := (clients x)[j := y],
    channels := (channels x)[i := put_link j c (channels x ! i)], counters := telemetry c\<rparr>)"
    (is "engine_good _ _ _ _ _ _ _ _ ?x")
proof -
  let ?ch = "channels x ! i" and ?k = "length (outcomes_of j (channels x ! i))"
  have il: "i < length (channels x)" using queue_of_less [OF g j] i by simp
  have cg: "channel_good slab cap ?ch" and own: "\<forall>o1 \<in> set (outcomes ?ch). fst o1 < length (clients x)"
    using g nth_mem [OF il] by (simp_all add: engine_good_def)
  have run: "is_running (queue ?ch)"
    using g sstep_not_ended [OF st] nth_mem [OF il] nth_mem [OF j] by (auto simp: engine_good_def stopped_good_def)
  have at: "client_at avx2 ws logs m sz (clients x ! j) ?ch j"
    using g j i by (simp add: engine_good_def)
  then have cl: "client_good avx2 (ws j) m sz ?k (clients x ! j)"
    and fa: "list_all2 fate (outcomes_of j ?ch) (take ?k (logs j))" by (simp_all add: client_at_def)
  have qg: "queue_good slab cap (assigned_queue (link (counters x) ?ch))"
    using cg run by (simp add: channel_good_def link_def)
  obtain ch' where ch': "put_link j c ?ch = ch'" "channel_good slab cap ch'"
      "\<forall>o1 \<in> set (outcomes ch'). fst o1 < length (clients x)" "is_running (queue ch')"
    and mine: "client_at avx2 ws logs m sz y ch' j" and others: "\<And>n. n \<noteq> j \<Longrightarrow> outcomes_of n ch' = outcomes_of n ?ch"
    using st ok cl qg rest
  proof (cases rule: sstep_good)
    case stays
    then show thesis using that [of ?ch] cg own run fa by (simp add: put_link_same client_at_def)
  next
    case (parses r)
    have p: "parsed_into (logs j ! ?k) r (queue ?ch) (assigned_queue c)"
      using parses(3) by (simp add: link_def)
    have pl: "put_link j c ?ch = ?ch\<lparr>queue := assigned_queue c, turns := Suc (turns ?ch),
        outcomes := outcomes ?ch @ [(j, r)]\<rparr>"
      using put_link_parsed [OF p] parses(5) by (simp add: link_def)
    have "length (logs j) = length (ws j)" using ok by (metis length_map stream_ok_def)
    then have k: "?k < length (logs j)" using parses(1) by simp
    have "fate r (logs j ! ?k)" using p by (simp add: parsed_into_def fate_def split: option.splits)
    then have "list_all2 fate (outcomes_of j ?ch @ [r]) (take (Suc ?k) (logs j))"
      using fa k by (simp add: take_Suc_conv_app_nth list_all2_appendI)
    then show thesis
      using that [OF pl] channel_good_parsed [OF cg run p parses(4), of j "Suc (turns ?ch)"] own j parses(2,4)
      by (simp add: outcomes_of_append client_at_def queue_good_def channel_ready_def)
  qed
  have "client_at avx2 ws logs m sz (clients ?x ! n) (channels ?x ! queue_of ?x n) n" if "n < length (clients x)" for n
    using g that mine others i il j ch'(1)
    by (cases "n = j"; cases "queue_of x n = i") (auto simp: engine_good_def client_at_def)
  moreover have "\<forall>ch \<in> set (channels ?x). channel_good slab cap ch \<and> (\<forall>o1 \<in> set (outcomes ch). fst o1 < length (clients x))"
    using g ch' by (auto simp: engine_good_def dest!: set_update_subset_insert [THEN subsetD])
  moreover have "\<forall>ch \<in> set (channels ?x). is_running (queue ch)"
    using g ch' sstep_not_ended [OF st] nth_mem [OF j]
    by (auto simp: engine_good_def stopped_good_def dest!: set_update_subset_insert [THEN subsetD])
  ultimately show ?thesis
    using g by (simp add: engine_good_def stopped_good_def)
qed

lemma consumed_good:
  assumes g: "engine_good avx2 ws logs limit m sz slab cap x" and i: "i < length (channels x)"
    and st: "consumer_step (worker (channels x ! i), queue (channels x ! i), counters x) = Some (Done (w, q, t))"
  shows "engine_good avx2 ws logs limit m sz slab cap (x\<lparr>channels := (channels x)[i :=
    (channels x ! i)\<lparr>queue := q, worker := w\<rparr>], counters := t\<rparr>)"
    (is "engine_good _ _ _ _ _ _ _ _ (x\<lparr>channels := ?chs, counters := t\<rparr>)")
proof -
  let ?ch = "channels x ! i"
  have cg: "channel_good slab cap ?ch" and own: "\<forall>o1 \<in> set (outcomes ?ch). fst o1 < length (clients x)"
    using g nth_mem [OF i] by (simp_all add: engine_good_def)
  note c = channel_good_consumed [OF cg st]
  have "\<forall>ch \<in> set ?chs. channel_good slab cap ch \<and> (\<forall>o1 \<in> set (outcomes ch). fst o1 < length (clients x))"
    using g c(1) own by (auto simp: engine_good_def dest!: set_update_subset_insert [THEN subsetD])
  moreover have "(\<forall>ch \<in> set ?chs. is_running (queue ch)) \<or>
      pending_accept (net x) = None \<and> (\<forall>y \<in> set (clients x). spc y = Ended)"
    using g c(2) nth_mem [OF i]
    by (auto simp: engine_good_def stopped_good_def dest!: set_update_subset_insert [THEN subsetD])
  moreover have "client_at avx2 ws logs m sz (clients x ! j) (?chs ! queue_of x j) j" if "j < length (clients x)" for j
  proof -
    have "client_at avx2 ws logs m sz (clients x ! j) (channels x ! queue_of x j) j"
      using g that by (simp add: engine_good_def)
    then show ?thesis using i by (cases "queue_of x j = i") (simp_all add: client_at_def)
  qed
  ultimately show ?thesis using g by (simp add: engine_good_def stopped_good_def)
qed

text \<open>Steps that leave the connections alone.\<close>

lemma engine_good_net:
  assumes "engine_good avx2 ws logs limit m sz slab cap x" and "connections srv = connections (net x)"
    and "ptr_queue srv = ptr_queue (net x)" and "srv_log_size srv = srv_log_size (net x)"
    and "pending_accept (net x) = None \<Longrightarrow> pending_accept srv = None"
    and "context_count srv = context_count (net x)"
    and "context_count (net x) = 2 \<Longrightarrow> pending_accept srv = pending_accept (net x) \<or> (\<forall>i. pending_accept srv = Some i \<longrightarrow> i < 2)"
  shows "engine_good avx2 ws logs limit m sz slab cap (x\<lparr>net := srv\<rparr>)"
proof -
  have "\<forall>i. pending_accept srv = Some i \<longrightarrow> i < 2" "context_count srv = 2"
    using assms(1,6,7) by (auto simp: engine_good_def net_good_def)
  then show ?thesis using assms(1-5) by (auto simp: engine_good_def net_good_def stopped_good_def)
qed

lemma notified_good:
  assumes g: "engine_good avx2 ws logs limit m sz slab cap x" and i: "i < length (channels x)"
  shows "engine_good avx2 ws logs limit m sz slab cap (x\<lparr>channels := (channels x)[i :=
    (channels x ! i)\<lparr>queue := notify_head (queue (channels x ! i))\<rparr>]\<rparr>)"
    (is "engine_good _ _ _ _ _ _ _ _ (x\<lparr>channels := ?chs\<rparr>)")
proof -
  have old: "ch \<in> set (channels x) \<or> (\<exists>ch' \<in> set (channels x). ch = ch'\<lparr>queue := notify_head (queue ch')\<rparr>)"
    if "ch \<in> set ?chs" for ch
    using that nth_mem [OF i] by (auto dest!: set_update_subset_insert [THEN subsetD])
  have "\<forall>ch \<in> set ?chs. channel_good slab cap ch \<and> (\<forall>o1 \<in> set (outcomes ch). fst o1 < length (clients x))"
    using g channel_good_notified by (fastforce simp: engine_good_def dest!: old)
  moreover have "(\<forall>ch \<in> set ?chs. is_running (queue ch)) \<or>
      pending_accept (net x) = None \<and> (\<forall>y \<in> set (clients x). spc y = Ended)"
    using g by (auto simp: engine_good_def stopped_good_def dest!: old)
  moreover have "client_at avx2 ws logs m sz (clients x ! j) (?chs ! queue_of x j) j" if "j < length (clients x)" for j
  proof -
    have "client_at avx2 ws logs m sz (clients x ! j) (channels x ! queue_of x j) j"
      using g that by (simp add: engine_good_def)
    then show ?thesis using i by (cases "queue_of x j = i") (simp_all add: client_at_def)
  qed
  ultimately show ?thesis using g by (simp add: engine_good_def stopped_good_def)
qed

lemma on_accept_error:
  assumes "on_accept (Some msg) s = Done s'"
  shows "connections s' = connections s" and "ptr_queue s' = ptr_queue s"
    and "srv_log_size s' = srv_log_size s" and "pending_accept s = None \<Longrightarrow> pending_accept s' = None"
    and "context_count s' = context_count s"
    and "context_count s = 2 \<Longrightarrow> pending_accept s' = pending_accept s \<or> (\<forall>i. pending_accept s' = Some i \<longrightarrow> i < 2)"
  using assms less_two_context by (auto simp: on_accept_def start_accept_def Let_def split: option.splits)

lemma stop_frame:
  "connections (fst (stop s)) = connections s" "ptr_queue (fst (stop s)) = ptr_queue s"
  "srv_log_size (fst (stop s)) = srv_log_size s" "pending_accept (fst (stop s)) = None"
  "context_count (fst (stop s)) = context_count s"
  by (simp_all add: stop_def Let_def)

lemma finished_good:
  assumes "engine_good avx2 ws logs limit m sz slab cap x" and "pending_accept (net x) = None"
    and "\<And>y. y \<in> set (clients x) \<Longrightarrow> spc y = Ended"
  shows "engine_good avx2 ws logs limit m sz slab cap
    (x\<lparr>channels := map (\<lambda>ch. ch\<lparr>queue := set_finished (queue ch)\<rparr>) (channels x)\<rparr>)"
proof -
  have "queue_of x j < length (channels x)" if "j < length (clients x)" for j
    using queue_of_less [OF assms(1) that] .
  then show ?thesis
    using assms channel_good_finished by (auto simp: engine_good_def stopped_good_def client_at_def)
qed

lemma estep_good:
  assumes st: "estep tick avx2 x y" and g: "engine_good avx2 ws logs limit m sz slab cap x"
    and str: "streams tick avx2 ws logs rest m sz slab y"
    and limit: "limit \<noteq> 0" "unat limit < 4096"
    and sz: "sz = bit_floor_nat (unat limit * 1048576)" "m = sz - 32" "1024 \<le> sz"
  shows "engine_good avx2 ws logs limit m sz slab cap y"
  using st
proof cases
  case (accept srv w address s)
  have lim: "srv_log_size (net x) = limit" using g by (simp add: engine_good_def net_good_def)
  then have "all_ok w" using session_ctor_fails [OF limit(2), of w avx2 address] accept(4) by auto
  from session_ctor_ok [OF limit(2,1) this, of avx2 address] accept(4) lim have
    "session_wf s" "stash (stash_buffer s) = []" "\<not> is_closing s" "simd_parser s = avx2"
    "unat (ring_size (stash_buffer s)) = sz" "unat (max_log_size s) = m"
    using sz(1,2) by (metis add_diff_cancel_right' outcome.inject)+
  then have "client_good avx2 (ws (length (clients x))) m sz 0 \<lparr>conn = s, spc = header_start s, arrived = []\<rparr>"
    using new_client_good sz(3) by blast
  from accepted_good [OF g accept(2,3) this] show ?thesis using accept(1) by simp
next
  case (accept_error msg srv)
  then show ?thesis using engine_good_net [OF g] on_accept_error by blast
next
  case (session j i z c)
  have "arrived z @ rest j = concat (map encode (ws j))" "stream_ok (tick i) avx2 (ws j) (logs j) m sz slab"
    using str session(1,2) by (auto simp: streams_def)
  from session_good_step [of avx2 ws logs limit m sz slab cap x j tick i, OF g session(2) this(2) session(3,6) this(1)] show ?thesis
    using session(1) by simp
next
  case (consume i ch w q t)
  then show ?thesis using consumed_good [OF g consume(2), of w q t] by simp
next
  case (spurious i ch)
  then show ?thesis using notified_good [OF g spurious(2)] by simp
next
  case report
  then show ?thesis using g by (simp add: engine_good_def stopped_good_def)
next
  case stop_server
  then show ?thesis using engine_good_net [OF g, of "fst (stop (net x))"] stop_frame [of "net x"] by simp
next
  case finish
  then show ?thesis using finished_good [OF g] by simp
qed

lemma esteps_good:
  assumes "esteps tick avx2 x y" and "engine_good avx2 ws logs limit m sz slab cap x"
    and "streams tick avx2 ws logs rest m sz slab y"
    and "limit \<noteq> 0" and "unat limit < 4096"
    and "sz = bit_floor_nat (unat limit * 1048576)" and "m = sz - 32" and "1024 \<le> sz"
  shows "engine_good avx2 ws logs limit m sz slab cap y"
  using assms(1,3)
proof (induction arbitrary: rest rule: rtranclp_induct)
  case base
  then show ?case using assms(2) by simp
next
  case (step y z)
  obtain rest' where "streams tick avx2 ws logs rest' m sz slab y"
    using streams_before [OF step.prems estep_past [OF step.hyps(2)]] .
  from step.IH [OF this] show ?case
    using estep_good [OF step.hyps(2) _ step.prems assms(4-8)] by simp
qed

text \<open>What the invariant says of a client and of a channel.\<close>

lemma engine_good_clients:
  assumes g: "engine_good avx2 ws logs limit m sz slab cap x" and str: "streams tick avx2 ws logs rest m sz slab x"
    and j: "j < length (clients x)"
  shows "let y = clients x ! j; ch = channels x ! queue_of x j; mine = outcomes_of j ch in
     length mine \<le> length (logs j) \<and> list_all2 fate mine (take (length mine) (logs j)) \<and>
     (rest j = [] \<and> spc y = Waiting n \<longrightarrow> length mine = length (logs j)) \<and>
     (spc y \<noteq> Ended \<longrightarrow> \<not> is_closing (conn y)) \<and>
     (spc y = Parsing b \<longrightarrow> (\<exists>r. loop_round (tick (queue_of x j)) (conn y, link (counters x) ch) = Done r))"
proof -
  let ?y = "clients x ! j" and ?ch = "channels x ! queue_of x j"
  have c: "client_good avx2 (ws j) m sz (length (outcomes_of j ?ch)) ?y"
    and f: "list_all2 fate (outcomes_of j ?ch) (take (length (outcomes_of j ?ch)) (logs j))"
    using g j by (simp_all add: engine_good_def client_at_def)
  have at: "arrived ?y @ rest j = concat (map encode (ws j))"
    and ok: "stream_ok (tick (queue_of x j)) avx2 (ws j) (logs j) m sz slab"
    using str j by (simp_all add: streams_def)
  have len: "length (logs j) = length (ws j)" using ok by (metis length_map stream_ok_def)
  have le: "length (outcomes_of j ?ch) \<le> length (logs j)" using c len by (simp add: client_good_def)
  have all: "length (outcomes_of j ?ch) = length (logs j)" if "rest j = []" "spc ?y = Waiting n"
    using all_parsed [OF c that(2)] at that(1) len by simp
  have opened: "\<not> is_closing (conn ?y)" if "spc ?y \<noteq> Ended"
    using c that by (simp add: client_good_def session_good_def)
  have "\<exists>r. loop_round (tick (queue_of x j)) (conn ?y, link (counters x) ?ch) = Done r" if p: "spc ?y = Parsing b"
  proof -
    have ch: "?ch \<in> set (channels x)" using queue_of_less [OF g j] by simp
    have "\<not> spc ?y = Ended" "?y \<in> set (clients x)" using p j by simp_all
    then have "is_running (queue ?ch)" using g ch by (auto simp: engine_good_def stopped_good_def)
    then have "queue_good slab cap (assigned_queue (link (counters x) ?ch))"
      using g ch by (simp add: engine_good_def channel_good_def link_def)
    from loop_round_defined [OF ok c this p at] show ?thesis .
  qed
  then show ?thesis using le f all opened by (simp add: Let_def)
qed

lemma engine_good_channels:
  assumes "engine_good avx2 ws logs limit m sz slab cap x" and "ch \<in> set (channels x)"
  shows "processed (worker ch) @ entries (queue ch) = stored_in ch"
    and "length (outcomes ch) \<le> cap \<Longrightarrow> length (stored_in ch) = length (outcomes ch)"
    and "is_running (queue ch) \<Longrightarrow> consumer_step (worker ch, queue ch, counters x) = None \<Longrightarrow> entries (queue ch) = []"
proof -
  have cg: "channel_good slab cap ch" using assms by (simp add: engine_good_def)
  then have w: "winv (worker ch, queue ch, counters x, stored_in ch)" by (simp add: channel_good_def winv_def)
  show "processed (worker ch) @ entries (queue ch) = stored_in ch" using w by (simp add: winv_def)
  show "length (stored_in ch) = length (outcomes ch)" if "length (outcomes ch) \<le> cap"
    using cg that map_filter_all_Some [of snd "outcomes ch"] by (auto simp: channel_good_def stored_in_def)
  show "entries (queue ch) = []"
    if "is_running (queue ch)" "consumer_step (worker ch, queue ch, counters x) = None"
    using winv_awake [OF w that(1)] that(2) by blast
qed

text \<open>No step of the engine is a call that is undefined, spins or ends the program.\<close>

lemma consumer_step_defined:
  assumes "queue_wf q" and "consumer_step (c, q, t) = Some r"
  shows "\<exists>z. r = Done z"
proof -
  obtain e q' t' where "pop q t = Done (e, q', t')" using pop_returns [OF assms(1)] by metis
  with assms(2) show ?thesis by (auto simp: consumer_step_def split: wpc.splits if_splits)
qed

lemma engine_good_defined:
  assumes g: "engine_good avx2 ws logs limit m sz slab cap x" and limit: "limit \<noteq> 0" "unat limit < 4096"
  shows "\<exists>srv. on_accept ec (net x) = Done srv"
    and "all_ok w \<Longrightarrow> \<exists>s. snd (NetworkSession_ctor w avx2 address (srv_log_size (net x))) = Done s"
    and "ch \<in> set (channels x) \<Longrightarrow> consumer_step (worker ch, queue ch, counters x) = Some r \<Longrightarrow> \<exists>z. r = Done z"
proof -
  have n: "srv_log_size (net x) = limit" "ptr_queue (net x) = [0..<length (channels x)]" "2 \<le> length (channels x)"
    "\<forall>i. pending_accept (net x) = Some i \<longrightarrow> i < 2"
    using g by (simp_all add: engine_good_def net_good_def)
  then show "\<exists>srv. on_accept ec (net x) = Done srv"
    by (fastforce simp: on_accept_def split: option.split)
  show "\<exists>s. snd (NetworkSession_ctor w avx2 address (srv_log_size (net x))) = Done s" if "all_ok w"
    using session_ctor_ok [OF limit(2,1) that, of avx2 address] n(1) by metis
  show "\<exists>z. r = Done z" if "ch \<in> set (channels x)" "consumer_step (worker ch, queue ch, counters x) = Some r"
    using g that consumer_step_defined by (fastforce simp: engine_good_def channel_good_def winv_def)
qed

text \<open>A handler run in one piece is a schedule of the engine.\<close>

lemma session_steps_lift:
  assumes "ssteps (tick i) (clients x ! j, link (counters x) (channels x ! i)) z"
    and "j < length (clients x)" and "i = queue_of x j" and "i < length (channels x)" and "thread_free x j"
  shows "\<exists>ch. esteps tick avx2 x (x\<lparr>clients := (clients x)[j := fst z], channels := (channels x)[i := ch],
      counters := telemetry (snd z)\<rparr>) \<and> link (telemetry (snd z)) ch = snd z"
  using assms(1)
proof (induction rule: rtranclp_induct)
  case base
  show ?case by (intro exI [of _ "channels x ! i"]) (simp add: link_def)
next
  case (step u v)
  obtain ch where ch: "esteps tick avx2 x (x\<lparr>clients := (clients x)[j := fst u], channels := (channels x)[i := ch],
      counters := telemetry (snd u)\<rparr>)" (is "esteps tick avx2 x ?u") and l: "link (telemetry (snd u)) ch = snd u"
    using step.IH by blast
  have "thread_free ?u j" using assms(5) by (simp add: thread_free_def)
  moreover have "sstep (tick i) (clients ?u ! j, link (counters ?u) (channels ?u ! i)) (fst v, snd v)"
    using step.hyps(2) l assms(2,4) by simp
  ultimately have "estep tick avx2 ?u (?u\<lparr>clients := (clients ?u)[j := fst v],
      channels := (channels ?u)[i := put_link j (snd v) (channels ?u ! i)], counters := telemetry (snd v)\<rparr>)"
    using assms(2-4) by (intro estep.session) simp_all
  then have "esteps tick avx2 x (x\<lparr>clients := (clients x)[j := fst v], channels := (channels x)[i := put_link j (snd v) ch],
      counters := telemetry (snd v)\<rparr>)"
    using ch assms(2,4) by (auto intro: rtranclp.rtrancl_into_rtrancl)
  moreover have "link (telemetry (snd v)) (put_link j (snd v) ch) = snd v"
    by (simp add: link_def put_link_def)
  ultimately show ?case by blast
qed

section \<open>From the configuration\<close>

text \<open>
  A configuration the engine can serve: the profile that drops, two queues or more, a log size
  below 4 GB, and at most 4095 MB of slabs. Its ring, its limit for a log, its slabs and its queue.
\<close>

definition engine_config :: "MainConfig \<Rightarrow> bool" where
  "engine_config cfg \<longleftrightarrow>
     profile cfg = DropAll \<and> 2 \<le> unat (thread_num cfg) \<and> unat (usable_ram cfg) \<le> 2 ^ 40 \<and>
     log_size cfg \<noteq> 0 \<and> unat (log_size cfg) < 4096 \<and>
     1 \<le> unat (cfg_max_slabs cfg) \<and> unat (slabs_size cfg) * unat (cfg_max_slabs cfg) < 4096"

definition ring_bytes :: "MainConfig \<Rightarrow> nat" where
  "ring_bytes cfg = bit_floor_nat (unat (log_size cfg) * 1048576)"

definition slab_bytes :: "MainConfig \<Rightarrow> nat" where
  "slab_bytes cfg = unat (slabs_size cfg) * 1048576"

definition queue_slots :: "MainConfig \<Rightarrow> nat" where
  "queue_slots cfg = bit_ceil_nat (raw_slots_of (clamp_config cfg)) - 1"

lemma ring_bytes_bounds:
  assumes "engine_config cfg"
  shows "1048576 \<le> ring_bytes cfg" and "ring_bytes cfg < 2 ^ 32"
proof -
  obtain k where "ring_bytes cfg = 2 ^ k" "20 \<le> k" "k < 32"
    using ring_size_word [of "log_size cfg"] assms by (auto simp: engine_config_def ring_bytes_def)
  moreover from this have "(2 :: nat) ^ 20 \<le> 2 ^ k" "(2 :: nat) ^ k < 2 ^ 32"
    by (intro power_increasing power_strict_increasing; simp)+
  ultimately show "1048576 \<le> ring_bytes cfg" "ring_bytes cfg < 2 ^ 32" by simp_all
qed

text \<open>What a client of this configuration may send.\<close>

definition client_stream :: "(nat \<Rightarrow> nat \<Rightarrow> u64) \<Rightarrow> bool \<Rightarrow> MainConfig \<Rightarrow> wire list \<Rightarrow> client_log list \<Rightarrow> bool" where
  "client_stream tick avx2 cfg ws logs \<longleftrightarrow>
     (\<forall>w \<in> set ws. wire_fits (ring_bytes cfg - 32) (ring_bytes cfg) w) \<and>
     map payload_of ws = map line_of logs \<and>
     (\<forall>l \<in> set logs. (\<forall>i. log_ok (tick i) (slab_bytes cfg) l) \<and> (avx2 \<longrightarrow> length (line_of l) < 64))"

lemma client_stream_ok:
  assumes "engine_config cfg" and "client_stream tick avx2 cfg ws logs"
  shows "stream_ok (tick i) avx2 ws logs (ring_bytes cfg - 32) (ring_bytes cfg) (slab_bytes cfg)"
  using assms(2) ring_bytes_bounds [OF assms(1)] by (simp add: client_stream_def stream_ok_def)

lemma new_channel_good:
  assumes "channel_ready q" and "overflow q = DropAll" and "entries q = []" and "capacity q = cap"
    and "unat (slab_size (slab_pool q)) = slab"
  shows "channel_good slab cap (new_channel q)"
  using assms
  by (simp add: channel_good_def new_channel_def stored_in_def map_filter_simps winv_def queue_good_def
      channel_ready_def consumer_init_def)

abbreviation built_engine ::
  "size_t \<Rightarrow> (nat \<Rightarrow> u64) \<Rightarrow> (nat \<Rightarrow> bool) \<Rightarrow> SharedMemory \<Rightarrow> int \<Rightarrow> MainConfig \<Rightarrow> Engine" where
  "built_engine uninit handles mapped mem0 seconds cfg \<equiv>
     engine_start (ThreadManager_ctor uninit handles mapped mem0 seconds (LogServer_ctor (log_size cfg)) cfg)"

lemma built_engine_facts:
  assumes "2 \<le> unat (thread_num cfg)" and x_def: "x = built_engine uninit handles mapped mem0 seconds cfg"
  shows "clients x = []" and "connections (net x) = []" and "length (channels x) = unat (thread_num cfg)"
    and "ptr_queue (net x) = [0..<unat (thread_num cfg)]" and "srv_log_size (net x) = log_size cfg"
    and "context_count (net x) = 2" and "pending_accept (net x) = Some 0"
    and "\<And>ch. ch \<in> set (channels x) \<Longrightarrow>
      \<exists>q \<in> set (make_queues uninit handles mapped mem0 (clamp_config cfg)). ch = new_channel q"
proof -
  have th: "thread_num cfg \<noteq> 0" using assms(1) by auto
  then show "clients x = []" "connections (net x) = []" "length (channels x) = unat (thread_num cfg)"
    "ptr_queue (net x) = [0..<unat (thread_num cfg)]" "srv_log_size (net x) = log_size cfg"
    "context_count (net x) = 2" "pending_accept (net x) = Some 0"
    by (simp_all add: x_def engine_start_def ThreadManager_ctor_def start_threads_def Let_def start_def
        make_queues_def LogServer_ctor_def start_accept_def)
  show "\<And>ch. ch \<in> set (channels x) \<Longrightarrow>
      \<exists>q \<in> set (make_queues uninit handles mapped mem0 (clamp_config cfg)). ch = new_channel q"
    by (auto simp: x_def engine_start_def ThreadManager_ctor_def start_threads_def Let_def)
qed

lemma built_channel:
  assumes cfg: "engine_config cfg" and shm: "\<forall>i. shm_ok (handles i) (mapped i)"
    and new: "ch \<in> set (channels (built_engine uninit handles mapped mem0 seconds cfg))"
  shows "channel_good (slab_bytes cfg) (queue_slots cfg) ch" and "outcomes ch = []"
    and "is_running (queue ch)" and "entries (queue ch) = []"
proof -
  let ?cfg = "clamp_config cfg"
  have th: "2 \<le> unat (thread_num cfg)" and ram: "unat (usable_ram cfg) \<le> 2 ^ 40"
    and slabs: "1 \<le> unat (cfg_max_slabs cfg)" "unat (slabs_size cfg) * unat (cfg_max_slabs cfg) < 4096"
    using cfg by (simp_all add: engine_config_def)
  obtain q where q: "q \<in> set (make_queues uninit handles mapped mem0 ?cfg)" "ch = new_channel q"
    using built_engine_facts(8) [OF th refl new] by blast
  from q(1) obtain i where i: "q = snd (LogQueue_ctor uninit (handles i) (mapped i) mem0 ?cfg (word_of_nat i))"
    by (rule make_queuesE)
  have s: "shm_ok (handles i) (mapped i)" using shm by blast
  note r = clamp_config_ram_bounds(1) [of cfg] clamp_config_ram_bounds(2) [OF ram]
  note c = LogQueue_ctor_ok [OF s r, of uninit mem0 "word_of_nat i", folded i]
  note d = LogQueue_ctor_ready [OF s r, of uninit mem0 "word_of_nat i", unfolded clamp_config_frame, OF slabs, folded i]
  have "overflow q = DropAll" using c(4) cfg by (simp add: engine_config_def)
  then have "channel_good (slab_bytes cfg) (queue_slots cfg) (new_channel q)"
    using c(2,5) d by (intro new_channel_good) (simp_all add: queue_slots_def slab_bytes_def)
  then show "channel_good (slab_bytes cfg) (queue_slots cfg) ch" "outcomes ch = []"
    "is_running (queue ch)" "entries (queue ch) = []"
    using q(2) c(2,3) by (simp_all add: new_channel_def)
qed

lemma built_engine_good:
  assumes cfg: "engine_config cfg" and shm: "\<forall>i. shm_ok (handles i) (mapped i)"
  shows "engine_good avx2 ws logs (log_size cfg) m sz (slab_bytes cfg) (queue_slots cfg)
    (built_engine uninit handles mapped mem0 seconds cfg)"
proof -
  have th: "2 \<le> unat (thread_num cfg)" using cfg by (simp add: engine_config_def)
  show ?thesis
    using built_engine_facts(1-7) [OF th refl, of uninit handles mapped mem0 seconds]
      built_channel(1-3) [OF cfg shm] th
    by (simp add: engine_good_def net_good_def stopped_good_def)
qed

section \<open>Properties\<close>

text \<open>
  C1. The engine delivers. The engine is started from a configuration it can serve
  (\<open>engine_config\<close>: the profile \<open>DropAll\<close>; at least two threads, since with one, the value shipped
  in \<open>config.json\<close>, the second connection is undefined, C29; sizes in the ranges given there), and
  all channels can be mapped. Every client sends logs the engine can take (\<open>client_stream\<close>):
  well-formed, with a timestamp inside the window at every reading of the clock, a message that fits
  a slab, leaving 1024 bytes of the ring free, and shorter than 64 bytes when AVX2 is used. Then,
  whatever the interleaving of the acceptor, the connections, the consumers, the reports and the
  stopping, in every state that is reached: a first part of each client's logs has been parsed, each
  once and in order, and each of these was given an entry in the connection's queue that describes
  it, or was dropped; no queue drops anything before it has been given more logs than it has slots;
  what a consumer has processed, followed by what is queued, is exactly these entries; a session is
  closed only by an error of its socket; once a client's whole stream has arrived and its session
  waits again, all its logs are parsed; a consumer that cannot move on a running queue has nothing to
  do. And no call is undefined, spins or ends the program: not the next round of a session that is
  parsing, not the next step of any consumer, not the handler of the next accept, nor the
  construction of a session when its ring can be mapped.
\<close>

theorem engine_delivers:
  assumes cfg: "engine_config cfg" and shm: "\<forall>i. shm_ok (handles i) (mapped i)"
    and run: "esteps tick avx2 (built_engine uninit handles mapped mem0 seconds cfg) x"
    and sent: "\<forall>j < length (clients x). client_stream tick avx2 cfg (ws j) (logs j) \<and>
      arrived (clients x ! j) @ rest j = concat (map encode (ws j))"
  shows "(\<forall>j < length (clients x).
       let y = clients x ! j; ch = channels x ! queue_of x j; mine = outcomes_of j ch in
         length mine \<le> length (logs j) \<and> list_all2 fate mine (take (length mine) (logs j)) \<and>
         (rest j = [] \<and> spc y = Waiting n \<longrightarrow> length mine = length (logs j)) \<and>
         (spc y \<noteq> Ended \<longrightarrow> \<not> is_closing (conn y)) \<and>
         (spc y = Parsing b \<longrightarrow> (\<exists>r. loop_round (tick (queue_of x j)) (conn y, link (counters x) ch) = Done r))) \<and>
     (\<forall>ch \<in> set (channels x).
       processed (worker ch) @ entries (queue ch) = stored_in ch \<and>
       (length (outcomes ch) \<le> queue_slots cfg \<longrightarrow> length (stored_in ch) = length (outcomes ch)) \<and>
       (is_running (queue ch) \<and> consumer_step (worker ch, queue ch, counters x) = None \<longrightarrow> entries (queue ch) = []) \<and>
       (\<forall>r. consumer_step (worker ch, queue ch, counters x) = Some r \<longrightarrow> (\<exists>z. r = Done z))) \<and>
     (\<forall>ec. \<exists>srv. on_accept ec (net x) = Done srv) \<and>
     (\<forall>w address. all_ok w \<longrightarrow> (\<exists>s. snd (NetworkSession_ctor w avx2 address (srv_log_size (net x))) = Done s))"
proof -
  let ?sz = "ring_bytes cfg" and ?m = "ring_bytes cfg - 32"
  have str: "streams tick avx2 ws logs rest ?m ?sz (slab_bytes cfg) x"
    using sent client_stream_ok [OF cfg] by (simp add: streams_def)
  have g: "engine_good avx2 ws logs (log_size cfg) ?m ?sz (slab_bytes cfg) (queue_slots cfg) x"
    using esteps_good [OF run built_engine_good [OF cfg shm] str] cfg ring_bytes_bounds [OF cfg]
    by (simp add: engine_config_def ring_bytes_def)
  have limit: "log_size cfg \<noteq> 0" "unat (log_size cfg) < 4096" using cfg by (simp_all add: engine_config_def)
  note defined = engine_good_defined [OF g limit]
  have "\<forall>ch \<in> set (channels x). \<forall>r. consumer_step (worker ch, queue ch, counters x) = Some r \<longrightarrow> (\<exists>z. r = Done z)"
    using defined(3) by blast
  moreover have "\<forall>ec. \<exists>srv. on_accept ec (net x) = Done srv" using defined(1) by blast
  moreover have "\<forall>w address. all_ok w \<longrightarrow> (\<exists>s. snd (NetworkSession_ctor w avx2 address (srv_log_size (net x))) = Done s)"
    using defined(2) by blast
  ultimately show ?thesis
    using engine_good_clients [OF g str] engine_good_channels [OF g] by (simp add: Let_def)
qed

text \<open>A client connects and sends one log.\<close>

definition two_queues :: MainConfig where
  "two_queues = default_config\<lparr>thread_num := 2\<rparr>"

lemma two_queues_config: "engine_config two_queues" "slab_bytes two_queues = 1048576"
  by (simp_all add: engine_config_def two_queues_def default_config_def slab_bytes_def)

lemma hi_stream: "client_stream (\<lambda>i k. 1000) False two_queues [Binary (line_of hi_log)] [hi_log]"
proof -
  have "\<forall>w \<in> set [Binary (line_of hi_log)]. wire_fits (ring_bytes two_queues - 32) (ring_bytes two_queues) w"
    using ring_bytes_bounds(1) [OF two_queues_config(1)] by (simp add: wire_fits_def hi_line magic_bytes_def)
  then show ?thesis
    by (simp add: client_stream_def two_queues_config(2) hi_log_def validateTimestamp_def block_need_def)
qed

lemma hi_read:
  assumes s: "session_wf s" "\<not> simd_parser s" "stash (stash_buffer s) = []"
    and sz: "unat (ring_size (stash_buffer s)) = ring_bytes two_queues"
    and m: "unat (max_log_size s) = ring_bytes two_queues - 32"
    and c: "queue_good (slab_bytes two_queues) cap (assigned_queue c)" "entries (assigned_queue c) = []"
  shows "\<exists>s' c' n. on_read (\<lambda>k. 1000) (Inr (encode (Binary (line_of hi_log)))) (s, c) = Done ((s', c'), Some n)"
proof -
  let ?w = "Binary (line_of hi_log)" and ?m = "unat (max_log_size s)" and ?q = "assigned_queue c"
  note b = ring_bytes_bounds [OF two_queues_config(1)]
  have ok: "\<forall>w \<in> set [?w]. wire_ok ?m w"
    using b m by (simp add: hi_line magic_bytes_def)
  have len: "length (encode ?w) = 18" by (simp add: hi_line magic_bytes_def)
  have "deframe ?m [] = ([], [], None)" using deframe_Wait [of ?m "[]"] by (simp add: next_item_def)
  then have "deframe ?m (encode ?w) = ([line_of hi_log], [], None)"
    using deframe_encoded [OF _ ok, of "[]"] m b(2) by (simp del: encode.simps)
  then have df: "deframe ?m (stash (stash_buffer s) @ encode ?w) = ([line_of hi_log], [], None)"
    using s(3) by simp
  have room: "length (encode ?w) \<le> unat (get_write_space (stash_buffer s))"
    using new_header_start(2) [OF s(1,3)] sz b len by simp
  have left: "length ([] :: bytes) + 1024 \<le> unat (ring_size (stash_buffer s))" using sz b by simp
  obtain r where r: "on_read (\<lambda>k. 1000) (Inr (encode ?w)) (s, c) =
       bind_out (deliver_all (\<lambda>k. 1000) [line_of hi_log] c) (\<lambda>(rs, c1).
         Done (((close_with rs s)\<lparr>stash_buffer := r\<rparr>, c1), Some (get_write_space r)))"
    using on_read_spec [OF s(1) _ room df left] s(2) by (auto simp: scalar_payloads_def)
  have cr: "channel_ready ?q" using c(1) by (simp add: queue_good_def)
  have "log_ok (\<lambda>k. 1000) (slab_bytes two_queues) hi_log" using hi_stream by (simp add: client_stream_def)
  then have "\<forall>l \<in> set [hi_log]. log_ok (\<lambda>k. 1000) (unat (slab_size (slab_pool ?q))) l"
    using c(1) by (simp add: queue_good_def)
  moreover have "length (entries ?q) + length [hi_log] \<le> capacity ?q"
  proof -
    have "capacity ?q \<noteq> 0" using full_nonempty [of ?q] c(2) cr by (auto simp: channel_ready_def full_def)
    then show ?thesis using c(2) by simp
  qed
  ultimately obtain c' where "deliver_all (\<lambda>k. 1000) (map line_of [hi_log]) c = Done ([], c')"
    using deliver_all_accepts [OF cr _ _ refl, of "[hi_log]" "\<lambda>k. 1000"] by blast
  then show ?thesis unfolding r by (simp del: deliver_all.simps)
qed

abbreviation hi_engine :: Engine where
  "hi_engine \<equiv> built_engine 0 (\<lambda>i. 1) (\<lambda>i. True) blank_memory 0 two_queues"

lemma hi_shm: "\<forall>i. shm_ok ((\<lambda>i. 1) i) ((\<lambda>i. True) i)"
  by (simp add: shm_ok_def INVALID_HANDLE_VALUE_def)

lemma hi_engine_start:
  "2 \<le> unat (thread_num two_queues)" "length (channels hi_engine) = 2" "log_size two_queues = 1"
  "\<exists>srv. on_accept None (net hi_engine) = Done srv \<and>
     connections srv = [\<lparr>on_context = 0, on_queue = 0, open_socket = True\<rparr>]"
  "pending_accept (net hi_engine) \<noteq> None"
proof -
  show th: "2 \<le> unat (thread_num two_queues)" and "log_size two_queues = 1"
    by (simp_all add: two_queues_def default_config_def)
  show "length (channels hi_engine) = 2"
    using built_engine_facts(3) [OF th refl] by (simp add: two_queues_def default_config_def)
  show "\<exists>srv. on_accept None (net hi_engine) = Done srv \<and>
      connections srv = [\<lparr>on_context = 0, on_queue = 0, open_socket = True\<rparr>]"
    "pending_accept (net hi_engine) \<noteq> None"
    by (simp_all add: engine_start_def ThreadManager_ctor_def start_threads_def Let_def start_def
        LogServer_ctor_def start_accept_def on_accept_def make_queues_def two_queues_def default_config_def
        clamp_config_def)
qed

lemma hi_session:
  obtains w s where "snd (NetworkSession_ctor w False 0 1) = Done s" and "session_wf s"
    and "stash (stash_buffer s) = []" and "\<not> is_closing s" and "\<not> simd_parser s"
    and "unat (ring_size (stash_buffer s)) = ring_bytes two_queues"
    and "unat (max_log_size s) = ring_bytes two_queues - 32"
proof -
  let ?ans = "\<lparr>reserve_ok = True, split_ok = True, section_ok = True, mapA_ok = True, mapB_ok = True\<rparr>"
  show thesis
  proof (rule session_ctor_ok [of 1 ?ans False 0])
    fix s assume "snd (NetworkSession_ctor ?ans False 0 1) = Done s" "session_wf s" "stash (stash_buffer s) = []"
      "\<not> is_closing s" "simd_parser s = False" "unat (ring_size (stash_buffer s)) = bit_floor_nat (unat (1 :: size_t) * 1048576)"
      "unat (max_log_size s) + 32 = unat (ring_size (stash_buffer s))"
    then show thesis using that [of ?ans s] hi_engine_start(3) by (simp add: ring_bytes_def)
  qed (simp_all add: all_ok_def)
qed

lemma hi_channel:
  defines "ch \<equiv> channels hi_engine ! 0"
  shows "queue_good (slab_bytes two_queues) (queue_slots two_queues) (queue ch)" and "entries (queue ch) = []"
    and "queue_slots two_queues \<noteq> 0"
proof -
  have "ch \<in> set (channels hi_engine)" using hi_engine_start(2) by (simp add: ch_def)
  note new = built_channel [OF two_queues_config(1) hi_shm this]
  show q: "queue_good (slab_bytes two_queues) (queue_slots two_queues) (queue ch)"
    using new(1,3) by (simp add: channel_good_def)
  show "entries (queue ch) = []" by (rule new(4))
  then show "queue_slots two_queues \<noteq> 0"
    using full_nonempty [of "queue ch"] q by (auto simp: queue_good_def channel_ready_def full_def)
qed

lemma hi_run:
  obtains x n where "esteps (\<lambda>i k. 1000) False hi_engine x" and "length (clients x) = 1"
    and "queue_of x 0 = 0" and "0 < length (channels x)" and "spc (clients x ! 0) = Waiting n"
    and "arrived (clients x ! 0) = encode (Binary (line_of hi_log))"
proof -
  let ?w = "Binary (line_of hi_log)" and ?tick = "\<lambda>i k. 1000 :: u64" and ?ch = "channels hi_engine ! 0"
  note b = ring_bytes_bounds [OF two_queues_config(1)] and f = built_engine_facts [OF hi_engine_start(1) refl [of hi_engine]]
  obtain w s where s: "snd (NetworkSession_ctor w False 0 1) = Done s" "session_wf s" "stash (stash_buffer s) = []"
    "\<not> is_closing s" "\<not> simd_parser s" "unat (ring_size (stash_buffer s)) = ring_bytes two_queues"
    "unat (max_log_size s) = ring_bytes two_queues - 32"
    using hi_session .
  obtain srv where srv: "on_accept None (net hi_engine) = Done srv"
    "connections srv = [\<lparr>on_context = 0, on_queue = 0, open_socket = True\<rparr>]"
    using hi_engine_start(4) by blast
  let ?c0 = "\<lparr>conn = s, spc = header_start s, arrived = []\<rparr>"
  let ?x1 = "hi_engine\<lparr>net := srv, clients := [?c0]\<rparr>"
  have e1: "estep ?tick False hi_engine ?x1"
    using estep.accept [OF hi_engine_start(5) srv(1), of w False 0 s ?tick] s(1) f(1,5) hi_engine_start(3) by simp
  obtain s' c' n where r: "on_read (\<lambda>k. 1000) (Inr (encode ?w)) (s, link (counters ?x1) ?ch) = Done ((s', c'), Some n)"
    using hi_read [OF s(2,5,3,6,7), of "queue_slots two_queues" "link (counters ?x1) ?ch"] hi_channel
    by (auto simp: link_def)
  have sp: "header_start s = Waiting (get_write_space (stash_buffer s))"
    "length (encode ?w) \<le> unat (get_write_space (stash_buffer s))"
    using new_header_start [OF s(2,3)] s(6) b by (simp_all add: hi_line magic_bytes_def)
  let ?c1 = "?c0\<lparr>arrived := encode ?w, conn := s', spc := Waiting n\<rparr>"
  have "ssteps (?tick 0) (?c0, link (counters ?x1) ?ch) (?c1, c')"
    using on_read_steps [OF r, of ?c0 "get_write_space (stash_buffer s)", OF _ _ encode_nonempty sp(2)] sp(1)
    by (simp del: encode.simps)
  moreover have "thread_free ?x1 0" by (simp add: thread_free_def)
  ultimately obtain ch' where run: "esteps ?tick False ?x1 (?x1\<lparr>clients := [?c1],
      channels := (channels ?x1)[0 := ch'], counters := telemetry c'\<rparr>)" (is "esteps _ _ _ ?x2")
    using session_steps_lift [of ?tick 0 ?x1 0 "(?c1, c')" False] srv(2) hi_engine_start(2) by auto
  have "esteps ?tick False hi_engine ?x2" using e1 run by (rule converse_rtranclp_into_rtranclp)
  then show thesis using that [of ?x2 n] srv(2) hi_engine_start(2) by simp
qed

theorem engine_delivers_witness:
  "\<exists>x e. esteps (\<lambda>i k. 1000) False hi_engine x \<and> length (clients x) = 1 \<and>
     processed (worker (channels x ! 0)) @ entries (queue (channels x ! 0)) = [e] \<and> describes e hi_log"
proof -
  let ?w = "Binary (line_of hi_log)" and ?tick = "\<lambda>i k. 1000 :: u64"
  note cfg = two_queues_config(1) and b = ring_bytes_bounds [OF two_queues_config(1)]
  obtain x n where steps: "esteps ?tick False hi_engine x" and x: "length (clients x) = 1" "queue_of x 0 = 0"
    "0 < length (channels x)" "spc (clients x ! 0) = Waiting n" "arrived (clients x ! 0) = encode ?w"
    using hi_run .
  let ?ch = "channels x ! 0"
  have ch: "?ch \<in> set (channels x)" using x(3) by simp
  have sent: "\<forall>j < length (clients x). client_stream ?tick False two_queues [?w] [hi_log] \<and>
      arrived (clients x ! j) @ [] = concat (map encode [?w])"
    using hi_stream x(1,5) by simp
  note del = engine_delivers [OF cfg hi_shm steps sent, of n]
  have "length (outcomes_of 0 ?ch) = 1" "list_all2 fate (outcomes_of 0 ?ch) (take 1 [hi_log])"
    using del x(1,2,4) by (auto simp: Let_def)
  moreover have "processed (worker ?ch) @ entries (queue ?ch) = stored_in ?ch"
    "length (outcomes ?ch) \<le> queue_slots two_queues \<longrightarrow> length (stored_in ?ch) = length (outcomes ?ch)"
    using del ch by auto
  moreover have str: "streams ?tick False (\<lambda>j. [?w]) (\<lambda>j. [hi_log]) (\<lambda>j. []) (ring_bytes two_queues - 32)
      (ring_bytes two_queues) (slab_bytes two_queues) x"
    using sent client_stream_ok [OF cfg hi_stream] by (simp add: streams_def)
  have "engine_good False (\<lambda>j. [?w]) (\<lambda>j. [hi_log]) (log_size two_queues) (ring_bytes two_queues - 32)
      (ring_bytes two_queues) (slab_bytes two_queues) (queue_slots two_queues) x"
    using esteps_good [OF steps built_engine_good [OF cfg hi_shm] str] cfg b
    by (simp add: engine_config_def ring_bytes_def)
  then have "\<forall>o1 \<in> set (outcomes ?ch). fst o1 = 0" using ch x(1) by (simp add: engine_good_def)
  then have o1: "outcomes_of 0 ?ch = map snd (outcomes ?ch)" by (simp add: outcomes_of_def)
  ultimately have d: "length (outcomes ?ch) = 1" "length (stored_in ?ch) = 1"
    "list_all2 fate (map snd (outcomes ?ch)) [hi_log]"
    "processed (worker ?ch) @ entries (queue ?ch) = stored_in ?ch"
    using hi_channel(3) by simp_all
  then obtain e where e: "stored_in ?ch = [e]" by (auto simp: length_Suc_conv)
  then have "describes e hi_log"
    using d by (auto simp: length_Suc_conv stored_in_def map_filter_simps fate_def split: option.splits)
  then show ?thesis using steps d(4) e x(1) by auto
qed

end
