(* ===== verification/Spec2Isabelle.thy ===== *)
theory Spec2Isabelle
  imports Log_Queue_RA Slab_Log User_Config_Spec Json_Termination Json_Language Engine_System
begin

text \<open>
  VortexEngine receives logs over TCP, checks them, stores them in slabs of shared memory for
  other processes, and queues a short entry for each in a ring that a thread of its own empties.
  This development models the engine's C++ code, from the bytes of \<open>config.json\<close> to the entries
  a consumer takes, and proves what each part and their composition guarantee. This theory only
  collects the others; the paths below are relative to the repository.

  The program. \<open>main\<close> reads a configuration (\<open>GetUserCofig\<close>) with the JSON library it carries and
  builds a \<open>ThreadManager\<close>, which clamps the values, makes one \<open>LogQueue\<close> for each thread (with a
  \<open>SlabPool\<close> of its own), starts the clock, telemetry and consumer threads, and runs the
  \<open>LogServer\<close>. The server gives connections in turn to two contexts; a connection is a
  \<open>NetworkSession\<close> that reads into a \<open>MagicRingBuffer\<close>, cuts it into frames or lines, parses each,
  writes it to the slab pool and pushes an entry.

  Base. \<open>Vortex_Prelude\<close>: names of the integer types, hints, the window of a circular array.
  \<open>Cpp_Std\<close> and \<open>Cpp_Text\<close>: what the code uses of the C++ library and the intrinsics
  (\<open>bit_floor\<close>, \<open>bit_ceil\<close>, \<open>byteswap\<close>, \<open>from_chars\<close>, \<open>memchr\<close>), and \<open>outcome\<close>: a call is done,
  spins for ever, has undefined behaviour, or terminates the program. \<open>Log_Types\<close>: the levels,
  profiles, entries, \<open>MainConfig\<close> and the two packed structures of
  \<open>shared/shared_memory_protocol.h\<close>. Machine integers are words of their width throughout.

  Engine. \<open>Telemetry_Model\<close>: \<open>engine/Telemetry\<close> and \<open>engine/Network/time\<close>. \<open>Slab_Pool\<close>: the class
  in \<open>engine/Network/include/LogServer.h\<close>; \<open>Slab_Log\<close> relates it to an unbounded log.
  \<open>Log_Queue\<close>: \<open>engine/Core\<close>, each operation one step; the field \<open>head_waiter\<close> is the thread
  blocked in \<open>head.wait\<close> that no \<open>head.notify_one\<close> has released yet. \<open>Log_Queue_Spec\<close> proves it a bounded FIFO
  (the contract of \<open>Queue_Interface\<close>) where it is one and what happens where it is not;
  \<open>Log_Queue_Conc\<close> splits \<open>push\<close> and \<open>pop\<close> at their accesses to shared variables and interleaves
  them, \<open>Log_Queue_RA\<close> does so under the C++ memory model, with stale loads and data races. The
  examples of a state there use a ring of two slots, smaller than the constructor builds; no step
  depends on the size. \<open>Magic_Ring\<close>, \<open>Frames\<close>, \<open>Network_Session\<close>, \<open>Log_Parser\<close> and \<open>Log_Server\<close>:
  the classes of \<open>engine/Network/src/LogServer.cpp\<close>; \<open>Log_Parser_Spec\<close> and \<open>Session_Spec\<close> what they promise, up to
  the path from a TCP stream to the queue. \<open>Thread_Manager\<close>: \<open>engine/ThreadManager\<close>, with the
  consumer thread as a step relation in which a consumer blocks in \<open>head.wait\<close> until it is notified
  or released spuriously. \<open>Session_Steps\<close> takes a session apart into the rounds
  of its loop and the completions of its socket; \<open>Engine_System\<close> composes the acceptor, all
  connections on the two network threads, the consumers, the reports and the stopping thread into
  one step relation, started from what \<open>ThreadManager\<close> builds from a configuration, and follows
  every log from the socket to the thread that processes it; in its relation a round of a session's
  loop, from the frame to the pushed entry, is one step, and \<open>Log_Queue_Conc\<close> is where \<open>push\<close> is
  taken apart. A call that is undefined has no step there; the theorem about the engine states that
  no reachable state meets such a call.

  Configuration (\<open>engine/VortexEngine/json/json.hpp\<close>, \<open>engine/VortexEngine/VortexEngine.cpp\<close>).
  \<open>Json_Input\<close>, \<open>Json_String\<close>, \<open>Json_Number\<close>, \<open>Json_Lexer\<close>: \<open>detail::lexer\<close>, one definition for
  each function and each label of \<open>scan_number\<close>. \<open>Json_Value\<close>: \<open>basic_json\<close> as far as the
  configuration needs it, with the exceptions. \<open>Json_Parser\<close>: \<open>detail::parser\<close> with the builder
  \<open>json_sax_dom_parser\<close>; the nesting is the stack of open containers, as in the code.
  \<open>Json_Dump\<close>: \<open>detail::serializer\<close>, compact and indented; \<open>Grisu\<close>: the printing of doubles,
  \<open>detail::dtoa_impl\<close> and \<open>detail::to_chars\<close>. \<open>Grisu_Scale\<close> relates the arithmetic on 64-bit significands
  to the reals, \<open>Grisu_Cached\<close> checks the table of powers of ten, \<open>Grisu_Digits\<close> the loops that make
  the digits, \<open>Grisu_Spec\<close> puts them together, and \<open>Float_Text\<close> goes on to the text and back through
  the parser; the serializer prints floats with it. \<open>Json_Grammar\<close> defines JSON texts independently;
  \<open>Json_Reader_Spec\<close> proves the reader complete for them, \<open>Json_Lexer_Sound\<close> and \<open>Json_Language\<close>
  that it accepts nothing else, \<open>Json_Dump_Spec\<close> that the serializer writes them, \<open>Json_Types\<close> that
  whatever is read is well formed, \<open>Json_Overflow\<close> that a number too large for a double is an
  exception wherever it stands, \<open>Json_Termination\<close> a bound for the loop. \<open>User_Config\<close> and \<open>User_Config_Spec\<close>: \<open>GetUserCofig\<close> and \<open>main\<close>.

  The lemmas. For each component: an invariant that every operation keeps (\<open>queue_wf\<close>, \<open>ring_wf\<close>,
  \<open>slab_wf\<close>, \<open>session_wf\<close>, well-formed values), the effect of each operation on an abstraction (the list of
  queued entries, the bytes in the stash, the positions of a log, the text still to be read), and
  what follows for runs of operations. The locales \<open>bounded_fifo\<close>, \<open>counted_fifo\<close>, \<open>byte_stream\<close>
  and \<open>bounded_alloc\<close> state what one component relies on in another; each is interpreted on the
  model of the code. Where the code does not do what it is meant to, the theorem
  states what it does: a push on a full queue with the \<open>Block\<close> profile empties the queue, a
  finished queue cannot be drained, ten slabs use two, an AVX2 line is undefined behaviour, an
  idle consumer cannot be stopped, a float that is too large ends the program.

  Loops. Each loop of the code is a total function. \<open>process_stash\<close> ends because every round
  but one consumes input; that one, a frame length for which \<open>8 + log_len\<close> wraps to zero, is the
  outcome \<open>Spins\<close>, as are the busy waits of \<open>push\<close>. The loops of the lexer decrease the bytes left,
  \<open>sax_parse_internal\<close> the bytes left and the open containers. The loop that rounds the last digit
  decreases the distance to the upper boundary, the loop over the fraction the low bits of the
  remainder that are not zero. No theorem rests on fuel:
  \<open>sax_rounds\<close> only serves to count the rounds of the parser, and two for each byte and two more are proved
  to be enough.

  Parameters. The Windows calls are answers given to the functions that make them; the clock is a
  function; the completions of the socket and the contents of the configuration file are
  arguments; the casts of floats to integers are functions. A float in a value
  is the text given to \<open>std::strtod\<close>; the reader decides whether it is finite, and the double that
  \<open>strtod\<close> makes of it is an argument of the serializer.

  Conditions that many theorems share. The profile \<open>DropAll\<close>: with the others the queue loses entries
  and has data races, which is proved. \<open>scalar_payloads\<close>: the session uses the scalar parser, or AVX2 with payloads
  shorter than 64 bytes, which are handed to the scalar parser; a longer well-formed line is
  undefined behaviour with AVX2. At least two threads, and a clock for which a timestamp is in the
  window at every reading.

  Not modelled. asio is third-party code: what the models assume of it is that a
  completion handler runs once with an error or the bytes received, in order, and that one thread
  runs each context. The memory orders of the atomics outside the queue: apart from
  \<open>Log_Queue_RA\<close> the interleavings are sequentially consistent. Failures of memory allocation, which
  in the \<open>noexcept\<close> constructors would end the program. Printing, thread names and sleeping. Of the JSON library the parsers with a callback and
  of the binary formats, iterators, pointers,
  patches and the parts of \<open>basic_json\<close> the program does not call. \<open>SendToPy\<close> is declared and
  has no body.
\<close>

end
